(* ===== verification/Runtime_Prelude.thy ===== *)
theory Runtime_Prelude
  imports Main "HOL-Library.AList" "HOL-Library.Sublist"
begin

text \<open>
  Shared vocabulary of the development: the collections of simplification rules the component
  theories extend, the insertion-ordered table that stands for a JavaScript \<open>Map\<close> or \<open>Set\<close>, and
  the list and option lemmas several components use.

  A JavaScript \<open>Map\<close> iterates its keys in the order of their first insertion; \<open>set\<close> on a present
  key keeps its place and \<open>delete\<close> removes it. That is an association list under the library's
  \<open>AList.update\<close> (which overwrites in place and appends a new key at the end) and
  \<open>AList.delete\<close>. A JavaScript \<open>Set\<close> is a list without repetitions in insertion order.
\<close>

named_theorems runtime_defs "one-step unfolding of the operations of the runtime model"
named_theorems table_simps "facts about insertion-ordered tables"

section \<open>Insertion-ordered tables\<close>

type_synonym ('k, 'v) table = "('k \<times> 'v) list"

abbreviation table_keys :: "('k, 'v) table \<Rightarrow> 'k list" where
  "table_keys t \<equiv> map fst t"

abbreviation table_has :: "('k, 'v) table \<Rightarrow> 'k \<Rightarrow> bool" where
  "table_has t k \<equiv> k \<in> set (table_keys t)"

text \<open>\<open>t.keys().next().value\<close> followed by \<open>t.delete\<close>: drop the oldest key, if there is one.\<close>

definition evict_oldest :: "('k, 'v) table \<Rightarrow> ('k, 'v) table" where
  "evict_oldest t = (case t of [] \<Rightarrow> [] | (k, _) # _ \<Rightarrow> AList.delete k t)"

definition wf_table :: "('k, 'v) table \<Rightarrow> bool" where
  "wf_table t \<longleftrightarrow> distinct (table_keys t)"

lemma wf_table_Nil [simp]: "wf_table []"
  by (simp add: wf_table_def)

lemma table_has_map_of: "table_has t k \<longleftrightarrow> map_of t k \<noteq> None"
  by (simp add: map_of_eq_None_iff)

lemma delete_absent: "k \<notin> set (table_keys t) \<Longrightarrow> AList.delete k t = t"
  by (induction t) auto

lemma evict_oldest_tl: "wf_table t \<Longrightarrow> evict_oldest t = tl t"
  by (auto simp: evict_oldest_def wf_table_def delete_absent split: list.splits)

lemma keys_update_absent:
  "k \<notin> set (table_keys t) \<Longrightarrow> AList.update k v t = t @ [(k, v)]"
  by (induction t) auto

lemma keys_update_present:
  "k \<in> set (table_keys t) \<Longrightarrow> table_keys (AList.update k v t) = table_keys t"
  by (induction t) auto

lemma keys_update:
  "table_keys (AList.update k v t) =
     (if k \<in> set (table_keys t) then table_keys t else table_keys t @ [k])"
  by (induction t) auto

lemma set_keys_delete: "set (table_keys (AList.delete k t)) = set (table_keys t) - {k}"
  by (induction t) auto

lemma in_delete: "x \<in> set (AList.delete k t) \<longleftrightarrow> x \<in> set t \<and> fst x \<noteq> k"
  by (auto simp: AList.delete_eq)

lemma wf_table_update [intro]: "wf_table t \<Longrightarrow> wf_table (AList.update k v t)"
  by (simp add: wf_table_def distinct_update)

lemma wf_table_delete [intro]: "wf_table t \<Longrightarrow> wf_table (AList.delete k t)"
  by (simp add: wf_table_def distinct_delete)

lemma wf_table_tl: "wf_table t \<Longrightarrow> wf_table (tl t)"
  by (cases t) (auto simp: wf_table_def)

lemma wf_table_evict [intro]: "wf_table t \<Longrightarrow> wf_table (evict_oldest t)"
  by (simp add: evict_oldest_tl wf_table_tl)

lemma wf_table_snoc: "wf_table t \<Longrightarrow> k \<notin> set (table_keys t) \<Longrightarrow> wf_table (t @ [(k, v)])"
  by (auto simp: wf_table_def)

lemma length_update:
  "length (AList.update k v t) = (if table_has t k then length t else Suc (length t))"
  by (induction t) auto

lemma in_update: "(k, v) \<in> set (AList.update t n xs) \<Longrightarrow> (k, v) = (t, n) \<or> (k, v) \<in> set xs"
  by (induction xs) (auto split: if_splits)

lemma length_delete_le: "length (AList.delete k t) \<le> length t"
  by (simp add: AList.delete_eq)

lemma length_delete:
  "wf_table t \<Longrightarrow> length (AList.delete k t) = (if table_has t k then length t - 1 else length t)"
  unfolding wf_table_def
  by (induction t) (auto simp: delete_absent dest: length_pos_if_in_set)

declare map_of_append [simp del]

lemma map_of_snoc: "k \<notin> fst ` set t \<Longrightarrow> map_of (t @ [(k, v)]) = (map_of t)(k \<mapsto> v)"
  by (metis keys_update_absent update_conv' set_map)

lemma map_of_snoc_same: "map_of t k = None \<Longrightarrow> map_of (t @ [(k, v)]) k = Some v"
  by (simp add: map_of_append map_add_def)

lemma map_of_tl_absent: "map_of t k = None \<Longrightarrow> map_of (tl t) k = None"
  by (cases t) (auto split: if_splits)

lemma in_table_key: "(k, v) \<in> set t \<Longrightarrow> k \<in> fst ` set t"
  by (metis fst_conv image_eqI)

lemma map_of_Some_key: "map_of t k = Some v \<Longrightarrow> k \<in> fst ` set t"
  by (metis map_of_SomeD fst_conv image_eqI)

lemmas table_lemmas [table_simps] =
  update_conv' delete_conv' keys_update set_keys_delete length_update

section \<open>Lists used as JavaScript sets and arrays\<close>

definition set_add :: "'a \<Rightarrow> 'a list \<Rightarrow> 'a list" where
  "set_add x xs = (if x \<in> set xs then xs else xs @ [x])"

definition set_del :: "'a \<Rightarrow> 'a list \<Rightarrow> 'a list" where
  "set_del x xs = filter (\<lambda>y. y \<noteq> x) xs"

lemma set_set_add [simp]: "set (set_add x xs) = insert x (set xs)"
  by (auto simp: set_add_def)

lemma set_set_del [simp]: "set (set_del x xs) = set xs - {x}"
  by (auto simp: set_del_def)

lemma distinct_set_add [intro]: "distinct xs \<Longrightarrow> distinct (set_add x xs)"
  by (simp add: set_add_def)

lemma distinct_set_del [intro]: "distinct xs \<Longrightarrow> distinct (set_del x xs)"
  by (simp add: set_del_def)

text \<open>\<open>array.findIndex(p)\<close> followed by \<open>splice(index, 1)\<close>: remove the first match, if any.\<close>

fun remove_first :: "('a \<Rightarrow> bool) \<Rightarrow> 'a list \<Rightarrow> 'a list" where
  "remove_first p [] = []"
| "remove_first p (x # xs) = (if p x then xs else x # remove_first p xs)"

lemma remove_first_none: "\<not> list_ex p xs \<Longrightarrow> remove_first p xs = xs"
  by (induction xs) auto

lemma length_remove_first:
  "length (remove_first p xs) = (if list_ex p xs then length xs - 1 else length xs)"
  by (induction xs) (auto simp: list_ex_iff dest: length_pos_if_in_set)

lemma filter_remove_first:
  "filter p (remove_first p xs) = tl (filter p xs)"
  by (induction xs) auto

lemma filter_remove_first_other:
  "(\<And>x. p x \<Longrightarrow> \<not> q x) \<Longrightarrow> filter q (remove_first p xs) = filter q xs"
  by (induction xs) auto

lemma subseq_remove_first: "subseq (remove_first p xs) xs"
  by (induction xs) auto

lemma subseq_tl: "subseq (tl xs) xs"
  by (cases xs) auto

lemma subseq_drop: "subseq (drop n xs) xs"
  by (metis append_take_drop_id list_emb_append2 subseq_order.refl)

lemma list_ex_filter: "list_ex p xs \<longleftrightarrow> filter p xs \<noteq> []"
  by (induction xs) auto

text \<open>Replacing the value at the first index that satisfies \<open>p\<close>: \<open>xs[i] = f xs[i]\<close>.\<close>

fun update_first :: "('a \<Rightarrow> bool) \<Rightarrow> ('a \<Rightarrow> 'a) \<Rightarrow> 'a list \<Rightarrow> 'a list" where
  "update_first p f [] = []"
| "update_first p f (x # xs) = (if p x then f x # xs else x # update_first p f xs)"

lemma length_update_first [simp]: "length (update_first p f xs) = length xs"
  by (induction xs) auto

lemma map_update_first:
  "(\<And>x. p x \<Longrightarrow> g (f x) = g x) \<Longrightarrow> map g (update_first p f xs) = map g xs"
  by (induction xs) auto

lemma update_first_none: "\<not> list_ex p xs \<Longrightarrow> update_first p f xs = xs"
  by (induction xs) auto

section \<open>Fallible results\<close>

text \<open>\<open>Inl e\<close> is a thrown error or a rejected promise, \<open>Inr x\<close> a returned value.\<close>

definition and_then :: "'e + 'a \<Rightarrow> ('a \<Rightarrow> 'e + 'b) \<Rightarrow> 'e + 'b" where
  "and_then r f = (case r of Inl e \<Rightarrow> Inl e | Inr x \<Rightarrow> f x)"

lemma and_then_simps [simp]: "and_then (Inl e) f = Inl e" "and_then (Inr x) f = f x"
  by (simp_all add: and_then_def)

lemma and_then_Inr: "and_then r f = Inr y \<longleftrightarrow> (\<exists>x. r = Inr x \<and> f x = Inr y)"
  by (cases r) auto

lemma and_then_Inl: "and_then r f = Inl e \<longleftrightarrow> r = Inl e \<or> (\<exists>x. r = Inr x \<and> f x = Inl e)"
  by (cases r) auto

definition is_ok :: "'e + 'a \<Rightarrow> bool" where
  "is_ok r = (case r of Inl _ \<Rightarrow> False | Inr _ \<Rightarrow> True)"

lemma is_ok_simps [simp]: "\<not> is_ok (Inl e)" "is_ok (Inr x)"
  by (simp_all add: is_ok_def)

lemma is_ok_iff: "is_ok r \<longleftrightarrow> (\<exists>x. r = Inr x)"
  by (cases r) auto

end
