(* ===== verification/Js_Values.thy ===== *)
theory Js_Values
  imports Runtime_Prelude
begin

text \<open>
  The JavaScript values the runtime handles, as far as its own code looks at them.

  A string is the list of bytes of its UTF-8 encoding (type \<open>string\<close>, a \<open>char list\<close>), so that
  \<open>Buffer.byteLength(s, "utf8")\<close> is \<open>length s\<close> and string equality is list equality; strings with
  lone surrogates, which have no UTF-8 encoding, are outside the model. \<open>trim\<close> removes the encodings
  of the white space and line terminator code points of the language.

  A finite number is the decimal \<open>m * 10 ^ e\<close> that identifies it: the shortest decimal that reads
  back as that number, which is what \<open>Number::toString\<close> prints. NaN, the infinities and negative
  zero are separate constructors.

  An object is a location of a heap; \<open>Js_Heap\<close> gives its properties.
\<close>

section \<open>Strings\<close>

definition ws_seqs :: "string list" where
  "ws_seqs =
    [[CHR 0x09], [CHR 0x0A], [CHR 0x0B], [CHR 0x0C], [CHR 0x0D], [CHR 0x20],
     [CHR 0xC2, CHR 0xA0], [CHR 0xE1, CHR 0x9A, CHR 0x80],
     [CHR 0xE2, CHR 0x80, CHR 0x80], [CHR 0xE2, CHR 0x80, CHR 0x81],
     [CHR 0xE2, CHR 0x80, CHR 0x82], [CHR 0xE2, CHR 0x80, CHR 0x83],
     [CHR 0xE2, CHR 0x80, CHR 0x84], [CHR 0xE2, CHR 0x80, CHR 0x85],
     [CHR 0xE2, CHR 0x80, CHR 0x86], [CHR 0xE2, CHR 0x80, CHR 0x87],
     [CHR 0xE2, CHR 0x80, CHR 0x88], [CHR 0xE2, CHR 0x80, CHR 0x89],
     [CHR 0xE2, CHR 0x80, CHR 0x8A], [CHR 0xE2, CHR 0x80, CHR 0xA8],
     [CHR 0xE2, CHR 0x80, CHR 0xA9], [CHR 0xE2, CHR 0x80, CHR 0xAF],
     [CHR 0xE2, CHR 0x81, CHR 0x9F], [CHR 0xE3, CHR 0x80, CHR 0x80],
     [CHR 0xEF, CHR 0xBB, CHR 0xBF]]"

function strip_ws :: "string list \<Rightarrow> string \<Rightarrow> string" where
  "strip_ws ps s =
    (case find (\<lambda>p. p \<noteq> [] \<and> prefix p s) ps of
       None \<Rightarrow> s
     | Some p \<Rightarrow> strip_ws ps (drop (length p) s))"
  by pat_completeness auto
termination
  by (relation "measure (\<lambda>(ps, s). length s)") (auto simp: find_Some_iff prefix_def)

declare strip_ws.simps [simp del]

definition js_trim :: "string \<Rightarrow> string" where
  "js_trim s = rev (strip_ws (map rev ws_seqs) (rev (strip_ws ws_seqs s)))"

text \<open>\<open>toLowerCase\<close> on the letters of ASCII.\<close>

definition lower_ascii :: "char \<Rightarrow> char" where
  "lower_ascii c = (let n = (of_char c :: nat) in if 65 \<le> n \<and> n \<le> 90 then char_of (n + 32) else c)"

definition blank :: "string \<Rightarrow> bool" where
  "blank s \<longleftrightarrow> js_trim s = []"

lemma strip_ws_Nil [simp]: "strip_ws ps [] = []"
  by (subst strip_ws.simps) (auto split: option.splits simp: find_Some_iff)

lemma blank_Nil [simp]: "blank []"
  by (simp add: blank_def js_trim_def)

lemma length_strip_ws: "length (strip_ws ps s) \<le> length s"
proof (induction ps s rule: strip_ws.induct)
  case (1 ps s)
  show ?case
  proof (cases "find (\<lambda>p. p \<noteq> [] \<and> prefix p s) ps")
    case None
    then show ?thesis by (simp add: strip_ws.simps [of ps s])
  next
    case (Some p)
    with "1.IH" [OF Some] show ?thesis by (simp add: strip_ws.simps [of ps s])
  qed
qed

lemma length_js_trim: "length (js_trim s) \<le> length s"
  unfolding js_trim_def using length_strip_ws [of "map rev ws_seqs" "rev (strip_ws ws_seqs s)"]
    length_strip_ws [of ws_seqs s] by simp

text \<open>Decimal digits and the decimal representation of a natural number.\<close>

definition digit_char :: "nat \<Rightarrow> char" where
  "digit_char d = char_of (48 + d)"

fun nat_str :: "nat \<Rightarrow> string" where
  "nat_str n = (if n < 10 then [digit_char n] else nat_str (n div 10) @ [digit_char (n mod 10)])"

declare nat_str.simps [simp del]

definition int_str :: "int \<Rightarrow> string" where
  "int_str i = (if i < 0 then ''-'' @ nat_str (nat (- i)) else nat_str (nat i))"

definition is_digit :: "char \<Rightarrow> bool" where
  "is_digit c \<longleftrightarrow> 48 \<le> (of_char c :: nat) \<and> (of_char c :: nat) \<le> 57"

definition digit_val :: "char \<Rightarrow> nat" where
  "digit_val c = of_char c - 48"

text \<open>\<open>BigInt(s)\<close> and \<open>Number(s)\<close> on a string of digits.\<close>

fun digits_val_acc :: "nat \<Rightarrow> string \<Rightarrow> nat" where
  "digits_val_acc acc [] = acc"
| "digits_val_acc acc (c # cs) = digits_val_acc (10 * acc + digit_val c) cs"

definition digits_val :: "string \<Rightarrow> nat" where
  "digits_val s = digits_val_acc 0 s"

lemma digit_char_val: "d < 10 \<Longrightarrow> digit_val (digit_char d) = d"
  by (simp add: digit_val_def digit_char_def)

lemma digit_char_is_digit: "d < 10 \<Longrightarrow> is_digit (digit_char d)"
  by (simp add: is_digit_def digit_char_def)

lemma digits_val_acc_append:
  "digits_val_acc a (xs @ ys) = digits_val_acc (digits_val_acc a xs) ys"
  by (induction xs arbitrary: a) auto

lemma digits_val_acc_shift: "digits_val_acc a xs = a * 10 ^ length xs + digits_val_acc 0 xs"
proof (induction xs arbitrary: a)
  case Nil
  then show ?case by simp
next
  case (Cons x xs)
  have "digits_val_acc a (x # xs) = (10 * a + digit_val x) * 10 ^ length xs + digits_val_acc 0 xs"
    using Cons [of "10 * a + digit_val x"] by simp
  moreover have "digits_val_acc 0 (x # xs) = digit_val x * 10 ^ length xs + digits_val_acc 0 xs"
    using Cons [of "digit_val x"] by simp
  ultimately show ?case by (simp add: algebra_simps)
qed

lemma digits_val_append:
  "digits_val (xs @ ys) = digits_val xs * 10 ^ length ys + digits_val ys"
  by (simp add: digits_val_def digits_val_acc_append digits_val_acc_shift [of "digits_val_acc 0 xs"])

lemma nat_str_val: "digits_val (nat_str n) = n"
proof (induction n rule: nat_str.induct)
  case (1 n)
  show ?case
  proof (cases "n < 10")
    case True
    then show ?thesis
      by (simp add: nat_str.simps [of n] digits_val_def digit_char_val)
  next
    case False
    with "1.IH" have "digits_val (nat_str (n div 10)) = n div 10" by simp
    with False show ?thesis
      by (simp add: nat_str.simps [of n] digits_val_append)
        (simp add: digits_val_def digit_char_val)
  qed
qed

lemma nat_str_digits: "\<forall>c \<in> set (nat_str n). is_digit c"
proof (induction n rule: nat_str.induct)
  case (1 n)
  then show ?case
    by (cases "n < 10") (auto simp: nat_str.simps [of n] digit_char_is_digit)
qed

lemma nat_str_inj: "nat_str a = nat_str b \<longleftrightarrow> a = b"
  by (metis nat_str_val)

lemma nat_str_nonempty [simp]: "nat_str n \<noteq> []"
  by (subst nat_str.simps) simp

section \<open>Numbers\<close>

datatype jsnum = NaN | PosInf | NegInf | NegZero | Fin int int

text \<open>\<open>Number.isInteger\<close>, and the integer a number that passes it stands for.\<close>

fun num_is_integer :: "jsnum \<Rightarrow> bool" where
  "num_is_integer NegZero = True"
| "num_is_integer (Fin m e) = (0 \<le> e \<or> (10 ^ nat (- e)) dvd m)"
| "num_is_integer _ = False"

fun num_int :: "jsnum \<Rightarrow> int" where
  "num_int (Fin m e) = (if 0 \<le> e then m * 10 ^ nat e else m div 10 ^ nat (- e))"
| "num_int _ = 0"

fun num_is_finite :: "jsnum \<Rightarrow> bool" where
  "num_is_finite NaN = False"
| "num_is_finite PosInf = False"
| "num_is_finite NegInf = False"
| "num_is_finite _ = True"

definition num_is_safe_integer :: "jsnum \<Rightarrow> bool" where
  "num_is_safe_integer v \<longleftrightarrow> num_is_integer v \<and> \<bar>num_int v\<bar> \<le> 9007199254740991"

text \<open>\<open>Number.isInteger(v) && v >= lo\<close>, and the same with an upper bound.\<close>

definition integer_from :: "int \<Rightarrow> jsnum \<Rightarrow> bool" where
  "integer_from lo v \<longleftrightarrow> num_is_integer v \<and> lo \<le> num_int v"

definition integer_within :: "int \<Rightarrow> int \<Rightarrow> jsnum \<Rightarrow> bool" where
  "integer_within lo hi v \<longleftrightarrow> num_is_integer v \<and> lo \<le> num_int v \<and> num_int v \<le> hi"

definition MAX_TIMER_DELAY_MS :: int where
  "MAX_TIMER_DELAY_MS = 2147483647"

text \<open>\<open>Number::toString\<close> (radix 10) on the shortest decimal of the number.\<close>

definition pos_decimal_str :: "nat \<Rightarrow> int \<Rightarrow> string" where
  "pos_decimal_str d e =
    (let ds = nat_str d; k = int (length ds); n = k + e in
     if k \<le> n \<and> n \<le> 21 then ds @ replicate (nat (n - k)) (CHR ''0'')
     else if 0 < n \<and> n \<le> 21 then take (nat n) ds @ ''.'' @ drop (nat n) ds
     else if -6 < n \<and> n \<le> 0 then ''0.'' @ replicate (nat (- n)) (CHR ''0'') @ ds
     else (let x = n - 1; exp = (if x < 0 then ''-'' else ''+'') @ nat_str (nat \<bar>x\<bar>) in
       if k = 1 then ds @ ''e'' @ exp
       else take 1 ds @ ''.'' @ drop 1 ds @ ''e'' @ exp))"

fun num_str :: "jsnum \<Rightarrow> string" where
  "num_str NaN = ''NaN''"
| "num_str PosInf = ''Infinity''"
| "num_str NegInf = ''-Infinity''"
| "num_str NegZero = ''0''"
| "num_str (Fin m e) =
    (if m = 0 then ''0''
     else if m < 0 then ''-'' @ pos_decimal_str (nat (- m)) e
     else pos_decimal_str (nat m) e)"

definition num_of_nat :: "nat \<Rightarrow> jsnum" where
  "num_of_nat n = Fin (int n) 0"

lemma num_of_nat_simps [simp]:
  "num_is_integer (num_of_nat n)" "num_int (num_of_nat n) = int n"
  by (simp_all add: num_of_nat_def)

section \<open>Values and errors\<close>

type_synonym loc = nat

datatype jsval =
    JUndefined
  | JNull
  | JBool bool
  | JNum jsnum
  | JBigInt int
  | JStr string
  | JSymbol nat
  | JFunction nat
  | JRef loc

datatype error_code =
    RUNTIME_NOT_STARTED
  | RUNTIME_ALREADY_STARTED
  | RUNTIME_ALREADY_STOPPED
  | TOOL_NOT_FOUND
  | DUPLICATE_TOOL
  | DUPLICATE_IN_FLIGHT_TASK
  | TASK_OUTCOME_UNKNOWN
  | TASK_RECONCILIATION_UNAVAILABLE
  | TASK_RECONCILIATION_REJECTED
  | TASK_RECONCILIATION_CONFLICT
  | INVALID_TASK
  | EXECUTION_FAILED
  | MAX_TOOL_CALLS_EXCEEDED
  | TOOL_POLICY_DENIED
  | STORAGE_CORRUPTED
  | STORAGE_LOCKED

type_synonym details = "(string \<times> jsval) list option"

text \<open>
  What a \<open>throw\<close> carries: the runtime's own error class with its code, message and details, the
  built-in error classes, or (from a tool, policy or listener) any value that is no \<open>Error\<close>.
\<close>

datatype js_error =
    RuntimeError error_code string details
  | TypeErr string
  | RangeErr string
  | PlainErr string
  | Thrown jsval

type_synonym 'a res = "js_error + 'a"

text \<open>\<open>error instanceof Error ? error.message : \<dots>\<close>\<close>

fun error_message :: "js_error \<Rightarrow> string option" where
  "error_message (RuntimeError _ m _) = Some m"
| "error_message (TypeErr m) = Some m"
| "error_message (RangeErr m) = Some m"
| "error_message (PlainErr m) = Some m"
| "error_message (Thrown _) = None"

fun error_code_of :: "js_error \<Rightarrow> error_code option" where
  "error_code_of (RuntimeError c _ _) = Some c"
| "error_code_of _ = None"

text \<open>The property \<open>code\<close> of a failure, for failures that carry it.\<close>

definition fails_with :: "'a res \<Rightarrow> error_code \<Rightarrow> bool" where
  "fails_with r c = (case r of Inl e \<Rightarrow> error_code_of e = Some c | Inr _ \<Rightarrow> False)"

lemma fails_with_simps [simp]:
  "fails_with (Inl e) c \<longleftrightarrow> error_code_of e = Some c" "\<not> fails_with (Inr x) c"
  by (simp_all add: fails_with_def)

end
