(* ===== verification/Runtime_Guards.thy ===== *)
theory Runtime_Guards
  imports Js_Values
begin

text \<open>
  The assertions of \<open>src/guards/runtime-guards.ts\<close>: each returns or throws a \<open>RuntimeError\<close> with a
  fixed code. Every component that validates its input does it through these.
\<close>

definition assert_runtime_started :: "bool \<Rightarrow> unit res" where
  "assert_runtime_started is_started =
    (if \<not> is_started
     then Inl (RuntimeError RUNTIME_NOT_STARTED
       ''AgentRuntime must be started before executing tasks.'' None)
     else Inr ())"

definition assert_non_empty_value :: "jsval \<Rightarrow> string \<Rightarrow> error_code \<Rightarrow> unit res" where
  "assert_non_empty_value v field code =
    (let failure = Inl (RuntimeError code (field @ '' must be a non-empty string.'')
       (Some [(''fieldName'', JStr field)])) in
     case v of
       JStr s \<Rightarrow> if blank s then failure else Inr ()
     | _ \<Rightarrow> failure)"

definition assert_max_tool_calls :: "nat \<Rightarrow> nat \<Rightarrow> unit res" where
  "assert_max_tool_calls current limit =
    (if limit \<le> current
     then Inl (RuntimeError MAX_TOOL_CALLS_EXCEEDED
       (''Task exceeded maximum allowed tool calls limit of '' @ nat_str limit @ ''.'')
       (Some [(''currentToolCalls'', JNum (num_of_nat current)),
              (''maxToolCalls'', JNum (num_of_nat limit))]))
     else Inr ())"

lemma assert_runtime_started_ok [simp]: "assert_runtime_started b = Inr u \<longleftrightarrow> b"
  by (simp add: assert_runtime_started_def)

lemma assert_runtime_started_error:
  "\<not> b \<Longrightarrow> fails_with (assert_runtime_started b) RUNTIME_NOT_STARTED"
  by (simp add: assert_runtime_started_def)

lemma assert_non_empty_value_ok:
  "assert_non_empty_value v f c = Inr u \<longleftrightarrow> (\<exists>s. v = JStr s \<and> \<not> blank s)"
  by (cases v) (auto simp: assert_non_empty_value_def Let_def)

lemma assert_non_empty_str_ok [simp]:
  "assert_non_empty_value (JStr s) f c = Inr u \<longleftrightarrow> \<not> blank s"
  by (simp add: assert_non_empty_value_ok)

lemma assert_non_empty_value_error:
  "assert_non_empty_value v f c = Inl e \<Longrightarrow> error_code_of e = Some c"
  by (cases v) (auto simp: assert_non_empty_value_def Let_def split: if_splits)

lemma assert_max_tool_calls_ok [simp]: "assert_max_tool_calls n q = Inr u \<longleftrightarrow> n < q"
  by (simp add: assert_max_tool_calls_def not_le)

lemma assert_max_tool_calls_error:
  "q \<le> n \<Longrightarrow> fails_with (assert_max_tool_calls n q) MAX_TOOL_CALLS_EXCEEDED"
  by (simp add: assert_max_tool_calls_def)

end
