(* ===== verification/Capped_Map.thy ===== *)
theory Capped_Map
  imports Runtime_Prelude
begin

text \<open>
  The contract shared by the runtime's bounded tables: the agent instances, the runtime state store
  and the executor's call counters each keep keys in insertion order and, when a new key arrives at
  a full table, drop the oldest one. The locale states what an insertion does to the key list; what
  follows from it (the bound, freshness of the youngest keys) is proved once here and used through
  the interpretations in the components' theories.
\<close>

definition capped_keys :: "nat \<Rightarrow> 'k \<Rightarrow> 'k list \<Rightarrow> 'k list" where
  "capped_keys c k ks =
    (if k \<in> set ks then ks
     else (if 0 < c \<and> c \<le> length ks then tl ks else ks) @ [k])"

lemma distinct_capped_keys: "distinct ks \<Longrightarrow> distinct (capped_keys c k ks)"
  by (cases ks) (auto simp: capped_keys_def)

lemma length_capped_keys: "c = 0 \<or> length ks \<le> c \<Longrightarrow> c = 0 \<or> length (capped_keys c k ks) \<le> c"
  by (auto simp: capped_keys_def)

locale capped_map =
  fixes cap :: "'s \<Rightarrow> nat"
    and keys :: "'s \<Rightarrow> 'k list"
    and valid :: "'k \<Rightarrow> bool"
    and ins :: "'k \<Rightarrow> 'x \<Rightarrow> 's \<Rightarrow> 's"
  assumes cap_ins: "cap (ins k x s) = cap s"
    and ins_invalid: "\<not> valid k \<Longrightarrow> ins k x s = s"
    and keys_ins: "\<lbrakk> valid k; distinct (keys s); cap s = 0 \<or> length (keys s) \<le> cap s \<rbrakk>
      \<Longrightarrow> keys (ins k x s) = capped_keys (cap s) k (keys s)"
begin

definition bounded :: "'s \<Rightarrow> bool" where
  "bounded s \<longleftrightarrow> distinct (keys s) \<and> (cap s = 0 \<or> length (keys s) \<le> cap s)"

definition ins_all :: "('k \<times> 'x) list \<Rightarrow> 's \<Rightarrow> 's" where
  "ins_all kxs s = fold (\<lambda>(k, x). ins k x) kxs s"

lemma keys_ins_bounded:
  "bounded s \<Longrightarrow> keys (ins k x s) = (if valid k then capped_keys (cap s) k (keys s) else keys s)"
  by (simp add: bounded_def keys_ins ins_invalid)

lemma bounded_ins: "bounded s \<Longrightarrow> bounded (ins k x s)"
  using distinct_capped_keys [of "keys s" "cap s" k] length_capped_keys [of "cap s" "keys s" k]
  by (simp add: bounded_def keys_ins ins_invalid cap_ins split: if_splits)
    (metis ins_invalid keys_ins)

lemma cap_ins_all: "cap (ins_all kxs s) = cap s"
  unfolding ins_all_def by (induction kxs arbitrary: s) (auto simp: cap_ins)

lemma bounded_ins_all: "bounded s \<Longrightarrow> bounded (ins_all kxs s)"
  unfolding ins_all_def by (induction kxs arbitrary: s) (auto intro: bounded_ins)

lemma ins_present: "bounded s \<Longrightarrow> valid k \<Longrightarrow> k \<in> set (keys (ins k x s))"
  by (simp add: keys_ins_bounded capped_keys_def)

lemma ins_keeps_unless_full:
  "\<lbrakk> bounded s; j \<in> set (keys s); cap s = 0 \<or> length (keys s) < cap s \<rbrakk>
    \<Longrightarrow> j \<in> set (keys (ins k x s))"
  by (auto simp: keys_ins_bounded capped_keys_def)

lemma ins_evicts_only_oldest:
  "\<lbrakk> bounded s; j \<in> set (keys s); j \<notin> set (keys (ins k x s)) \<rbrakk>
    \<Longrightarrow> j = hd (keys s) \<and> k \<notin> set (keys s) \<and> length (keys s) = cap s"
  by (cases "keys s") (auto simp: keys_ins_bounded capped_keys_def bounded_def split: if_splits)

text \<open>A key with fewer than \<open>cap\<close> younger keys survives any shorter run of insertions.\<close>

lemma ins_position:
  assumes "bounded s" and "keys s = pre @ j # post" and "cap s = 0 \<or> Suc (length post) < cap s"
  shows "\<exists>pre' post'. keys (ins k x s) = pre' @ j # post' \<and> length post' \<le> Suc (length post)"
proof (cases "valid k \<and> k \<notin> set (keys s)")
  case False
  with assms(1,2) have "keys (ins k x s) = pre @ j # post"
    by (auto simp: keys_ins_bounded capped_keys_def)
  then show ?thesis by (metis le_SucI order_refl)
next
  case new: True
  show ?thesis
  proof (cases "0 < cap s \<and> cap s \<le> length (keys s)")
    case False
    with new assms(1,2) have "keys (ins k x s) = pre @ j # (post @ [k])"
      by (auto simp: keys_ins_bounded capped_keys_def)
    then show ?thesis by fastforce
  next
    case True
    with assms(2,3) obtain p pre1 where pre: "pre = p # pre1"
      by (cases pre) auto
    with True new assms(1,2) have "keys (ins k x s) = pre1 @ j # (post @ [k])"
      by (auto simp: keys_ins_bounded capped_keys_def)
    then show ?thesis by fastforce
  qed
qed

lemma position_survives:
  "\<lbrakk> bounded s; keys s = pre @ j # post; cap s = 0 \<or> length post + length kxs < cap s \<rbrakk>
    \<Longrightarrow> j \<in> set (keys (ins_all kxs s))"
proof (induction kxs arbitrary: s pre post)
  case Nil
  then show ?case by (simp add: ins_all_def)
next
  case (Cons kx kxs)
  obtain k x where kx: "kx = (k, x)" by (cases kx)
  from Cons.prems obtain pre' post' where
    pos: "keys (ins k x s) = pre' @ j # post'" "length post' \<le> Suc (length post)"
    using ins_position [of s pre j post k x] by auto
  have "j \<in> set (keys (ins_all kxs (ins k x s)))"
    by (rule Cons.IH [OF bounded_ins [OF Cons.prems(1)] pos(1)])
      (use pos(2) Cons.prems(3) cap_ins in auto)
  then show ?case by (simp add: kx ins_all_def)
qed

lemma recent_survives:
  assumes "bounded s" and "valid j" and "j \<notin> set (keys s)"
    and "cap s = 0 \<or> length kxs < cap s"
  shows "j \<in> set (keys (ins_all kxs (ins j y s)))"
proof -
  have "\<exists>pre. keys (ins j y s) = pre @ j # []"
    using assms(1,2,3) by (auto simp: keys_ins_bounded capped_keys_def)
  then obtain pre where "keys (ins j y s) = pre @ j # []" by blast
  from position_survives [OF bounded_ins [OF assms(1)] this] assms(4) show ?thesis
    by (simp add: cap_ins)
qed

end

end
