(* ===== verification/Keyed_Stores.thy ===== *)
theory Keyed_Stores
  imports Runtime_Guards Capped_Map
begin

text \<open>
  The three synchronous keyed stores of the runtime: the tool registry
  (\<open>src/tools/tool-registry.ts\<close>), the agent instance manager
  (\<open>src/agents/agent-instance-manager.ts\<close>) and the in-memory runtime state store
  (\<open>src/state/runtime-state.ts\<close>). Each is a private \<open>Map\<close>, here a \<open>table\<close>, and one definition
  per method. The two bounded ones provide the contract of \<open>Capped_Map\<close>.
\<close>

section \<open>Tool registry\<close>

text \<open>
  A tool is its name, description and \<open>execute\<close> function; the function is opaque, so a tool carries
  an identity \<open>tool_run\<close> for it. A JavaScript caller may pass any value as the name.
\<close>

record tool_def =
  tool_name :: jsval
  tool_description :: string
  tool_run :: nat

type_synonym tool_registry = "(string, tool_def) table"

definition tool_name_error :: "string \<Rightarrow> js_error" where
  "tool_name_error m = RuntimeError INVALID_TASK m (Some [(''fieldName'', JStr ''tool.name'')])"

definition register :: "tool_registry \<Rightarrow> tool_def \<Rightarrow> tool_registry res" where
  "register reg tool =
    (case tool_name tool of
       JStr n \<Rightarrow>
         if blank n then Inl (tool_name_error ''tool.name must be a non-empty string.'')
         else if n \<noteq> js_trim n
         then Inl (tool_name_error ''tool.name must not have leading or trailing whitespace.'')
         else if table_has reg n
         then Inl (RuntimeError DUPLICATE_TOOL
           (''Tool \"'' @ n @ ''\" is already registered.'') (Some [(''toolName'', JStr n)]))
         else Inr (AList.update n tool reg)
     | _ \<Rightarrow> Inl (tool_name_error ''tool.name must be a non-empty string.''))"

definition get_tool :: "tool_registry \<Rightarrow> string \<Rightarrow> tool_def res" where
  "get_tool reg n =
    (case map_of reg n of
       None \<Rightarrow> Inl (RuntimeError TOOL_NOT_FOUND (''Tool \"'' @ n @ ''\" is not registered.'')
         (Some [(''toolName'', JStr n)]))
     | Some t \<Rightarrow> Inr t)"

definition has_tool :: "tool_registry \<Rightarrow> string \<Rightarrow> bool" where
  "has_tool reg n = table_has reg n"

definition unregister :: "tool_registry \<Rightarrow> string \<Rightarrow> bool \<times> tool_registry" where
  "unregister reg n = (table_has reg n, AList.delete n reg)"

definition clear_tools :: "tool_registry \<Rightarrow> tool_registry" where
  "clear_tools reg = []"

definition registry_size :: "tool_registry \<Rightarrow> nat" where
  "registry_size reg = length reg"

definition list_tools :: "tool_registry \<Rightarrow> tool_def list" where
  "list_tools reg = map snd reg"

text \<open>The registry keeps each tool under its own name, and only trimmed non-blank names.\<close>

definition wf_registry :: "tool_registry \<Rightarrow> bool" where
  "wf_registry reg \<longleftrightarrow> wf_table reg \<and>
     (\<forall>(n, t) \<in> set reg. tool_name t = JStr n \<and> \<not> blank n \<and> js_trim n = n)"

lemma register_Inr:
  "register reg tool = Inr reg' \<longleftrightarrow>
    (\<exists>n. tool_name tool = JStr n \<and> \<not> blank n \<and> js_trim n = n \<and> \<not> table_has reg n \<and>
         reg' = reg @ [(n, tool)])"
  by (cases "tool_name tool") (auto simp: register_def keys_update_absent)

lemma wf_registry_Nil [simp]: "wf_registry []"
  by (simp add: wf_registry_def)

lemma wf_registry_register: "wf_registry reg \<Longrightarrow> register reg tool = Inr reg' \<Longrightarrow> wf_registry reg'"
  by (auto simp: register_Inr wf_registry_def intro: wf_table_snoc)

lemma wf_registry_unregister: "wf_registry reg \<Longrightarrow> wf_registry (snd (unregister reg n))"
  by (auto simp: unregister_def wf_registry_def AList.delete_eq wf_table_def
      intro: distinct_delete [unfolded AList.delete_eq])

lemma get_tool_register:
  "register reg tool = Inr reg' \<Longrightarrow>
    get_tool reg' m = (if tool_name tool = JStr m then Inr tool else get_tool reg m)"
  by (auto simp: register_Inr get_tool_def map_of_snoc)

lemma get_tool_named: "wf_registry reg \<Longrightarrow> get_tool reg n = Inr t \<Longrightarrow> tool_name t = JStr n"
  by (auto simp: wf_registry_def get_tool_def split: option.splits dest: map_of_SomeD)

section \<open>Agent instance manager\<close>

record agent_instance =
  agent_id :: string
  created_at :: string

record agent_manager =
  instances :: "(string, agent_instance) table"
  max_instances :: nat
  eviction_count :: nat

definition DEFAULT_MAX_AGENT_INSTANCES :: int where
  "DEFAULT_MAX_AGENT_INSTANCES = 5000"

definition new_agent_manager :: "jsnum option \<Rightarrow> agent_manager res" where
  "new_agent_manager opt =
    (let v = (case opt of None \<Rightarrow> Fin DEFAULT_MAX_AGENT_INSTANCES 0 | Some x \<Rightarrow> x) in
     if \<not> integer_from 0 v then Inl (RangeErr ''maxInstances must be a non-negative integer.'')
     else Inr \<lparr>instances = [], max_instances = nat (num_int v), eviction_count = 0\<rparr>)"

definition get_or_create ::
  "agent_manager \<Rightarrow> jsval \<Rightarrow> string \<Rightarrow> (agent_instance \<times> agent_manager) res" where
  "get_or_create mgr agentId now =
    and_then (assert_non_empty_value agentId ''agentId'' INVALID_TASK) (\<lambda>_.
      case agentId of
        JStr a \<Rightarrow>
          (case map_of (instances mgr) a of
             Some existing \<Rightarrow> Inr (existing, mgr)
           | None \<Rightarrow>
               let mgr1 =
                 (if 0 < max_instances mgr \<and> max_instances mgr \<le> length (instances mgr)
                  then (case instances mgr of
                          [] \<Rightarrow> mgr
                        | (oldest, _) # _ \<Rightarrow>
                            mgr\<lparr>instances := AList.delete oldest (instances mgr),
                                eviction_count := eviction_count mgr + 1\<rparr>)
                  else mgr);
                 created = \<lparr>agent_id = a, created_at = now\<rparr>
               in Inr (created, mgr1\<lparr>instances := AList.update a created (instances mgr1)\<rparr>))
      | _ \<Rightarrow> Inl (TypeErr []))"

definition get_agent :: "agent_manager \<Rightarrow> string \<Rightarrow> agent_instance option" where
  "get_agent mgr a = map_of (instances mgr) a"

definition has_agent :: "agent_manager \<Rightarrow> string \<Rightarrow> bool" where
  "has_agent mgr a = table_has (instances mgr) a"

definition agents_size :: "agent_manager \<Rightarrow> nat" where
  "agents_size mgr = length (instances mgr)"

definition delete_agent :: "agent_manager \<Rightarrow> string \<Rightarrow> bool \<times> agent_manager" where
  "delete_agent mgr a =
    (table_has (instances mgr) a, mgr\<lparr>instances := AList.delete a (instances mgr)\<rparr>)"

definition clear_agents :: "agent_manager \<Rightarrow> agent_manager" where
  "clear_agents mgr = mgr\<lparr>instances := []\<rparr>"

definition list_agents :: "agent_manager \<Rightarrow> agent_instance list" where
  "list_agents mgr = map snd (instances mgr)"

text \<open>The state after \<open>getOrCreate\<close>, whether it returned or threw.\<close>

definition after_get_or_create :: "string \<Rightarrow> string \<Rightarrow> agent_manager \<Rightarrow> agent_manager" where
  "after_get_or_create a now mgr =
    (case get_or_create mgr (JStr a) now of Inl _ \<Rightarrow> mgr | Inr (_, mgr') \<Rightarrow> mgr')"

lemma get_or_create_blank:
  "blank a \<Longrightarrow> fails_with (get_or_create mgr (JStr a) now) INVALID_TASK"
  by (simp add: get_or_create_def assert_non_empty_value_def Let_def)

lemma get_or_create_existing:
  "\<not> blank a \<Longrightarrow> map_of (instances mgr) a = Some i \<Longrightarrow> get_or_create mgr (JStr a) now = Inr (i, mgr)"
  by (simp add: get_or_create_def assert_non_empty_value_def Let_def)

lemma get_or_create_new:
  assumes "\<not> blank a" and "map_of (instances mgr) a = None" and "wf_table (instances mgr)"
  shows "get_or_create mgr (JStr a) now =
    (let full = 0 < max_instances mgr \<and> max_instances mgr \<le> length (instances mgr);
         created = \<lparr>agent_id = a, created_at = now\<rparr>
     in Inr (created, mgr\<lparr>
       instances := (if full then tl (instances mgr) else instances mgr) @ [(a, created)],
       eviction_count := eviction_count mgr + (if full then 1 else 0)\<rparr>))"
proof (cases "instances mgr")
  case Nil
  with assms show ?thesis
    by (simp add: get_or_create_def assert_non_empty_value_def Let_def)
next
  case (Cons p rest)
  obtain k i where p: "p = (k, i)" by (cases p)
  from assms(3) Cons p have "AList.delete k (instances mgr) = rest"
    by (simp add: wf_table_def delete_absent)
  moreover from assms(2) Cons p have "a \<noteq> k" "a \<notin> set (table_keys rest)"
    by (auto simp: map_of_eq_None_iff split: if_splits)
  moreover have "a \<notin> set (table_keys (instances mgr))"
    using assms(2) by (simp add: map_of_eq_None_iff)
  ultimately show ?thesis
    using assms Cons p
    by (simp add: get_or_create_def assert_non_empty_value_def Let_def keys_update_absent)
qed

interpretation agents: capped_map max_instances "\<lambda>m. table_keys (instances m)" "\<lambda>a. \<not> blank a"
  after_get_or_create
proof
  fix a now mgr
  show "max_instances (after_get_or_create a now mgr) = max_instances mgr"
    by (auto simp: after_get_or_create_def get_or_create_def assert_non_empty_value_def Let_def
        split: option.splits list.splits)
  show "\<not> \<not> blank a \<Longrightarrow> after_get_or_create a now mgr = mgr"
    by (simp add: after_get_or_create_def get_or_create_def assert_non_empty_value_def Let_def)
  assume a: "\<not> blank a" "distinct (table_keys (instances mgr))"
  then have wf: "wf_table (instances mgr)" by (simp add: wf_table_def)
  show "table_keys (instances (after_get_or_create a now mgr)) =
      capped_keys (max_instances mgr) a (table_keys (instances mgr))"
  proof (cases "map_of (instances mgr) a")
    case None
    then show ?thesis
      by (simp add: after_get_or_create_def get_or_create_new [OF a(1) None wf] capped_keys_def Let_def
          map_of_eq_None_iff map_tl)
  next
    case (Some i)
    then have "a \<in> set (table_keys (instances mgr))"
      by (simp add: map_of_Some_key)
    with Some a(1) show ?thesis
      by (simp add: after_get_or_create_def get_or_create_existing capped_keys_def)
  qed
qed

lemma after_get_or_create_lookup:
  "wf_table (instances mgr) \<Longrightarrow> get_or_create mgr (JStr a) now = Inr (i, mgr') \<Longrightarrow>
    get_agent mgr' a = Some i \<and>
    i = (case get_agent mgr a of None \<Rightarrow> \<lparr>agent_id = a, created_at = now\<rparr> | Some j \<Rightarrow> j)"
  using get_or_create_blank [of a mgr now]
  by (cases "blank a"; cases "map_of (instances mgr) a")
    (auto simp: get_or_create_new get_or_create_existing get_agent_def Let_def map_of_snoc_same
      map_of_tl_absent)

text \<open>Every instance is kept under its own id.\<close>

definition wf_agents :: "agent_manager \<Rightarrow> bool" where
  "wf_agents mgr \<longleftrightarrow> agents.bounded mgr \<and> (\<forall>(a, i) \<in> set (instances mgr). agent_id i = a)"

section \<open>Runtime state store\<close>

record 'v state_store =
  store_entries :: "(string, 'v) table"
  store_max :: nat

definition new_state_store :: "jsnum option \<Rightarrow> 'v state_store res" where
  "new_state_store opt =
    (let v = (case opt of None \<Rightarrow> Fin 10000 0 | Some x \<Rightarrow> x) in
     if \<not> integer_from 0 v then Inl (RangeErr ''maxEntries must be a non-negative integer.'')
     else Inr \<lparr>store_entries = [], store_max = nat (num_int v)\<rparr>)"

definition state_put :: "string \<Rightarrow> 'v \<Rightarrow> 'v state_store \<Rightarrow> 'v state_store" where
  "state_put key value st =
    (let entries1 =
       (if 0 < store_max st \<and> \<not> table_has (store_entries st) key \<and>
           store_max st \<le> length (store_entries st)
        then evict_oldest (store_entries st) else store_entries st)
     in st\<lparr>store_entries := AList.update key value entries1\<rparr>)"

definition state_get :: "'v state_store \<Rightarrow> string \<Rightarrow> 'v option" where
  "state_get st key = map_of (store_entries st) key"

definition state_delete :: "'v state_store \<Rightarrow> string \<Rightarrow> bool \<times> 'v state_store" where
  "state_delete st key =
    (table_has (store_entries st) key, st\<lparr>store_entries := AList.delete key (store_entries st)\<rparr>)"

definition state_has :: "'v state_store \<Rightarrow> string \<Rightarrow> bool" where
  "state_has st key = table_has (store_entries st) key"

definition state_clear :: "'v state_store \<Rightarrow> 'v state_store" where
  "state_clear st = st\<lparr>store_entries := []\<rparr>"

definition state_size :: "'v state_store \<Rightarrow> nat" where
  "state_size st = length (store_entries st)"

definition state_keys :: "'v state_store \<Rightarrow> string list" where
  "state_keys st = table_keys (store_entries st)"

interpretation state_store: capped_map store_max state_keys "\<lambda>_. True" state_put
proof
  fix k x and s :: "'v state_store"
  show "store_max (state_put k x s) = store_max s"
    by (simp add: state_put_def Let_def)
  show "\<not> True \<Longrightarrow> state_put k x s = s" by simp
  assume "distinct (state_keys s)"
  then have wf: "wf_table (store_entries s)"
    by (simp add: state_keys_def wf_table_def)
  moreover have "k \<notin> set (table_keys (store_entries s)) \<Longrightarrow> k \<notin> set (table_keys (tl (store_entries s)))"
    by (cases "store_entries s") auto
  ultimately show "state_keys (state_put k x s) = capped_keys (store_max s) k (state_keys s)"
    by (auto simp: state_keys_def state_put_def capped_keys_def Let_def evict_oldest_tl
        keys_update_present keys_update_absent map_tl)
qed

lemma state_get_put_same: "state_get (state_put k v st) k = Some v"
  by (simp add: state_get_def state_put_def Let_def update_conv')

lemma state_get_put_other:
  "\<lbrakk> state_store.bounded st; j \<noteq> k; state_get (state_put k v st) j \<noteq> None \<rbrakk>
    \<Longrightarrow> state_get (state_put k v st) j = state_get st j"
  by (auto simp: state_get_def state_put_def Let_def update_conv' evict_oldest_def delete_conv'
      split: if_splits list.splits)

end
