(* ===== verification/Json_File.thy ===== *)
theory Json_File
  imports Js_Values
begin

text \<open>
  JSON documents as \<open>JSON.parse\<close> returns them, and the content of a storage file as the stores see
  it. A file is absent, holds only white space, holds text that \<open>JSON.parse\<close> rejects, or holds a
  document; \<open>JSON.stringify\<close> followed by \<open>JSON.parse\<close> gives the document back, so the text itself
  is not kept. A store operation reads the file once and returns its result with the document it
  publishes by an atomic rename, if it publishes one (type \<open>file_op\<close>); \<open>File_Lock\<close> runs such
  operations from several processes.
\<close>

datatype json =
    JsNull
  | JsBool bool
  | JsNum jsnum
  | JsStr string
  | JsArr "json list"
  | JsObj "(string \<times> json) list"

fun json_field :: "json \<Rightarrow> string \<Rightarrow> json option" where
  "json_field (JsObj fs) k = map_of fs k"
| "json_field _ k = None"

fun is_json_object :: "json \<Rightarrow> bool" where
  "is_json_object (JsObj _) = True"
| "is_json_object _ = False"

text \<open>\<open>typeof o.k === "string"\<close>, and the same with a non-empty value.\<close>

definition str_field :: "json \<Rightarrow> string \<Rightarrow> bool" where
  "str_field j k = (case json_field j k of Some (JsStr _) \<Rightarrow> True | _ \<Rightarrow> False)"

definition nonempty_str_field :: "json \<Rightarrow> string \<Rightarrow> bool" where
  "nonempty_str_field j k = (case json_field j k of Some (JsStr s) \<Rightarrow> s \<noteq> [] | _ \<Rightarrow> False)"

text \<open>\<open>NotJson\<close> carries the message of the \<open>SyntaxError\<close> that \<open>JSON.parse\<close> throws.\<close>

datatype storage_file = NoFile | BlankFile | NotJson string | Document json

type_synonym 'r file_op = "storage_file \<Rightarrow> 'r res \<times> json option"

text \<open>The file after an operation that ran to its end without interference.\<close>

definition published :: "storage_file \<Rightarrow> json option \<Rightarrow> storage_file" where
  "published f d = (case d of None \<Rightarrow> f | Some j \<Rightarrow> Document j)"

definition run_op :: "'r file_op \<Rightarrow> storage_file \<Rightarrow> 'r res \<times> storage_file" where
  "run_op op f = (let (r, d) = op f in (r, published f d))"

lemma published_simps [simp]: "published f None = f" "published f (Some j) = Document j"
  by (simp_all add: published_def)

fun type_name :: "json \<Rightarrow> string" where
  "type_name (JsBool _) = ''boolean''"
| "type_name (JsNum _) = ''number''"
| "type_name (JsStr _) = ''string''"
| "type_name _ = ''object''"

text \<open>
  The common head of the array-backed stores: no file and a blank file are the empty array, text
  that does not parse, a document that is no array, and an element that fails the store's own check
  are \<open>STORAGE_CORRUPTED\<close>. The stores differ in the words of the error and in its details.
\<close>

record array_storage =
  as_path :: string
  as_what :: string
  as_items :: string
  as_element :: string
  as_index :: string
  as_type :: bool

definition storage_corrupted :: "array_storage \<Rightarrow> string \<Rightarrow> (string \<times> jsval) list \<Rightarrow> js_error" where
  "storage_corrupted st m extra = RuntimeError STORAGE_CORRUPTED
    (''Corrupted '' @ as_what st @ '' storage file at '' @ as_path st @ '': '' @ m)
    (Some ((''filePath'', JStr (as_path st)) # extra))"

definition load_array :: "array_storage \<Rightarrow> (json \<Rightarrow> bool) \<Rightarrow> storage_file \<Rightarrow> json list res" where
  "load_array st is_element f =
    (case f of
       NoFile \<Rightarrow> Inr []
     | BlankFile \<Rightarrow> Inr []
     | NotJson cause \<Rightarrow> Inl (storage_corrupted st ''invalid JSON.'' [(''cause'', JStr cause)])
     | Document doc \<Rightarrow>
         (case doc of
            JsArr xs \<Rightarrow>
              (case find (\<lambda>i. \<not> is_element (xs ! i)) [0..<length xs] of
                 None \<Rightarrow> Inr xs
               | Some i \<Rightarrow> Inl (storage_corrupted st (''invalid '' @ as_element st @ '' at index '' @ nat_str i @ ''.'')
                   [(as_index st, JNum (num_of_nat i))]))
          | _ \<Rightarrow> Inl (storage_corrupted st (''expected a JSON array of '' @ as_items st @ ''.'')
              (if as_type st then [(''receivedType'', JStr (type_name doc))] else []))))"

lemma find_invalid_index:
  "find (\<lambda>i. \<not> p (xs ! i)) [0..<length xs] = None \<longleftrightarrow> list_all p xs"
  by (auto simp: find_None_iff list_all_length)

lemma load_array_Inr:
  "load_array st p f = Inr xs \<longleftrightarrow>
    (f = NoFile \<or> f = BlankFile) \<and> xs = [] \<or> f = Document (JsArr xs) \<and> list_all p xs"
  by (auto simp: load_array_def find_invalid_index split: storage_file.splits json.splits option.splits)
    (metis find_invalid_index option.distinct(1))+

lemma load_array_Inl:
  "load_array st p f = Inl e \<Longrightarrow> error_code_of e = Some STORAGE_CORRUPTED"
  by (auto simp: load_array_def storage_corrupted_def split: storage_file.splits json.splits option.splits)

lemma load_array_cases:
  obtains (corrupt) e where "load_array st p f = Inl e" "error_code_of e = Some STORAGE_CORRUPTED"
  | (loaded) xs where "load_array st p f = Inr xs" "list_all p xs"
  using load_array_Inl [where st = st and p = p and f = f] by (cases "load_array st p f") (auto simp: load_array_Inr)

lemma load_array_document: "list_all p xs \<Longrightarrow> load_array st p (Document (JsArr xs)) = Inr xs"
  by (simp add: load_array_Inr)

text \<open>The validation of the two lock timer options the stores share.\<close>

definition timer_option :: "jsnum \<Rightarrow> string \<Rightarrow> int \<Rightarrow> unit res" where
  "timer_option v name lo =
    (if \<not> integer_within lo MAX_TIMER_DELAY_MS v
     then Inl (RangeErr (name @ '' must be an integer between '' @ int_str lo @ '' and '' @
       int_str MAX_TIMER_DELAY_MS @ ''.'')) else Inr ())"

end
