(* ===== verification/Memory_Store.thy ===== *)
theory Memory_Store
  imports Runtime_Guards Json_File
begin

text \<open>
  Task history (\<open>src/memory/memory-store.ts\<close>): the shared selection and validation helpers, the
  in-memory store with its per-agent counters, and the JSON-file store's operations on the parsed
  array. Both stores keep the newest entries under a global bound and an optional per-agent bound;
  \<open>bounded_append\<close> is the abstract specification of an append and the locale \<open>entry_log\<close> the
  interface the two stores share.
\<close>

section \<open>Entries, cloning and selection\<close>

record 'o memory_entry =
  me_agent :: string
  me_task :: string
  me_input :: string
  me_output :: 'o
  me_recorded :: string

text \<open>
  What the platform does to an output value: whether it is a primitive, \<open>structuredClone\<close>, and
  \<open>JSON.parse(JSON.stringify(v))\<close>, each \<open>None\<close> where it throws.
\<close>

record 'o platform =
  is_primitive :: "'o \<Rightarrow> bool"
  structured_clone :: "'o \<Rightarrow> 'o option"
  json_clone :: "'o \<Rightarrow> 'o option"

definition clone_output :: "'o platform \<Rightarrow> 'o \<Rightarrow> 'o res" where
  "clone_output pf v =
    (if is_primitive pf v then Inr v
     else case structured_clone pf v of
       Some c \<Rightarrow> Inr c
     | None \<Rightarrow> (case json_clone pf v of
         Some c \<Rightarrow> Inr c
       | None \<Rightarrow> Inl (TypeErr ''Memory output must be defensively cloneable.'')))"

record list_options =
  lo_offset :: "jsnum option"
  lo_limit :: "jsnum option"

definition assert_list_options :: "list_options \<Rightarrow> unit res" where
  "assert_list_options opt =
    (case lo_offset opt of
       Some v \<Rightarrow> if \<not> integer_from 0 v then Inl (RangeErr ''offset must be a non-negative integer.'')
         else (case lo_limit opt of
           Some w \<Rightarrow> if \<not> integer_from 0 w
             then Inl (RangeErr ''limit must be a non-negative integer.'') else Inr ()
         | None \<Rightarrow> Inr ())
     | None \<Rightarrow> (case lo_limit opt of
           Some w \<Rightarrow> if \<not> integer_from 0 w
             then Inl (RangeErr ''limit must be a non-negative integer.'') else Inr ()
         | None \<Rightarrow> Inr ()))"

text \<open>The loop of \<open>selectMemoryEntries\<close>; a limit of \<open>None\<close> is \<open>Infinity\<close>.\<close>

fun select_loop ::
  "('e \<Rightarrow> 'e res) \<Rightarrow> ('e \<Rightarrow> bool) \<Rightarrow> nat option \<Rightarrow> nat \<Rightarrow> 'e list \<Rightarrow> 'e list \<Rightarrow> 'e list res" where
  "select_loop clone matches limit off sel [] = Inr sel"
| "select_loop clone matches limit off sel (x # xs) =
    (if \<not> matches x then select_loop clone matches limit off sel xs
     else if 0 < off then select_loop clone matches limit (off - 1) sel xs
     else (case clone x of
       Inl err \<Rightarrow> Inl err
     | Inr c \<Rightarrow>
         let sel' = sel @ [c] in
         (if (case limit of None \<Rightarrow> False | Some l \<Rightarrow> l \<le> length sel') then Inr sel'
          else select_loop clone matches limit off sel' xs)))"

definition select_entries ::
  "('e \<Rightarrow> 'e res) \<Rightarrow> ('e \<Rightarrow> bool) \<Rightarrow> list_options \<Rightarrow> 'e list \<Rightarrow> 'e list res" where
  "select_entries clone matches opt es =
    (let off = (case lo_offset opt of None \<Rightarrow> 0 | Some v \<Rightarrow> nat (num_int v));
         limit = map_option (\<lambda>v. nat (num_int v)) (lo_limit opt)
     in if limit = Some 0 then Inr [] else select_loop clone matches limit off [] es)"

definition page :: "nat \<Rightarrow> nat option \<Rightarrow> 'e list \<Rightarrow> 'e list" where
  "page off limit xs = (case limit of None \<Rightarrow> drop off xs | Some l \<Rightarrow> take l (drop off xs))"

lemma select_loop_page:
  assumes "\<And>x. x \<in> set es \<Longrightarrow> matches x \<Longrightarrow> clone x = Inr (g x)"
    and "case limit of None \<Rightarrow> True | Some l \<Rightarrow> length sel < l"
  shows "select_loop clone matches limit off sel es =
    Inr (sel @ map g (page off (map_option (\<lambda>l. l - length sel) limit) (filter matches es)))"
  using assms
proof (induction es arbitrary: off sel)
  case Nil
  then show ?case by (simp add: page_def split: option.splits)
next
  case (Cons x es)
  have IH: "select_loop clone matches limit o' s es = Inr (s @ map g
      (page o' (map_option (\<lambda>l. l - length s) limit) (filter matches es)))"
    if "case limit of None \<Rightarrow> True | Some l \<Rightarrow> length s < l" for o' s
    by (rule Cons.IH) (use Cons.prems(1) that in auto)
  show ?case
  proof (cases "matches x")
    case False
    then show ?thesis using IH Cons.prems(2) by simp
  next
    case m: True
    show ?thesis
    proof (cases "0 < off")
      case True
      then obtain k where "off = Suc k" by (cases off) auto
      with m IH [of sel k] Cons.prems(2) show ?thesis
        by (simp add: page_def split: option.splits)
    next
      case False
      with m Cons.prems IH [of "sel @ [g x]" 0] show ?thesis
        by (auto simp: page_def take_Cons' Let_def split: option.splits)
    qed
  qed
qed

section \<open>The abstract bounded append\<close>

definition bounded_append :: "nat \<Rightarrow> nat \<Rightarrow> ('e \<Rightarrow> string) \<Rightarrow> 'e \<Rightarrow> 'e list \<Rightarrow> 'e list" where
  "bounded_append max_all max_agent agent e es =
    (let mine = (\<lambda>x. agent x = agent e);
         es1 = (if 0 < max_agent \<and> max_agent \<le> length (filter mine es)
                then remove_first mine es else es);
         es2 = (if max_all \<le> length es1 then tl es1 else es1)
     in es2 @ [e])"

definition within_bounds :: "nat \<Rightarrow> nat \<Rightarrow> ('e \<Rightarrow> string) \<Rightarrow> 'e list \<Rightarrow> bool" where
  "within_bounds max_all max_agent agent es \<longleftrightarrow>
    length es \<le> max_all \<and>
    (max_agent = 0 \<or> (\<forall>a. length (filter (\<lambda>x. agent x = a) es) \<le> max_agent))"

lemma length_filter_tl: "length (filter p (tl xs)) \<le> length (filter p xs)"
  by (cases xs) auto

lemma within_bounds_append:
  assumes "0 < max_all" and "within_bounds max_all max_agent agent es"
  shows "within_bounds max_all max_agent agent (bounded_append max_all max_agent agent e es)"
proof -
  let ?mine = "\<lambda>x. agent x = agent e"
  define es1 where "es1 = (if 0 < max_agent \<and> max_agent \<le> length (filter ?mine es)
    then remove_first ?mine es else es)"
  define es2 where "es2 = (if max_all \<le> length es1 then tl es1 else es1)"
  have res: "bounded_append max_all max_agent agent e es = es2 @ [e]"
    by (simp add: bounded_append_def es1_def es2_def)
  have len1: "length es1 \<le> length es"
    by (simp add: es1_def length_remove_first)
  have len2: "Suc (length es2) \<le> max_all"
    using len1 assms by (auto simp: es2_def within_bounds_def)
  have shorter: "length (filter (\<lambda>x. agent x = a) es2) \<le> length (filter (\<lambda>x. agent x = a) es1)" for a
    by (simp add: es2_def length_filter_tl)
  have agent1: "length (filter (\<lambda>x. agent x = a) es1) + (if a = agent e then 1 else 0) \<le> max_agent"
    if "0 < max_agent" for a
  proof (cases "a = agent e")
    case True
    have "length (filter ?mine es) \<le> max_agent"
      using assms(2) that by (auto simp: within_bounds_def)
    with True that show ?thesis
      by (auto simp: es1_def filter_remove_first)
  next
    case False
    then have "filter (\<lambda>x. agent x = a) (remove_first ?mine es) = filter (\<lambda>x. agent x = a) es"
      by (intro filter_remove_first_other) auto
    with False assms(2) that show ?thesis
      by (auto simp: es1_def within_bounds_def)
  qed
  have "length (filter (\<lambda>x. agent x = a) (es2 @ [e])) \<le> max_agent" if "0 < max_agent" for a
    using agent1 [OF that, of a] shorter [of a] by (auto split: if_splits)
  moreover have "length (es2 @ [e]) \<le> max_all"
    using len2 by simp
  ultimately show ?thesis
    unfolding res within_bounds_def by (metis neq0_conv)
qed

lemma subseq_bounded_append: "subseq (bounded_append m n agent e es) (es @ [e])"
proof -
  let ?mine = "\<lambda>x. agent x = agent e"
  define es1 where "es1 = (if 0 < n \<and> n \<le> length (filter ?mine es)
    then remove_first ?mine es else es)"
  have "subseq es1 es" by (simp add: es1_def subseq_remove_first)
  moreover have "subseq (if m \<le> length es1 then tl es1 else es1) es1" by (simp add: subseq_tl)
  ultimately have "subseq (if m \<le> length es1 then tl es1 else es1) es"
    using subseq_order.trans by blast
  moreover have "bounded_append m n agent e es = (if m \<le> length es1 then tl es1 else es1) @ [e]"
    by (simp add: bounded_append_def es1_def Let_def)
  ultimately show ?thesis by (simp only: subseq_append)
qed

text \<open>Renaming the entries without touching their agents commutes with the bounded append.\<close>

lemma remove_first_map:
  "(\<And>x. q (h x) \<longleftrightarrow> p x) \<Longrightarrow> remove_first q (map h xs) = map h (remove_first p xs)"
  by (induction xs) auto

lemma filter_map_same: "(\<And>x. q (h x) \<longleftrightarrow> p x) \<Longrightarrow> length (filter q (map h xs)) = length (filter p xs)"
  by (induction xs) auto

lemma map_bounded_append:
  assumes "\<And>x. agent' (h x) = agent x"
  shows "map h (bounded_append m n agent e es) = bounded_append m n agent' (h e) (map h es)"
proof -
  let ?p = "\<lambda>x. agent x = agent e" and ?q = "\<lambda>y. agent' y = agent e"
  have "remove_first ?q (map h es) = map h (remove_first ?p es)"
    and "length (filter ?q (map h es)) = length (filter ?p es)"
    by (rule remove_first_map, simp add: assms) (rule filter_map_same, simp add: assms)
  then show ?thesis
    by (simp add: bounded_append_def Let_def assms map_tl)
qed

lemma map_fold_bounded_append:
  assumes "\<And>x. agent' (h x) = agent x"
  shows "map h (fold (bounded_append m n agent) es xs) =
    fold (bounded_append m n agent') (map h es) (map h xs)"
  by (induction es arbitrary: xs) (simp_all add: map_bounded_append [where agent' = agent'] assms)

locale entry_log =
  fixes contents :: "'s \<Rightarrow> 'e list"
    and agent :: "'e \<Rightarrow> string"
    and max_all :: "'s \<Rightarrow> nat"
    and max_agent :: "'s \<Rightarrow> nat"
    and ok :: "'s \<Rightarrow> bool"
    and add :: "'e \<Rightarrow> 's \<Rightarrow> 's"
  assumes ok_bounds: "ok s \<Longrightarrow> 0 < max_all s \<and> within_bounds (max_all s) (max_agent s) agent (contents s)"
    and contents_add: "ok s \<Longrightarrow> contents (add e s) =
      bounded_append (max_all s) (max_agent s) agent e (contents s)"
    and ok_add: "ok s \<Longrightarrow> ok (add e s)"
    and max_all_add: "max_all (add e s) = max_all s"
    and max_agent_add: "max_agent (add e s) = max_agent s"
begin

definition add_all :: "'e list \<Rightarrow> 's \<Rightarrow> 's" where
  "add_all es s = fold add es s"

lemma add_all_simps [simp]: "add_all [] s = s" "add_all (e # es) s = add_all es (add e s)"
  by (simp_all add: add_all_def)

lemma ok_add_all: "ok s \<Longrightarrow> ok (add_all es s)"
  by (induction es arbitrary: s) (auto intro: ok_add)

lemma max_add_all: "max_all (add_all es s) = max_all s" "max_agent (add_all es s) = max_agent s"
  by (induction es arbitrary: s) (auto simp: max_all_add max_agent_add)

lemma last_add: "ok s \<Longrightarrow> last (contents (add e s)) = e"
  by (simp add: contents_add bounded_append_def Let_def)

lemma add_all_bounds:
  "ok s \<Longrightarrow> length (contents (add_all es s)) \<le> max_all s \<and>
    (max_agent s = 0 \<or> length (filter (\<lambda>x. agent x = a) (contents (add_all es s))) \<le> max_agent s)"
  using ok_bounds [OF ok_add_all, of s es] by (auto simp: max_add_all within_bounds_def)

lemma add_all_order: "ok s \<Longrightarrow> subseq (contents (add_all es s)) (contents s @ es)"
proof (induction es arbitrary: s)
  case Nil
  then show ?case by simp
next
  case (Cons e es)
  have "subseq (contents (add_all es (add e s))) (contents (add e s) @ es)"
    by (rule Cons.IH [OF ok_add [OF Cons.prems]])
  moreover have "subseq (contents (add e s) @ es) ((contents s @ [e]) @ es)"
    unfolding contents_add [OF Cons.prems]
    by (rule list_emb_append_mono [OF subseq_bounded_append subseq_order.refl])
  ultimately show ?case
    using subseq_order.trans by fastforce
qed

lemma contents_add_no_agent_limit:
  assumes "ok s" and "max_agent s = 0"
  shows "contents (add e s) = drop (Suc (length (contents s)) - max_all s) (contents s @ [e])"
proof -
  have len: "length (contents s) \<le> max_all s" and pos: "0 < max_all s"
    using ok_bounds [OF assms(1)] by (auto simp: within_bounds_def)
  show ?thesis
  proof (cases "max_all s \<le> length (contents s)")
    case True
    with len pos have "Suc (length (contents s)) - max_all s = 1" and "contents s \<noteq> []" by auto
    then show ?thesis using True assms
      by (cases "contents s") (auto simp: contents_add bounded_append_def)
  next
    case False
    then show ?thesis using assms by (simp add: contents_add bounded_append_def)
  qed
qed

lemma contents_add_all:
  "ok s \<Longrightarrow> contents (add_all es s) =
    fold (bounded_append (max_all s) (max_agent s) agent) es (contents s)"
proof (induction es arbitrary: s)
  case Nil
  then show ?case by simp
next
  case (Cons e es)
  then show ?case
    by (simp add: ok_add contents_add max_all_add max_agent_add)
qed

text \<open>Without a per-agent bound the store holds exactly the newest entries.\<close>

lemma add_all_newest:
  "ok s \<Longrightarrow> max_agent s = 0 \<Longrightarrow>
    contents (add_all es s) = drop (length (contents s @ es) - max_all s) (contents s @ es)"
proof (induction es arbitrary: s)
  case Nil
  then have "length (contents s) \<le> max_all s"
    using ok_bounds by (auto simp: within_bounds_def)
  then show ?case by simp
next
  case (Cons e es)
  let ?c = "contents s" and ?m = "max_all s"
  have step: "contents (add e s) = drop (Suc (length ?c) - ?m) (?c @ [e])"
    by (rule contents_add_no_agent_limit [OF Cons.prems])
  have "contents (add_all es (add e s)) =
      drop (length (contents (add e s) @ es) - ?m) (contents (add e s) @ es)"
    using Cons.IH [of "add e s"] ok_add Cons.prems by (simp add: max_all_add max_agent_add)
  also have "contents (add e s) @ es = drop (Suc (length ?c) - ?m) (?c @ e # es)"
    unfolding step using ok_bounds [OF Cons.prems(1)] by (simp add: within_bounds_def)
  finally have "contents (add_all (e # es) s) = drop (length (drop (Suc (length ?c) - ?m) (?c @ e # es)) -
      ?m + (Suc (length ?c) - ?m)) (?c @ e # es)"
    by (simp only: add_all_simps drop_drop)
  moreover have "length (drop (Suc (length ?c) - ?m) (?c @ e # es)) - ?m + (Suc (length ?c) - ?m) =
      length (?c @ e # es) - ?m"
    using ok_bounds [OF Cons.prems(1)] unfolding within_bounds_def length_drop length_append length_Cons
    by linarith
  ultimately show ?case by (simp only:)
qed

end

section \<open>The in-memory store\<close>

record 'o memory_store =
  mem_entries :: "'o memory_entry list"
  mem_counts :: "(string, nat) table"
  mem_max :: nat
  mem_max_agent :: nat

definition new_memory_store :: "jsnum option \<Rightarrow> jsnum option \<Rightarrow> 'o memory_store res" where
  "new_memory_store max_opt agent_opt =
    (let m = (case max_opt of None \<Rightarrow> Fin 10000 0 | Some v \<Rightarrow> v);
         a = (case agent_opt of None \<Rightarrow> Fin 1000 0 | Some v \<Rightarrow> v)
     in if \<not> integer_from 1 m then Inl (RangeErr ''maxEntries must be a positive integer.'')
        else if \<not> integer_from 0 a
        then Inl (RangeErr ''maxEntriesPerAgent must be a non-negative integer.'')
        else Inr \<lparr>mem_entries = [], mem_counts = [], mem_max = nat (num_int m),
                  mem_max_agent = nat (num_int a)\<rparr>)"

definition count_by_agent :: "'o memory_store \<Rightarrow> string \<Rightarrow> nat" where
  "count_by_agent st a = (case map_of (mem_counts st) a of None \<Rightarrow> 0 | Some n \<Rightarrow> n)"

definition decrement_agent_count :: "string \<Rightarrow> 'o memory_store \<Rightarrow> 'o memory_store" where
  "decrement_agent_count a st =
    (let count = count_by_agent st a in
     if count \<le> 1 then st\<lparr>mem_counts := AList.delete a (mem_counts st)\<rparr>
     else st\<lparr>mem_counts := AList.update a (count - 1) (mem_counts st)\<rparr>)"

text \<open>The three steps of \<open>append\<close> after the defensive copy: per-agent eviction, global eviction, push.\<close>

definition evict_for_agent :: "string \<Rightarrow> 'o memory_store \<Rightarrow> 'o memory_store" where
  "evict_for_agent a st =
    (if 0 < mem_max_agent st \<and> mem_max_agent st \<le> count_by_agent st a then
       (if list_ex (\<lambda>x. me_agent x = a) (mem_entries st)
        then decrement_agent_count a
          (st\<lparr>mem_entries := remove_first (\<lambda>x. me_agent x = a) (mem_entries st)\<rparr>)
        else st)
     else st)"

definition evict_for_capacity :: "'o memory_store \<Rightarrow> 'o memory_store" where
  "evict_for_capacity st =
    (if mem_max st \<le> length (mem_entries st) then
       (case mem_entries st of
          [] \<Rightarrow> st
        | evicted # rest \<Rightarrow> decrement_agent_count (me_agent evicted) (st\<lparr>mem_entries := rest\<rparr>))
     else st)"

definition push_entry :: "'o memory_entry \<Rightarrow> 'o memory_store \<Rightarrow> 'o memory_store" where
  "push_entry e st =
    st\<lparr>mem_entries := mem_entries st @ [e],
       mem_counts := AList.update (me_agent e) (count_by_agent st (me_agent e) + 1) (mem_counts st)\<rparr>"

definition store_entry :: "'o memory_entry \<Rightarrow> 'o memory_store \<Rightarrow> 'o memory_store" where
  "store_entry e st = push_entry e (evict_for_capacity (evict_for_agent (me_agent e) st))"

definition memory_append ::
  "'o platform \<Rightarrow> 'o memory_entry \<Rightarrow> 'o memory_store \<Rightarrow> 'o memory_store res" where
  "memory_append pf e st =
    and_then (clone_output pf (me_output e)) (\<lambda>out. Inr (store_entry (e\<lparr>me_output := out\<rparr>) st))"

definition clone_entry :: "'o platform \<Rightarrow> 'o memory_entry \<Rightarrow> 'o memory_entry res" where
  "clone_entry pf e = and_then (clone_output pf (me_output e)) (\<lambda>out. Inr (e\<lparr>me_output := out\<rparr>))"

definition list_by_agent ::
  "'o platform \<Rightarrow> 'o memory_store \<Rightarrow> string \<Rightarrow> list_options \<Rightarrow> 'o memory_entry list res" where
  "list_by_agent pf st a opt =
    and_then (assert_list_options opt)
      (\<lambda>_. select_entries (clone_entry pf) (\<lambda>e. me_agent e = a) opt (mem_entries st))"

definition memory_size :: "'o memory_store \<Rightarrow> nat" where
  "memory_size st = length (mem_entries st)"

definition clear_memory :: "'o memory_store \<Rightarrow> 'o memory_store" where
  "clear_memory st = st\<lparr>mem_entries := [], mem_counts := []\<rparr>"

subsection \<open>The counters agree with the entries\<close>

definition occurrences :: "string \<Rightarrow> 'o memory_entry list \<Rightarrow> nat" where
  "occurrences a es = length (filter (\<lambda>e. me_agent e = a) es)"

definition counts_exact :: "'o memory_store \<Rightarrow> bool" where
  "counts_exact st \<longleftrightarrow> wf_table (mem_counts st) \<and>
    (\<forall>a. map_of (mem_counts st) a =
      (if occurrences a (mem_entries st) = 0 then None else Some (occurrences a (mem_entries st))))"

definition wf_memory :: "'o memory_store \<Rightarrow> bool" where
  "wf_memory st \<longleftrightarrow> counts_exact st \<and> 0 < mem_max st \<and>
    within_bounds (mem_max st) (mem_max_agent st) me_agent (mem_entries st)"

lemma occurrences_simps [simp]:
  "occurrences a [] = 0"
  "occurrences a (e # es) = (if me_agent e = a then 1 else 0) + occurrences a es"
  "occurrences a (xs @ ys) = occurrences a xs + occurrences a ys"
  by (simp_all add: occurrences_def)

lemma count_exact: "counts_exact st \<Longrightarrow> count_by_agent st a = occurrences a (mem_entries st)"
  by (simp add: counts_exact_def count_by_agent_def)

lemma counts_decrement:
  assumes "counts_exact st"
    and "\<And>b. occurrences b es =
      (if b = a then occurrences b (mem_entries st) - 1 else occurrences b (mem_entries st))"
  shows "counts_exact (decrement_agent_count a (st\<lparr>mem_entries := es\<rparr>))"
proof -
  have "count_by_agent (st\<lparr>mem_entries := es\<rparr>) a = occurrences a (mem_entries st)"
    using count_exact [OF assms(1), of a] by (simp add: count_by_agent_def)
  then show ?thesis
    using assms by (auto simp: counts_exact_def decrement_agent_count_def Let_def update_conv' delete_conv')
qed

lemma decrement_entries [simp]:
  "mem_entries (decrement_agent_count a st) = mem_entries st"
  "mem_max (decrement_agent_count a st) = mem_max st"
  "mem_max_agent (decrement_agent_count a st) = mem_max_agent st"
  by (simp_all add: decrement_agent_count_def Let_def)

lemma occurrences_remove_first:
  "occurrences b (remove_first (\<lambda>x. me_agent x = a) es) =
    (if b = a then occurrences b es - 1 else occurrences b es)"
proof (cases "b = a")
  case True
  then show ?thesis by (simp add: occurrences_def filter_remove_first)
next
  case False
  then have "filter (\<lambda>x. me_agent x = b) (remove_first (\<lambda>x. me_agent x = a) es) =
      filter (\<lambda>x. me_agent x = b) es"
    by (intro filter_remove_first_other) auto
  with False show ?thesis by (simp add: occurrences_def)
qed

lemma counts_evict_for_agent: "counts_exact st \<Longrightarrow> counts_exact (evict_for_agent a st)"
  by (simp add: evict_for_agent_def counts_decrement occurrences_remove_first)

lemma counts_evict_for_capacity: "counts_exact st \<Longrightarrow> counts_exact (evict_for_capacity st)"
  by (auto simp: evict_for_capacity_def intro!: counts_decrement split: list.split)

lemma counts_push: "counts_exact st \<Longrightarrow> counts_exact (push_entry e st)"
  using count_exact [of st "me_agent e"]
  by (auto simp: counts_exact_def push_entry_def update_conv')

lemma evict_for_agent_fields [simp]:
  "mem_max (evict_for_agent a st) = mem_max st" "mem_max_agent (evict_for_agent a st) = mem_max_agent st"
  by (simp_all add: evict_for_agent_def)

lemma evict_for_capacity_fields [simp]:
  "mem_max (evict_for_capacity st) = mem_max st"
  "mem_max_agent (evict_for_capacity st) = mem_max_agent st"
  by (simp_all add: evict_for_capacity_def split: list.split)

lemma evict_for_agent_entries:
  "counts_exact st \<Longrightarrow> mem_entries (evict_for_agent a st) =
    (if 0 < mem_max_agent st \<and> mem_max_agent st \<le> occurrences a (mem_entries st)
     then remove_first (\<lambda>x. me_agent x = a) (mem_entries st) else mem_entries st)"
  by (simp add: evict_for_agent_def count_exact remove_first_none)

lemma evict_for_capacity_entries:
  "mem_entries (evict_for_capacity st) =
    (if mem_max st \<le> length (mem_entries st) then tl (mem_entries st) else mem_entries st)"
  by (auto simp: evict_for_capacity_def split: list.split)

lemma store_entry_entries:
  "counts_exact st \<Longrightarrow> mem_entries (store_entry e st) =
    bounded_append (mem_max st) (mem_max_agent st) me_agent e (mem_entries st)"
  by (simp add: store_entry_def push_entry_def bounded_append_def Let_def occurrences_def
      evict_for_agent_entries evict_for_capacity_entries counts_evict_for_agent)

lemma store_entry_fields [simp]:
  "mem_max (store_entry e st) = mem_max st" "mem_max_agent (store_entry e st) = mem_max_agent st"
  by (simp_all add: store_entry_def push_entry_def)

lemma wf_store_entry: "wf_memory st \<Longrightarrow> wf_memory (store_entry e st)"
  by (simp add: wf_memory_def store_entry_entries within_bounds_append)
    (simp add: store_entry_def counts_push counts_evict_for_capacity counts_evict_for_agent)

interpretation memory: entry_log mem_entries me_agent mem_max mem_max_agent wf_memory store_entry
  by unfold_locales (simp_all add: wf_store_entry, simp_all add: wf_memory_def store_entry_entries)

end
