(* ===== verification/Memory_File.thy ===== *)
theory Memory_File
  imports Memory_Store
begin

text \<open>
  The JSON-file memory store (class \<open>JsonFileMemoryStore\<close> of \<open>src/memory/memory-store.ts\<close>) on the
  parsed document: one \<open>file_op\<close> per method, run under the writer lock of \<open>File_Lock\<close>. An entry is
  kept as the JSON object the store wrote, unknown fields of older files included. \<open>JSON.stringify\<close>
  of an output is a parameter: it yields a JSON value, nothing (the property is left out), or throws.
\<close>

record file_memory_config =
  fm_path :: string
  fm_max :: nat
  fm_max_agent :: nat
  fm_lock_timeout :: nat
  fm_lock_retry :: nat

definition new_file_memory ::
  "string \<Rightarrow> jsnum option \<Rightarrow> jsnum option \<Rightarrow> jsnum option \<Rightarrow> jsnum option \<Rightarrow> file_memory_config res" where
  "new_file_memory path max_opt agent_opt timeout_opt retry_opt =
    (let timeout = (case timeout_opt of None \<Rightarrow> Fin 5000 0 | Some v \<Rightarrow> v);
         retry = (case retry_opt of None \<Rightarrow> Fin 10 0 | Some v \<Rightarrow> v);
         m = (case max_opt of None \<Rightarrow> Fin 10000 0 | Some v \<Rightarrow> v);
         a = (case agent_opt of None \<Rightarrow> Fin 0 0 | Some v \<Rightarrow> v)
     in if \<not> integer_from 1 m then Inl (RangeErr ''maxEntries must be a positive integer.'')
        else if \<not> integer_from 0 a
        then Inl (RangeErr ''maxEntriesPerAgent must be a non-negative integer.'')
        else and_then (timer_option timeout ''lockTimeoutMs'' 0) (\<lambda>_.
             and_then (timer_option retry ''lockRetryDelayMs'' 1) (\<lambda>_.
             Inr \<lparr>fm_path = path, fm_max = nat (num_int m), fm_max_agent = nat (num_int a),
                  fm_lock_timeout = nat (num_int timeout), fm_lock_retry = nat (num_int retry)\<rparr>)))"

definition is_persisted_entry :: "json \<Rightarrow> bool" where
  "is_persisted_entry j \<longleftrightarrow> is_json_object j \<and>
    str_field j ''agentId'' \<and> str_field j ''taskId'' \<and> str_field j ''input'' \<and> str_field j ''recordedAt''"

definition load_entries :: "file_memory_config \<Rightarrow> storage_file \<Rightarrow> json list res" where
  "load_entries cfg f = load_array \<lparr>as_path = fm_path cfg, as_what = ''memory'', as_items = ''entries'',
    as_element = ''memory entry'', as_index = ''entryIndex'', as_type = True\<rparr> is_persisted_entry f"

definition json_of_entry :: "json option memory_entry \<Rightarrow> json" where
  "json_of_entry e = JsObj
    ([(''agentId'', JsStr (me_agent e)), (''taskId'', JsStr (me_task e)),
      (''input'', JsStr (me_input e))] @
     (case me_output e of None \<Rightarrow> [] | Some v \<Rightarrow> [(''output'', v)]) @
     [(''recordedAt'', JsStr (me_recorded e))])"

definition of_agent :: "string \<Rightarrow> json \<Rightarrow> bool" where
  "of_agent a j \<longleftrightarrow> json_field j ''agentId'' = Some (JsStr a)"

text \<open>The index loop that drops this agent's oldest entries, and the \<open>while\<close> loop over \<open>shift\<close>.\<close>

fun trim_agent :: "('e \<Rightarrow> bool) \<Rightarrow> nat \<Rightarrow> nat \<Rightarrow> 'e list \<Rightarrow> 'e list" where
  "trim_agent mine limit count [] = []"
| "trim_agent mine limit count (x # xs) =
    (if limit \<le> count
     then (if mine x then trim_agent mine limit (count - 1) xs
           else x # trim_agent mine limit count xs)
     else x # xs)"

fun shift_while :: "nat \<Rightarrow> 'e list \<Rightarrow> 'e list" where
  "shift_while m [] = []"
| "shift_while m (x # xs) = (if m \<le> length (x # xs) then shift_while m xs else x # xs)"

definition file_append_entries :: "nat \<Rightarrow> nat \<Rightarrow> ('e \<Rightarrow> bool) \<Rightarrow> 'e \<Rightarrow> 'e list \<Rightarrow> 'e list" where
  "file_append_entries max_all max_agent mine e es =
    (let es1 = (if 0 < max_agent then trim_agent mine max_agent (length (filter mine es)) es else es)
     in shift_while max_all es1 @ [e])"

definition file_append :: "file_memory_config \<Rightarrow> json option memory_entry \<Rightarrow> unit file_op" where
  "file_append cfg e f =
    (case load_entries cfg f of
       Inl err \<Rightarrow> (Inl err, None)
     | Inr es \<Rightarrow> (Inr (), Some (JsArr (file_append_entries (fm_max cfg) (fm_max_agent cfg)
         (of_agent (me_agent e)) (json_of_entry e) es))))"

text \<open>\<open>append\<close> as the caller sees it: the defensive copy and the serialisation may throw first.\<close>

definition file_memory_append ::
  "'o platform \<Rightarrow> ('o \<Rightarrow> json option res) \<Rightarrow> file_memory_config \<Rightarrow> 'o memory_entry \<Rightarrow> unit file_op" where
  "file_memory_append pf stringify cfg e f =
    (case clone_output pf (me_output e) of
       Inl err \<Rightarrow> (Inl err, None)
     | Inr out \<Rightarrow>
         (case load_entries cfg f of
            Inl err \<Rightarrow> (Inl err, None)
          | Inr _ \<Rightarrow>
              (case stringify out of
                 Inl err \<Rightarrow> (Inl err, None)
               | Inr j \<Rightarrow> file_append cfg
                   \<lparr>me_agent = me_agent e, me_task = me_task e, me_input = me_input e,
                    me_output = j, me_recorded = me_recorded e\<rparr> f)))"

definition file_list_by_agent :: "file_memory_config \<Rightarrow> string \<Rightarrow> list_options \<Rightarrow> json list file_op" where
  "file_list_by_agent cfg a opt f =
    (and_then (assert_list_options opt) (\<lambda>_.
       and_then (load_entries cfg f) (\<lambda>es. select_entries Inr (of_agent a) opt es)), None)"

definition file_count_by_agent :: "file_memory_config \<Rightarrow> string \<Rightarrow> nat file_op" where
  "file_count_by_agent cfg a f =
    (and_then (load_entries cfg f) (\<lambda>es. Inr (length (filter (of_agent a) es))), None)"

definition file_size :: "file_memory_config \<Rightarrow> nat file_op" where
  "file_size cfg f = (and_then (load_entries cfg f) (\<lambda>es. Inr (length es)), None)"

definition file_clear :: "unit file_op" where
  "file_clear f = (Inr (), Some (JsArr []))"

section \<open>The loops\<close>

lemma trim_agent_count:
  "0 < limit \<Longrightarrow> length (filter mine (trim_agent mine limit (length (filter mine xs)) xs)) =
    min (limit - 1) (length (filter mine xs))"
proof (induction xs)
  case Nil
  then show ?case by simp
next
  case (Cons x xs)
  then show ?case by (auto simp: min_def)
qed

lemma trim_agent_low: "count < limit \<Longrightarrow> trim_agent mine limit count xs = xs"
  by (cases xs) auto

lemma trim_agent_one:
  "length (filter mine xs) = limit \<Longrightarrow> 0 < limit \<Longrightarrow>
    trim_agent mine limit (length (filter mine xs)) xs = remove_first mine xs"
  by (induction xs) (auto simp: trim_agent_low)

lemma trim_agent_other:
  "(\<And>x. mine x \<Longrightarrow> \<not> q x) \<Longrightarrow> filter q (trim_agent mine limit c xs) = filter q xs"
  by (induction xs arbitrary: c) auto

lemma subseq_trim_agent: "subseq (trim_agent mine limit c xs) xs"
  by (induction xs arbitrary: c) auto

lemma shift_while_drop: "0 < m \<Longrightarrow> shift_while m xs = drop (Suc (length xs) - m) xs"
  by (induction xs) (auto simp: drop_Cons' Suc_diff_le)

lemma file_append_entries_bounded:
  assumes "\<And>x. mine x \<longleftrightarrow> agent x = agent e" and "0 < m" and "within_bounds m n agent es"
  shows "file_append_entries m n mine e es = bounded_append m n agent e es"
proof -
  have mine: "mine = (\<lambda>x. agent x = agent e)" using assms(1) by auto
  let ?c = "length (filter mine es)"
  have c: "n = 0 \<or> ?c \<le> n" using assms(3) by (auto simp: within_bounds_def mine)
  define es1 where "es1 = (if 0 < n then trim_agent mine n ?c es else es)"
  have es1: "es1 = (if 0 < n \<and> n \<le> ?c then remove_first mine es else es)"
    using c trim_agent_one [of mine es n] trim_agent_low [of ?c n mine es]
    by (auto simp: es1_def not_le)
  have "length es1 \<le> m"
    using assms(3) by (auto simp: es1 within_bounds_def length_remove_first)
  then have "shift_while m es1 = (if m \<le> length es1 then tl es1 else es1)"
    using assms(2) by (auto simp: shift_while_drop drop_Suc Suc_diff_le)
  then show ?thesis
    by (simp add: file_append_entries_def bounded_append_def Let_def flip: es1_def mine)
      (simp add: es1)
qed

text \<open>An append restores the configured bounds, whatever the file held before.\<close>

lemma file_append_restores_total: "0 < m \<Longrightarrow> length (file_append_entries m n mine e es) \<le> m"
  by (auto simp: file_append_entries_def Let_def shift_while_drop)

lemma file_append_restores_agent:
  assumes "0 < m" and "0 < n" and "mine e"
  shows "length (filter mine (file_append_entries m n mine e es)) \<le> n"
proof -
  let ?es1 = "trim_agent mine n (length (filter mine es)) es"
  have "length (filter mine (shift_while m ?es1)) \<le> length (filter mine ?es1)"
    by (simp add: shift_while_drop assms(1))
      (metis append_take_drop_id filter_append le_add2 length_append)
  also have "\<dots> \<le> n - 1" by (simp add: trim_agent_count assms(2))
  finally show ?thesis
    using assms by (simp add: file_append_entries_def Let_def)
qed

text \<open>Nothing but old entries goes, the others keep their order, and the new entry is the last one.\<close>

lemma subseq_file_append: "0 < m \<Longrightarrow> subseq (file_append_entries m n mine e es) (es @ [e])"
proof -
  assume "0 < m"
  have "subseq (drop k xs) xs" for k and xs :: "'a list" by (metis append_take_drop_id list_emb_append2 subseq_order.refl)
  then have "subseq (shift_while m xs) xs" for xs :: "'a list" using \<open>0 < m\<close> by (simp add: shift_while_drop)
  moreover have "subseq (if 0 < n then trim_agent mine n (length (filter mine es)) es else es) es"
    by (simp add: subseq_trim_agent)
  ultimately show ?thesis
    unfolding file_append_entries_def Let_def by (meson list_emb_append_mono subseq_order.order_refl subseq_order.order_trans)
qed

section \<open>The file store is an entry log\<close>

definition entry_of_json :: "json \<Rightarrow> json option memory_entry" where
  "entry_of_json j =
    (let str = (\<lambda>k. case json_field j k of Some (JsStr s) \<Rightarrow> s | _ \<Rightarrow> []) in
     \<lparr>me_agent = str ''agentId'', me_task = str ''taskId'', me_input = str ''input'',
      me_output = json_field j ''output'', me_recorded = str ''recordedAt''\<rparr>)"

lemma entry_roundtrip: "entry_of_json (json_of_entry e) = e"
  by (cases "me_output e") (auto simp: entry_of_json_def json_of_entry_def Let_def)

lemma json_of_entry_valid: "is_persisted_entry (json_of_entry e)"
  by (cases "me_output e") (simp_all add: is_persisted_entry_def json_of_entry_def str_field_def)

lemma of_agent_iff: "is_persisted_entry j \<Longrightarrow> of_agent a j \<longleftrightarrow> me_agent (entry_of_json j) = a"
  by (auto simp: is_persisted_entry_def str_field_def of_agent_def entry_of_json_def Let_def
      split: option.splits json.splits)

record file_memory =
  fms_config :: file_memory_config
  fms_file :: storage_file

definition file_contents :: "file_memory \<Rightarrow> json option memory_entry list" where
  "file_contents s = (case load_entries (fms_config s) (fms_file s) of Inl _ \<Rightarrow> [] | Inr es \<Rightarrow> map entry_of_json es)"

definition file_add :: "json option memory_entry \<Rightarrow> file_memory \<Rightarrow> file_memory" where
  "file_add e s = s\<lparr>fms_file := snd (run_op (file_append (fms_config s) e) (fms_file s))\<rparr>"

definition file_memory_ok :: "file_memory \<Rightarrow> bool" where
  "file_memory_ok s \<longleftrightarrow> 0 < fm_max (fms_config s) \<and> is_ok (load_entries (fms_config s) (fms_file s)) \<and>
    within_bounds (fm_max (fms_config s)) (fm_max_agent (fms_config s)) me_agent (file_contents s)"

lemma load_entries_Inr:
  "load_entries cfg f = Inr es \<Longrightarrow> list_all is_persisted_entry es"
  by (auto simp: load_entries_def load_array_Inr)

lemma list_all_trim_agent: "list_all p xs \<Longrightarrow> list_all p (trim_agent mine limit c xs)"
  by (induction xs arbitrary: c) auto

lemma list_all_shift_while: "list_all p xs \<Longrightarrow> list_all p (shift_while m xs)"
  by (induction xs) auto

lemma file_append_entries_valid:
  "list_all is_persisted_entry es \<Longrightarrow>
    list_all is_persisted_entry (file_append_entries m n mine (json_of_entry e) es)"
  by (simp add: file_append_entries_def Let_def json_of_entry_valid list_all_trim_agent
      list_all_shift_while)

lemma map_trim_agent:
  "(\<And>x. x \<in> set xs \<Longrightarrow> q (h x) \<longleftrightarrow> p x) \<Longrightarrow>
    map h (trim_agent p limit c xs) = trim_agent q limit c (map h xs)"
  by (induction xs arbitrary: c) auto

lemma map_shift_while: "map h (shift_while m xs) = shift_while m (map h xs)"
  by (induction xs) auto

lemma map_file_append_entries:
  assumes "list_all is_persisted_entry es"
  shows "map entry_of_json (file_append_entries m n (of_agent (me_agent e)) (json_of_entry e) es) =
    file_append_entries m n (\<lambda>x. me_agent x = me_agent e) e (map entry_of_json es)"
proof -
  have mine: "\<And>x. x \<in> set es \<Longrightarrow> me_agent (entry_of_json x) = me_agent e \<longleftrightarrow> of_agent (me_agent e) x"
    using assms by (simp add: list_all_iff of_agent_iff)
  then have "length (filter (\<lambda>x. me_agent x = me_agent e) (map entry_of_json es)) =
      length (filter (of_agent (me_agent e)) es)"
    by (induction es) auto
  with mine show ?thesis
    by (simp add: file_append_entries_def Let_def entry_roundtrip map_shift_while
        map_trim_agent [where q = "\<lambda>x. me_agent x = me_agent e"])
qed

lemma file_add_config [simp]: "fms_config (file_add e s) = fms_config s"
  by (simp add: file_add_def)

lemma file_add_loaded:
  assumes "load_entries (fms_config s) (fms_file s) = Inr es"
  shows "load_entries (fms_config s) (fms_file (file_add e s)) = Inr (file_append_entries (fm_max (fms_config s))
    (fm_max_agent (fms_config s)) (of_agent (me_agent e)) (json_of_entry e) es)"
  using assms file_append_entries_valid [OF load_entries_Inr [OF assms]]
  by (simp add: file_add_def run_op_def file_append_def)
    (simp add: load_entries_def load_array_document)

text \<open>One append to any file that can be read, also one that was written under larger bounds.\<close>

lemma file_add_any:
  assumes "is_ok (load_entries (fms_config s) (fms_file s))"
  shows "file_contents (file_add e s) = file_append_entries (fm_max (fms_config s)) (fm_max_agent (fms_config s))
    (\<lambda>x. me_agent x = me_agent e) e (file_contents s)"
proof -
  from assms obtain es where es: "load_entries (fms_config s) (fms_file s) = Inr es" by (auto simp: is_ok_iff)
  then show ?thesis
    by (simp add: file_contents_def file_add_loaded [OF es] map_file_append_entries [OF load_entries_Inr [OF es]])
qed

lemma file_add_restores:
  assumes "is_ok (load_entries (fms_config s) (fms_file s))" and "0 < fm_max (fms_config s)"
  shows "length (file_contents (file_add e s)) \<le> fm_max (fms_config s)"
    and "0 < fm_max_agent (fms_config s) \<Longrightarrow>
      length (filter (\<lambda>x. me_agent x = me_agent e) (file_contents (file_add e s))) \<le> fm_max_agent (fms_config s)"
    and "subseq (file_contents (file_add e s)) (file_contents s @ [e])" and "last (file_contents (file_add e s)) = e"
  unfolding file_add_any [OF assms(1)]
  by (simp_all add: file_append_restores_total file_append_restores_agent subseq_file_append assms(2))
    (simp add: file_append_entries_def Let_def)

lemma file_contents_add:
  assumes "file_memory_ok s"
  shows "file_contents (file_add e s) = bounded_append (fm_max (fms_config s))
    (fm_max_agent (fms_config s)) me_agent e (file_contents s)"
proof -
  from assms obtain es where es: "load_entries (fms_config s) (fms_file s) = Inr es"
    by (auto simp: file_memory_ok_def is_ok_iff)
  then have c: "file_contents s = map entry_of_json es" by (simp add: file_contents_def)
  show ?thesis
    using assms
    by (simp add: file_contents_def [of "file_add e s"] file_add_loaded [OF es] c
        map_file_append_entries [OF load_entries_Inr [OF es]] file_memory_ok_def
        file_append_entries_bounded [where agent = me_agent])
qed

interpretation file_store: entry_log file_contents me_agent "\<lambda>s. fm_max (fms_config s)"
  "\<lambda>s. fm_max_agent (fms_config s)" file_memory_ok file_add
proof
  fix s e
  assume ok: "file_memory_ok s"
  then show "0 < fm_max (fms_config s) \<and> within_bounds (fm_max (fms_config s))
      (fm_max_agent (fms_config s)) me_agent (file_contents s)"
    by (simp add: file_memory_ok_def)
  show "file_contents (file_add e s) = bounded_append (fm_max (fms_config s))
      (fm_max_agent (fms_config s)) me_agent e (file_contents s)"
    by (rule file_contents_add [OF ok])
  from ok obtain es where "load_entries (fms_config s) (fms_file s) = Inr es"
    by (auto simp: file_memory_ok_def is_ok_iff)
  with ok show "file_memory_ok (file_add e s)"
    using file_contents_add [OF ok, of e]
    by (simp add: file_memory_ok_def file_add_loaded within_bounds_append)
qed simp_all

end
