(* ===== verification/Js_Heap.thy ===== *)
theory Js_Heap
  imports Js_Values "HOL-Library.List_Lexorder"
begin

text \<open>
  JavaScript objects as the runtime's inspection code sees them: own properties with their
  descriptors in \<open>Reflect.ownKeys\<close> order, the prototype up to the distinctions the code makes,
  whether \<open>Array.isArray\<close> and \<open>util.types.isProxy\<close> hold, and whether \<open>Object.freeze\<close> was applied.
  The \<open>length\<close> property of an array is the field \<open>ob_length\<close>, not an entry of \<open>ob_props\<close>.
  Then the parts of \<open>JSON.stringify\<close> and \<open>Array.prototype.sort\<close> on strings that the canonical
  encoders use.
\<close>

section \<open>Objects\<close>

datatype pkey = KStr string | KSym nat

datatype descriptor = Data bool jsval | Accessor bool

datatype proto = ObjectPrototype | ArrayPrototype | NullPrototype | OtherPrototype

record js_object =
  ob_array :: bool
  ob_proto :: proto
  ob_proxy :: bool
  ob_length :: nat
  ob_props :: "(pkey \<times> descriptor) list"
  ob_frozen :: bool

type_synonym heap = "(loc, js_object) table"

definition own_property :: "js_object \<Rightarrow> string \<Rightarrow> descriptor option" where
  "own_property ob k = map_of (ob_props ob) (KStr k)"

fun key_string :: "pkey \<Rightarrow> string option" where
  "key_string (KStr s) = Some s"
| "key_string (KSym _) = None"

definition has_symbol_key :: "js_object \<Rightarrow> bool" where
  "has_symbol_key ob \<longleftrightarrow> list_ex (\<lambda>(k, _). key_string k = None) (ob_props ob)"

definition string_props :: "js_object \<Rightarrow> (string \<times> descriptor) list" where
  "string_props ob = List.map_filter (\<lambda>(k, d). map_option (\<lambda>s. (s, d)) (key_string k)) (ob_props ob)"

text \<open>
  \<open>Number(key)\<close> is a non-negative integer that prints as \<open>key\<close>: exactly the canonical decimal
  representations of natural numbers.
\<close>

definition index_key :: "string \<Rightarrow> nat option" where
  "index_key k =
    (if k \<noteq> [] \<and> list_all is_digit k \<and> nat_str (digits_val k) = k then Some (digits_val k) else None)"

lemma index_key_nat_str [simp]: "index_key (nat_str i) = Some i"
  by (simp add: index_key_def nat_str_val nat_str_digits list_all_iff)

lemma index_key_Some: "index_key k = Some i \<Longrightarrow> k = nat_str i"
  by (auto simp: index_key_def split: if_splits)

section \<open>String encoding and order\<close>

definition hex_digit :: "nat \<Rightarrow> char" where
  "hex_digit d = (if d < 10 then char_of (48 + d) else char_of (87 + d))"

definition json_escape :: "char \<Rightarrow> string" where
  "json_escape c =
    (let n = (of_char c :: nat) in
     if n = 34 then [CHR 0x5C, CHR 0x22]
     else if n = 92 then [CHR 0x5C, CHR 0x5C]
     else if n = 8 then [CHR 0x5C, CHR ''b'']
     else if n = 12 then [CHR 0x5C, CHR ''f'']
     else if n = 10 then [CHR 0x5C, CHR ''n'']
     else if n = 13 then [CHR 0x5C, CHR ''r'']
     else if n = 9 then [CHR 0x5C, CHR ''t'']
     else if n < 32 then [CHR 0x5C, CHR ''u'', CHR ''0'', CHR ''0'', hex_digit (n div 16), hex_digit (n mod 16)]
     else [c])"

definition json_string :: "string \<Rightarrow> string" where
  "json_string s = [CHR 0x22] @ concat (map json_escape s) @ [CHR 0x22]"

text \<open>
  \<open>Array.prototype.sort\<close> compares UTF-16 code units. On UTF-8 bytes that is the byte order, except
  that the lead bytes of U+E000 to U+FFFF come after those of the supplementary planes.
\<close>

definition char_rank :: "char \<Rightarrow> nat" where
  "char_rank c =
    (if of_char c = (0xEE :: nat) \<or> of_char c = (0xEF :: nat) then of_char c + 256 else of_char c)"

definition utf16_key :: "string \<Rightarrow> nat list" where
  "utf16_key s = map char_rank s"

definition sort_strings :: "string list \<Rightarrow> string list" where
  "sort_strings ss = sort_key utf16_key ss"

definition join :: "string \<Rightarrow> string list \<Rightarrow> string" where
  "join sep ss = concat (case ss of [] \<Rightarrow> [] | x # xs \<Rightarrow> x # map (\<lambda>y. sep @ y) xs)"

lemma char_rank_inj: "inj char_rank"
proof (rule injI)
  fix x y :: char
  assume "char_rank x = char_rank y"
  have "of_char z \<noteq> (n::nat)" if "256 \<le> n" for z :: char and n
    using that nat_of_char_less_256 [of z] by linarith
  note far = this
  have "(of_char x :: nat) = of_char y"
    using \<open>char_rank x = char_rank y\<close> far [of "of_char x + 256" y] far [of "of_char y + 256" x]
    by (simp add: char_rank_def split: if_splits)
  then show "x = y" by simp
qed

lemma utf16_key_inj: "inj utf16_key"
  unfolding utf16_key_def by (rule injI) (metis char_rank_inj inj_map_eq_map)

lemma join_simps [simp]:
  "join sep [] = []" "join sep [x] = x" "join sep (x # y # ys) = x @ sep @ join sep (y # ys)"
  by (simp_all add: join_def)

text \<open>Sorting by an injective key puts lists without repetitions into one order.\<close>

lemma sorted_key_unique:
  assumes "inj f" and "sorted (map f xs)" and "sorted (map f ys)" and "distinct xs" and "distinct ys"
    and "set xs = set ys"
  shows "xs = ys"
proof -
  have "map f xs = map f ys"
    by (rule sorted_distinct_set_unique)
      (use assms in \<open>auto simp: distinct_map intro: inj_on_subset\<close>)
  then show ?thesis using assms(1) by (simp add: inj_map_eq_map)
qed

lemma sort_strings_unique:
  "distinct xs \<Longrightarrow> distinct ys \<Longrightarrow> set xs = set ys \<Longrightarrow> sort_strings xs = sort_strings ys"
  unfolding sort_strings_def
  by (rule sorted_key_unique [OF utf16_key_inj]) auto

text \<open>The encoding of a string can be read back, and its end can be found.\<close>

definition unescape :: "char \<Rightarrow> char option" where
  "unescape c =
    (if c = CHR 0x22 then Some (CHR 0x22) else if c = CHR 0x5C then Some (CHR 0x5C)
     else if c = CHR ''b'' then Some (CHR 0x08) else if c = CHR ''f'' then Some (CHR 0x0C)
     else if c = CHR ''n'' then Some (CHR 0x0A) else if c = CHR ''r'' then Some (CHR 0x0D)
     else if c = CHR ''t'' then Some (CHR 0x09) else None)"

definition hex_val :: "char \<Rightarrow> nat" where
  "hex_val c = (let n = (of_char c :: nat) in if n < 58 then n - 48 else n - 87)"

fun read_string_body :: "string \<Rightarrow> (string \<times> string) option" where
  "read_string_body [] = None"
| "read_string_body (c # cs) =
    (if c = CHR 0x22 then Some ([], cs)
     else if c = CHR 0x5C then
       (case cs of
          [] \<Rightarrow> None
        | d # ds \<Rightarrow>
            (if d = CHR ''u'' then
               (case ds of
                  z1 # z2 # h # l # rest \<Rightarrow>
                    (case read_string_body rest of
                       None \<Rightarrow> None
                     | Some (s, r) \<Rightarrow> Some (char_of (16 * hex_val h + hex_val l) # s, r))
                | _ \<Rightarrow> None)
             else (case unescape d of
                 None \<Rightarrow> None
               | Some n \<Rightarrow> (case read_string_body ds of
                   None \<Rightarrow> None | Some (s, r) \<Rightarrow> Some (n # s, r)))))
     else (case read_string_body cs of None \<Rightarrow> None | Some (s, r) \<Rightarrow> Some (c # s, r)))"

lemma char_of_of_char_nat: "char_of (of_char c :: nat) = (c :: char)"
  by simp

lemma hex_val_digit: "d < 16 \<Longrightarrow> hex_val (hex_digit d) = d"
  by (simp add: hex_val_def hex_digit_def)

lemma of_char_nat_literals:
  "of_char c = (34::nat) \<longleftrightarrow> c = CHR 0x22" "of_char c = (92::nat) \<longleftrightarrow> c = CHR 0x5C"
  "of_char c = (8::nat) \<longleftrightarrow> c = CHR 0x08" "of_char c = (12::nat) \<longleftrightarrow> c = CHR 0x0C"
  "of_char c = (10::nat) \<longleftrightarrow> c = CHR 0x0A" "of_char c = (13::nat) \<longleftrightarrow> c = CHR 0x0D"
  "of_char c = (9::nat) \<longleftrightarrow> c = CHR 0x09"
  by (simp_all flip: of_char_eq_iff [where 'a = nat])

lemma read_escape_control:
  assumes "(of_char c :: nat) < 32"
  shows "char_of (16 * hex_val (hex_digit (of_char c div 16)) + hex_val (hex_digit (of_char c mod 16))) = c"
proof -
  have "16 * ((of_char c :: nat) div 16) + of_char c mod 16 = of_char c" by simp
  moreover have "(of_char c :: nat) div 16 < 16" using assms by simp
  ultimately show ?thesis by (simp add: hex_val_digit)
qed

lemma read_escape:
  "read_string_body (json_escape c @ rest) =
    (case read_string_body rest of None \<Rightarrow> None | Some (s, r) \<Rightarrow> Some (c # s, r))"
proof -
  have "of_char c \<in> {34, 92, 8, 12, 10, 13, 9 :: nat} \<or>
      (of_char c :: nat) < 32 \<and> of_char c \<notin> {8, 9, 10, 12, 13 :: nat} \<or>
      32 \<le> (of_char c :: nat) \<and> of_char c \<notin> {34, 92 :: nat}"
    by auto
  then consider (named) "of_char c \<in> {34, 92, 8, 12, 10, 13, 9 :: nat}"
    | (ctl) "(of_char c :: nat) < 32" "of_char c \<notin> {8, 9, 10, 12, 13 :: nat}"
    | (plain) "32 \<le> (of_char c :: nat)" "of_char c \<notin> {34, 92 :: nat}"
    by blast
  then show ?thesis
  proof cases
    case named
    then have "c \<in> {CHR 0x22, CHR 0x5C, CHR 0x08, CHR 0x0C, CHR 0x0A, CHR 0x0D, CHR 0x09}"
      by (simp add: of_char_nat_literals)
    then show ?thesis
      by (elim insertE emptyE)
        (simp_all add: json_escape_def unescape_def Let_def split: option.split)
  next
    case ctl
    then show ?thesis
      using read_escape_control [OF ctl(1)] by (simp add: json_escape_def Let_def split: option.split)
  next
    case plain
    then have "c \<noteq> CHR 0x22" "c \<noteq> CHR 0x5C" by auto
    with plain show ?thesis by (simp add: json_escape_def Let_def split: option.split)
  qed
qed

lemma read_json_string: "read_string_body (concat (map json_escape s) @ CHR 0x22 # rest) = Some (s, rest)"
  by (induction s) (simp_all add: read_escape)

lemma json_string_prefix_free:
  "json_string s @ r = json_string s' @ r' \<longleftrightarrow> s = s' \<and> r = r'"
proof
  assume "json_string s @ r = json_string s' @ r'"
  then have "concat (map json_escape s) @ CHR 0x22 # r = concat (map json_escape s') @ CHR 0x22 # r'"
    by (simp add: json_string_def)
  then show "s = s' \<and> r = r'"
    by (metis read_json_string option.inject prod.inject)
qed simp

end
