(* ===== verification/Payload_Digest.thy ===== *)
theory Payload_Digest
  imports Js_Heap
begin

text \<open>
  The canonical encoding that binds a human approval to a tool payload
  (\<open>src/policies/tool-approval-policy.ts\<close>: \<open>canonicalizePayload\<close>, \<open>digestToolApprovalPayload\<close>), and
  the proxy rejection and the freezing the hardened policy adds
  (\<open>src/policies/hardened-tool-approval-policy.ts\<close>).

  The three walks recurse along object properties and thread the set of visited objects, which only
  grows. Their first argument is the depth of the call stack left; running out of it is the
  \<open>RangeError\<close> of the language. \<open>digest_within\<close> is the digest with any stack; \<open>digest_legacy\<close> is the one
  with \<open>payload_depth\<close> frames left, which is shown to be enough for every heap, and with less of it the
  digest is the same or the \<open>RangeError\<close>. The stores and policies below take \<open>digest_legacy\<close>: where the
  stack of the engine is smaller than the payload is deep, they deny or throw. A proxy answers this walk as
  an ordinary object; the walk of the hardened policy rejects it first.
  SHA-256 is the parameter \<open>H\<close>, from bytes to the hexadecimal digest.
\<close>

section \<open>Walking a payload\<close>

definition stack_overflow :: js_error where
  "stack_overflow = RangeErr ''Maximum call stack size exceeded''"

definition plain_object :: js_object where
  "plain_object = \<lparr>ob_array = False, ob_proto = ObjectPrototype, ob_proxy = False, ob_length = 0,
    ob_props = [], ob_frozen = False\<rparr>"

text \<open>A location the table does not list holds an untouched empty object.\<close>

definition heap_get :: "heap \<Rightarrow> loc \<Rightarrow> js_object" where
  "heap_get h l = (case map_of h l of Some ob \<Rightarrow> ob | None \<Rightarrow> plain_object)"

definition payload_depth :: "heap \<Rightarrow> nat" where
  "payload_depth h = Suc (length h)"

text \<open>The two loops of the walks: one threads a state, the other also collects results.\<close>

fun each :: "('a \<Rightarrow> 's \<Rightarrow> 's res) \<Rightarrow> 'a list \<Rightarrow> 's \<Rightarrow> 's res" where
  "each f [] s = Inr s"
| "each f (x # xs) s = and_then (f x s) (each f xs)"

fun collect :: "('a \<Rightarrow> 's \<Rightarrow> ('b \<times> 's) res) \<Rightarrow> 'a list \<Rightarrow> 's \<Rightarrow> ('b list \<times> 's) res" where
  "collect f [] s = Inr ([], s)"
| "collect f (x # xs) s =
    and_then (f x s) (\<lambda>(y, s'). and_then (collect f xs s') (\<lambda>(ys, s''). Inr (y # ys, s'')))"

section \<open>The canonical encoding\<close>

definition unsupported_type :: "string \<Rightarrow> js_error" where
  "unsupported_type t =
    TypeErr (''Approval payload contains unsupported value type '' @ [CHR 0x22] @ t @ [CHR 0x22] @ ''.'')"

fun canonical_leaf :: "jsval \<Rightarrow> string res" where
  "canonical_leaf JNull = Inr ''null''"
| "canonical_leaf (JStr s) = Inr (''s:'' @ json_string s)"
| "canonical_leaf (JBool b) = Inr (if b then ''b:1'' else ''b:0'')"
| "canonical_leaf (JNum v) =
    (if num_is_finite v then Inr (''n:'' @ (if v = NegZero then ''-0'' else num_str v))
     else Inl (TypeErr ''Approval payload numbers must be finite.''))"
| "canonical_leaf (JBigInt i) = Inr (''i:'' @ int_str i)"
| "canonical_leaf JUndefined = Inr ''u:''"
| "canonical_leaf (JSymbol _) = Inl (unsupported_type ''symbol'')"
| "canonical_leaf (JFunction _) = Inl (unsupported_type ''function'')"
| "canonical_leaf (JRef _) = Inl (unsupported_type ''object'')"

definition check_array_key :: "js_object \<Rightarrow> pkey \<times> descriptor \<Rightarrow> unit \<Rightarrow> unit res" where
  "check_array_key ob kd u =
    (case fst kd of
       KSym _ \<Rightarrow> Inl (TypeErr ''Approval payload arrays must not contain symbol keys.'')
     | KStr k \<Rightarrow>
         (case index_key k of
            None \<Rightarrow> Inl (TypeErr ''Approval payload arrays must not contain non-index properties.'')
          | Some i \<Rightarrow>
              if ob_length ob \<le> i
              then Inl (TypeErr ''Approval payload arrays must not contain non-index properties.'')
              else (case snd kd of
                  Data True _ \<Rightarrow> Inr ()
                | _ \<Rightarrow> Inl (TypeErr
                    ''Approval payload arrays must contain enumerable data properties only.''))))"

definition array_item :: "js_object \<Rightarrow> nat \<Rightarrow> jsval res" where
  "array_item ob i =
    (case own_property ob (nat_str i) of
       None \<Rightarrow> Inl (TypeErr ''Approval payload arrays must not contain holes.'')
     | Some (Data _ v) \<Rightarrow> Inr v
     | Some (Accessor _) \<Rightarrow> Inl (TypeErr ''Approval payload arrays must contain data values only.''))"

definition object_field :: "js_object \<Rightarrow> string \<Rightarrow> jsval res" where
  "object_field ob k =
    (case own_property ob k of
       Some (Data True v) \<Rightarrow> Inr v
     | _ \<Rightarrow> Inl (TypeErr ''Approval payload objects must contain enumerable data properties only.''))"

definition sorted_keys :: "js_object \<Rightarrow> string list" where
  "sorted_keys ob = sort_strings (map fst (string_props ob))"

definition array_element ::
  "(jsval \<Rightarrow> loc list \<Rightarrow> (string \<times> loc list) res) \<Rightarrow> js_object \<Rightarrow> nat \<Rightarrow> loc list
    \<Rightarrow> (string \<times> loc list) res" where
  "array_element encode ob i visited = and_then (array_item ob i) (\<lambda>w. encode w visited)"

definition object_entry ::
  "(jsval \<Rightarrow> loc list \<Rightarrow> (string \<times> loc list) res) \<Rightarrow> js_object \<Rightarrow> string \<Rightarrow> loc list
    \<Rightarrow> (string \<times> loc list) res" where
  "object_entry encode ob k visited =
    and_then (object_field ob k) (\<lambda>w.
    and_then (encode w visited) (\<lambda>(s, visited').
    Inr (json_string k @ '':'' @ s, visited')))"

primrec canonicalize :: "nat \<Rightarrow> heap \<Rightarrow> jsval \<Rightarrow> loc list \<Rightarrow> (string \<times> loc list) res" where
  "canonicalize 0 h v visited = Inl stack_overflow"
| "canonicalize (Suc n) h v visited =
    (case v of
       JRef l \<Rightarrow>
         let ob = heap_get h l in
         if l \<in> set visited
         then Inl (TypeErr ''Approval payload must not contain cycles or shared references.'')
         else if ob_array ob then
           and_then (each (check_array_key ob) (ob_props ob) ()) (\<lambda>_.
           and_then (collect (array_element (canonicalize n h) ob) [0..<ob_length ob] (l # visited)) (\<lambda>(parts, vis).
           Inr (''a:['' @ join '','' parts @ '']'', vis)))
         else if ob_proto ob \<noteq> ObjectPrototype \<and> ob_proto ob \<noteq> NullPrototype
         then Inl (TypeErr ''Approval payload objects must be plain objects.'')
         else if has_symbol_key ob
         then Inl (TypeErr ''Approval payload objects must not contain symbol keys.'')
         else
           and_then (collect (object_entry (canonicalize n h) ob) (sorted_keys ob) (l # visited)) (\<lambda>(parts, vis).
           Inr (''o:{'' @ join '','' parts @ ''}'', vis))
     | _ \<Rightarrow> and_then (canonical_leaf v) (\<lambda>s. Inr (s, visited)))"

definition canonicalize_within :: "nat \<Rightarrow> heap \<Rightarrow> jsval \<Rightarrow> string res" where
  "canonicalize_within n h v = and_then (canonicalize n h v []) (\<lambda>(s, _). Inr s)"

definition canonicalize_payload :: "heap \<Rightarrow> jsval \<Rightarrow> string res" where
  "canonicalize_payload h v = canonicalize_within (payload_depth h) h v"

definition approval_preimage :: "string \<Rightarrow> string" where
  "approval_preimage canonical = ''agentlily-tool-approval-v1'' @ [CHR 0x00] @ canonical"

definition digest_within :: "nat \<Rightarrow> (string \<Rightarrow> string) \<Rightarrow> heap \<Rightarrow> jsval \<Rightarrow> string res" where
  "digest_within n H h v =
    and_then (canonicalize_within n h v) (\<lambda>s. Inr (H (approval_preimage s)))"

definition digest_legacy :: "(string \<Rightarrow> string) \<Rightarrow> heap \<Rightarrow> jsval \<Rightarrow> string res" where
  "digest_legacy H h v = digest_within (payload_depth h) H h v"

text \<open>What is hashed for a payload, if anything is.\<close>

definition hashed_payload :: "heap \<Rightarrow> jsval \<Rightarrow> string set" where
  "hashed_payload h v = {approval_preimage s | s. canonicalize_payload h v = Inr s}"

section \<open>Proxy rejection and freezing\<close>

definition proxy_error :: js_error where
  "proxy_error = TypeErr ''Approval payload must not contain Proxy objects.''"

text \<open>The values of the data properties, in key order; an accessor is passed over or an error.\<close>

definition data_values :: "js_object \<Rightarrow> jsval list" where
  "data_values ob = List.map_filter (\<lambda>(_, d). case d of Data _ v \<Rightarrow> Some v | Accessor _ \<Rightarrow> None) (ob_props ob)"

primrec reject_proxies :: "nat \<Rightarrow> heap \<Rightarrow> jsval \<Rightarrow> loc list \<Rightarrow> loc list res" where
  "reject_proxies 0 h v visited = Inl stack_overflow"
| "reject_proxies (Suc n) h v visited =
    (case v of
       JRef l \<Rightarrow>
         let ob = heap_get h l in
         if ob_proxy ob then Inl proxy_error
         else if l \<in> set visited then Inr visited
         else each (reject_proxies n h) (data_values ob) (l # visited)
     | _ \<Rightarrow> Inr visited)"

definition digest_payload :: "(string \<Rightarrow> string) \<Rightarrow> heap \<Rightarrow> jsval \<Rightarrow> string res" where
  "digest_payload H h v =
    and_then (reject_proxies (payload_depth h) h v []) (\<lambda>_. digest_legacy H h v)"

definition freeze_object :: "loc \<Rightarrow> heap \<Rightarrow> heap" where
  "freeze_object l h = AList.update l ((heap_get h l)\<lparr>ob_frozen := True\<rparr>) h"

definition data_value :: "pkey \<times> descriptor \<Rightarrow> jsval res" where
  "data_value kd =
    (case snd kd of
       Data _ v \<Rightarrow> Inr v
     | Accessor _ \<Rightarrow> Inl (TypeErr ''Approval payload must contain data properties only before execution.''))"

text \<open>An error keeps the objects frozen so far, so the state is returned with it.\<close>

fun each_keeping :: "('a \<Rightarrow> 's \<Rightarrow> unit res \<times> 's) \<Rightarrow> 'a list \<Rightarrow> 's \<Rightarrow> unit res \<times> 's" where
  "each_keeping f [] s = (Inr (), s)"
| "each_keeping f (x # xs) s =
    (case f x s of
       (Inl e, s') \<Rightarrow> (Inl e, s')
     | (Inr _, s') \<Rightarrow> each_keeping f xs s')"

primrec freeze_payload :: "nat \<Rightarrow> jsval \<Rightarrow> heap \<times> loc list \<Rightarrow> unit res \<times> heap \<times> loc list" where
  "freeze_payload 0 v s = (Inl stack_overflow, s)"
| "freeze_payload (Suc n) v s =
    (case v of
       JRef l \<Rightarrow>
         let ob = heap_get (fst s) l in
         if ob_proxy ob then (Inl proxy_error, s)
         else if l \<in> set (snd s)
         then (Inl (TypeErr ''Approval payload must not contain cycles or shared references.''), s)
         else
           (case each_keeping
               (\<lambda>kd t. case data_value kd of Inl e \<Rightarrow> (Inl e, t) | Inr w \<Rightarrow> freeze_payload n w t)
               (ob_props ob) (fst s, l # snd s) of
              (Inl e, t) \<Rightarrow> (Inl e, t)
            | (Inr _, t) \<Rightarrow> (Inr (), freeze_object l (fst t), snd t))
     | _ \<Rightarrow> (Inr (), s))"

definition freeze_approved_payload :: "heap \<Rightarrow> jsval \<Rightarrow> unit res \<times> heap" where
  "freeze_approved_payload h v =
    (case freeze_payload (payload_depth h) v (h, []) of (r, h', _) \<Rightarrow> (r, h'))"

section \<open>The walks only look at the data of the objects they visit\<close>

definition same_data :: "heap \<Rightarrow> heap \<Rightarrow> loc \<Rightarrow> bool" where
  "same_data h h' l \<longleftrightarrow> (\<exists>b. heap_get h' l = (heap_get h l)\<lparr>ob_frozen := b\<rparr>)"

lemma frozen_flag_irrelevant [simp]:
  "check_array_key (ob\<lparr>ob_frozen := b\<rparr>) = check_array_key ob"
  "array_element f (ob\<lparr>ob_frozen := b\<rparr>) = array_element f ob"
  "object_entry f (ob\<lparr>ob_frozen := b\<rparr>) = object_entry f ob"
  "array_item (ob\<lparr>ob_frozen := b\<rparr>) = array_item ob"
  "object_field (ob\<lparr>ob_frozen := b\<rparr>) = object_field ob"
  "sorted_keys (ob\<lparr>ob_frozen := b\<rparr>) = sorted_keys ob"
  "has_symbol_key (ob\<lparr>ob_frozen := b\<rparr>) = has_symbol_key ob"
  "data_values (ob\<lparr>ob_frozen := b\<rparr>) = data_values ob"
  by (simp_all add: check_array_key_def [abs_def] array_element_def [abs_def] array_item_def [abs_def]
    object_entry_def [abs_def] object_field_def [abs_def] own_property_def sorted_keys_def
    string_props_def has_symbol_key_def data_values_def cong: pkey.case_cong option.case_cong)

lemma collect_mono:
  assumes "collect f xs s = Inr (ys, t)"
    and "\<And>x s y t. f x s = Inr (y, t) \<Longrightarrow> set s \<subseteq> set t"
  shows "set s \<subseteq> set t"
  using assms(1)
proof (induction xs arbitrary: s ys)
  case (Cons x xs)
  then obtain y s' ys' where "f x s = Inr (y, s')" "collect f xs s' = Inr (ys', t)"
    by (auto simp: and_then_Inr)
  with Cons.IH assms(2) show ?case by blast
qed simp

lemma collect_frame:
  assumes "collect f xs s = Inr (ys, t)"
    and mono: "\<And>x s y t. f x s = Inr (y, t) \<Longrightarrow> set s \<subseteq> set t"
    and step: "\<And>x s y t. f x s = Inr (y, t) \<Longrightarrow> set t \<subseteq> Z \<Longrightarrow> g x s = Inr (y, t)"
    and "set t \<subseteq> Z"
  shows "collect g xs s = Inr (ys, t)"
  using assms(1)
proof (induction xs arbitrary: s ys)
  case (Cons x xs)
  then obtain y s' ys' where x: "f x s = Inr (y, s')" and xs: "collect f xs s' = Inr (ys', t)"
    and ys: "ys = y # ys'"
    by (auto simp: and_then_Inr)
  have "set s' \<subseteq> set t" by (rule collect_mono [OF xs]) (rule mono)
  with assms(4) have "set s' \<subseteq> Z" by blast
  with x have "g x s = Inr (y, s')" by (rule step)
  with Cons.IH [OF xs] ys show ?case by simp
qed simp

text \<open>The ways an encoding can succeed.\<close>

lemma canonicalize_cases [consumes 1, case_names leaf arr obj]:
  assumes "canonicalize n h v vis = Inr (s, t)"
  obtains (leaf) "canonical_leaf v = Inr s" "t = vis" "0 < n"
  | (arr) m l parts where "n = Suc m" "v = JRef l" "l \<notin> set vis" "ob_array (heap_get h l)"
      "each (check_array_key (heap_get h l)) (ob_props (heap_get h l)) () = Inr ()"
      "collect (array_element (canonicalize m h) (heap_get h l)) [0..<ob_length (heap_get h l)] (l # vis)
        = Inr (parts, t)"
      "s = ''a:['' @ join '','' parts @ '']''"
  | (obj) m l parts where "n = Suc m" "v = JRef l" "l \<notin> set vis" "\<not> ob_array (heap_get h l)"
      "ob_proto (heap_get h l) = ObjectPrototype \<or> ob_proto (heap_get h l) = NullPrototype"
      "\<not> has_symbol_key (heap_get h l)"
      "collect (object_entry (canonicalize m h) (heap_get h l)) (sorted_keys (heap_get h l)) (l # vis)
        = Inr (parts, t)"
      "s = ''o:{'' @ join '','' parts @ ''}''"
  using assms
  by (cases n; cases v) (auto simp: and_then_Inr Let_def split: if_splits)

lemma array_element_Inr:
  "array_element f ob i vis = Inr (s, t) \<longleftrightarrow> (\<exists>v. array_item ob i = Inr v \<and> f v vis = Inr (s, t))"
  by (simp add: array_element_def and_then_Inr)

lemma object_entry_Inr:
  "object_entry f ob k vis = Inr (s, t) \<longleftrightarrow>
    (\<exists>v s'. object_field ob k = Inr v \<and> f v vis = Inr (s', t) \<and> s = json_string k @ '':'' @ s')"
  by (auto simp: object_entry_def and_then_Inr)

lemma canonicalize_leaf: "canonical_leaf v = Inr s \<Longrightarrow> canonicalize (Suc n) h v vis = Inr (s, vis)"
  by (cases v) auto

lemma canonicalize_mono: "canonicalize n h v vis = Inr (s, t) \<Longrightarrow> set vis \<subseteq> set t"
proof (induction n arbitrary: v vis s t)
  case (Suc n)
  have items: "set vis \<subseteq> set t"
    if "collect (array_element (canonicalize n h) ob) xs vis = Inr (ys, t)
      \<or> collect (object_entry (canonicalize n h) ob) ks vis = Inr (ys, t)" for ob xs ks vis ys t
    using that
    by (elim disjE)
      (erule collect_mono, (auto simp: array_element_Inr object_entry_Inr dest: Suc.IH) [1])+
  from Suc.prems show ?case
    by (cases rule: canonicalize_cases) (use items in fastforce)+
qed simp

lemma canonicalize_frame:
  assumes "canonicalize n h v vis = Inr (s, t)" and "\<forall>l \<in> set t. same_data h h' l" and "n \<le> n'"
  shows "canonicalize n' h' v vis = Inr (s, t)"
  using assms
proof (induction n arbitrary: v vis s t n')
  case (Suc n)
  let ?Z = "{l. same_data h h' l}"
  obtain m' where n': "n' = Suc m'" "n \<le> m'" using Suc.prems(3) by (cases n') auto
  have step: "canonicalize n h w vis' = Inr (s', t') \<Longrightarrow> set t' \<subseteq> ?Z \<Longrightarrow>
      canonicalize m' h' w vis' = Inr (s', t')" for w vis' s' t'
    using Suc.IH n'(2) by blast
  have same: "l \<notin> set vis \<Longrightarrow> set (l # vis) \<subseteq> set t \<Longrightarrow> \<exists>b. heap_get h' l = (heap_get h l)\<lparr>ob_frozen := b\<rparr>" for l
    using Suc.prems(2) by (auto simp: same_data_def)
  from Suc.prems(1) show ?case
  proof (cases rule: canonicalize_cases)
    case leaf
    then show ?thesis by (simp add: n' canonicalize_leaf del: canonicalize.simps)
  next
    case (arr m l parts)
    have inside: "set (l # vis) \<subseteq> set t"
      by (rule collect_mono [OF arr(6)]) (auto simp: array_element_Inr dest: canonicalize_mono)
    obtain b where b: "heap_get h' l = (heap_get h l)\<lparr>ob_frozen := b\<rparr>" using same arr(3) inside by blast
    have "collect (array_element (canonicalize m' h') (heap_get h l)) [0..<ob_length (heap_get h l)] (l # vis)
        = Inr (parts, t)"
      by (rule collect_frame [OF arr(6), where Z = ?Z])
        (use arr(1) Suc.prems(2) step in \<open>auto simp: array_element_Inr dest: canonicalize_mono\<close>)
    then show ?thesis using arr b by (simp add: n' Let_def)
  next
    case (obj m l parts)
    have inside: "set (l # vis) \<subseteq> set t"
      by (rule collect_mono [OF obj(7)]) (auto simp: object_entry_Inr dest: canonicalize_mono)
    obtain b where b: "heap_get h' l = (heap_get h l)\<lparr>ob_frozen := b\<rparr>" using same obj(3) inside by blast
    have "collect (object_entry (canonicalize m' h') (heap_get h l)) (sorted_keys (heap_get h l)) (l # vis)
        = Inr (parts, t)"
      by (rule collect_frame [OF obj(7), where Z = ?Z])
        (use obj(1) Suc.prems(2) step in \<open>auto simp: object_entry_Inr dest: canonicalize_mono\<close>)
    then show ?thesis using obj b by (auto simp add: n' Let_def)
  qed
qed simp

section \<open>The encoding determines the structure of the payload\<close>

text \<open>
  The structure a payload has: what remains of it when object identity, the order of the fields and
  the way numbers are stored are forgotten. \<open>denotes h v t\<close> reads it off the heap without encoding
  anything.
\<close>

datatype tree =
    TNull
  | TUndef
  | TBool bool
  | TNum string
  | TBig int
  | TStr string
  | TArr "tree list"
  | TObj "(string \<times> tree) list"

fun leaf_tree :: "jsval \<Rightarrow> tree option" where
  "leaf_tree JNull = Some TNull"
| "leaf_tree JUndefined = Some TUndef"
| "leaf_tree (JBool b) = Some (TBool b)"
| "leaf_tree (JNum v) =
    (if num_is_finite v then Some (TNum (if v = NegZero then ''-0'' else num_str v)) else None)"
| "leaf_tree (JBigInt i) = Some (TBig i)"
| "leaf_tree (JStr s) = Some (TStr s)"
| "leaf_tree _ = None"

inductive denotes :: "heap \<Rightarrow> jsval \<Rightarrow> tree \<Rightarrow> bool" for h where
  leaf: "leaf_tree v = Some t \<Longrightarrow> denotes h v t"
| arr: "ob_array (heap_get h l) \<Longrightarrow>
    list_all2 (\<lambda>i t. \<exists>v b. own_property (heap_get h l) (nat_str i) = Some (Data b v) \<and> denotes h v t)
      [0..<ob_length (heap_get h l)] ts \<Longrightarrow>
    denotes h (JRef l) (TArr ts)"
| obj: "\<not> ob_array (heap_get h l) \<Longrightarrow>
    list_all2 (\<lambda>k (k', t). k' = k \<and> (\<exists>v b. own_property (heap_get h l) k = Some (Data b v) \<and> denotes h v t))
      (sorted_keys (heap_get h l)) fs \<Longrightarrow>
    denotes h (JRef l) (TObj fs)"

fun tree_str :: "tree \<Rightarrow> string" where
  "tree_str TNull = ''null''"
| "tree_str TUndef = ''u:''"
| "tree_str (TBool b) = (if b then ''b:1'' else ''b:0'')"
| "tree_str (TNum s) = ''n:'' @ s"
| "tree_str (TBig i) = ''i:'' @ int_str i"
| "tree_str (TStr s) = ''s:'' @ json_string s"
| "tree_str (TArr ts) = ''a:['' @ join '','' (map tree_str ts) @ '']''"
| "tree_str (TObj fs) =
    ''o:{'' @ join '','' (map (\<lambda>(k, t). json_string k @ '':'' @ tree_str t) fs) @ ''}''"

lemma canonical_leaf_tree:
  "canonical_leaf v = Inr s \<Longrightarrow> \<exists>t. leaf_tree v = Some t \<and> tree_str t = s"
  by (cases v) (auto split: if_splits)

lemma collect_list_all2:
  assumes "collect f xs s = Inr (ys, t)" and "\<And>x s y t. f x s = Inr (y, t) \<Longrightarrow> P x y"
  shows "list_all2 P xs ys"
  using assms(1)
proof (induction xs arbitrary: s ys)
  case (Cons x xs)
  then show ?case using assms(2) by (auto simp: and_then_Inr)
qed simp

lemma list_all2_choose:
  assumes "list_all2 (\<lambda>x y. \<exists>z. Q x z \<and> g z = y) xs ys"
  shows "\<exists>zs. list_all2 Q xs zs \<and> map g zs = ys"
  using assms
proof (induction xs ys rule: list_all2_induct)
  case (Cons x xs y ys)
  then obtain z zs where "Q x z" "g z = y" "list_all2 Q xs zs" "map g zs = ys" by blast
  then show ?case by (intro exI [of _ "z # zs"]) simp
qed simp

lemma array_item_Inr: "array_item ob i = Inr v \<longleftrightarrow> (\<exists>b. own_property ob (nat_str i) = Some (Data b v))"
  by (auto simp: array_item_def split: option.splits descriptor.splits)

lemma object_field_Inr: "object_field ob k = Inr v \<longleftrightarrow> own_property ob k = Some (Data True v)"
  by (auto simp: object_field_def split: option.splits descriptor.splits bool.splits)

lemma canonicalize_denotes:
  "canonicalize n h v vis = Inr (s, t) \<Longrightarrow> \<exists>T. denotes h v T \<and> tree_str T = s"
proof (induction n arbitrary: v vis s t)
  case (Suc n)
  from Suc.prems show ?case
  proof (cases rule: canonicalize_cases)
    case leaf
    then show ?thesis using canonical_leaf_tree denotes.leaf by blast
  next
    case (arr m l parts)
    let ?Q = "\<lambda>i T. \<exists>v b. own_property (heap_get h l) (nat_str i) = Some (Data b v) \<and> denotes h v T"
    have "list_all2 (\<lambda>i y. \<exists>T. ?Q i T \<and> tree_str T = y) [0..<ob_length (heap_get h l)] parts"
      by (rule collect_list_all2 [OF arr(6)])
        (use arr(1) Suc.IH in \<open>fastforce simp: array_element_Inr array_item_Inr\<close>)
    then obtain Ts where "list_all2 ?Q [0..<ob_length (heap_get h l)] Ts" "map tree_str Ts = parts"
      using list_all2_choose [where Q = ?Q and g = tree_str] by blast
    with arr show ?thesis by (auto intro!: exI [of _ "TArr Ts"] denotes.arr)
  next
    case (obj m l parts)
    let ?Q = "\<lambda>k (k', T). k' = k \<and>
      (\<exists>v b. own_property (heap_get h l) k = Some (Data b v) \<and> denotes h v T)"
    let ?g = "\<lambda>(k, T). json_string k @ '':'' @ tree_str T"
    have "list_all2 (\<lambda>k y. \<exists>kT. ?Q k kT \<and> ?g kT = y) (sorted_keys (heap_get h l)) parts"
      by (rule collect_list_all2 [OF obj(7)])
        (use obj(1) Suc.IH in \<open>fastforce simp: object_entry_Inr object_field_Inr\<close>)
    then obtain fs where "list_all2 ?Q (sorted_keys (heap_get h l)) fs" "map ?g fs = parts"
      using list_all2_choose [where Q = ?Q and g = ?g] by blast
    with obj show ?thesis by (auto intro!: exI [of _ "TObj fs"] denotes.obj)
  qed
qed simp

lemma denotes_unique: "denotes h v t \<Longrightarrow> denotes h v t' \<Longrightarrow> t = t'"
proof (induction arbitrary: t' rule: denotes.induct)
  case (leaf v t)
  from leaf(2) leaf(1) show ?case by (cases rule: denotes.cases) auto
next
  case (arr l ts)
  from arr(3) show ?case
  proof (cases rule: denotes.cases)
    case (arr ts')
    from arr(3) \<open>list_all2 _ _ ts\<close> have "list_all2 (=) ts ts'"
      by (fastforce simp: list_all2_conv_all_nth)
    with arr show ?thesis by (simp add: list_all2_eq)
  qed (use arr in auto)
next
  case (obj l fs)
  from obj(3) show ?case
  proof (cases rule: denotes.cases)
    case (obj fs')
    from obj(3) \<open>list_all2 _ _ fs\<close> have "list_all2 (=) fs fs'"
      by (fastforce simp: list_all2_conv_all_nth)
    with obj show ?thesis by (simp add: list_all2_eq)
  qed (use obj in auto)
qed

text \<open>An encoding ends where a separator or a closing bracket starts.\<close>

definition separator :: "char \<Rightarrow> bool" where
  "separator c \<longleftrightarrow> c \<in> set '',]}''"

definition ends :: "string \<Rightarrow> bool" where
  "ends r = (case r of [] \<Rightarrow> True | c # _ \<Rightarrow> separator c)"

definition plain_text :: "string \<Rightarrow> bool" where
  "plain_text s \<longleftrightarrow> list_all (\<lambda>c. \<not> separator c) s"

lemma ends_simps [simp]: "ends []" "ends (c # r) \<longleftrightarrow> separator c"
  by (simp_all add: ends_def)

lemma separators [simp]: "separator (CHR '','')" "separator (CHR '']'')" "separator (CHR ''}'')"
  by (simp_all add: separator_def)

lemma plain_text_unique:
  assumes "plain_text a" and "plain_text b" and "ends r" and "ends r'" and "a @ r = b @ r'"
  shows "a = b \<and> r = r'"
proof -
  have "takeWhile (\<lambda>c. \<not> separator c) (x @ y) = x" if "plain_text x" and "ends y" for x y
    using that by (cases y) (simp_all add: plain_text_def list_all_iff takeWhile_append2)
  then have "a = b" using assms by metis
  with assms show ?thesis by simp
qed

lemma separator_not_digit: "is_digit c \<Longrightarrow> \<not> separator c"
  by (auto simp: is_digit_def separator_def)

lemma plain_text_digits: "plain_text (nat_str n)"
  using nat_str_digits [of n] by (auto simp: plain_text_def list_all_iff separator_not_digit)

lemma plain_text_append [simp]: "plain_text (a @ b) \<longleftrightarrow> plain_text a \<and> plain_text b"
  by (simp add: plain_text_def)

lemma plain_text_Nil [simp]: "plain_text []"
  by (simp add: plain_text_def)

lemma plain_text_Cons [simp]: "plain_text (c # b) \<longleftrightarrow> \<not> separator c \<and> plain_text b"
  by (simp add: plain_text_def)

lemma plain_text_replicate [simp]: "\<not> separator c \<Longrightarrow> plain_text (replicate n c)"
  by (simp add: plain_text_def list_all_iff)

lemma plain_text_take_drop: "plain_text s \<Longrightarrow> plain_text (take n s) \<and> plain_text (drop n s)"
  by (auto simp: plain_text_def list_all_iff dest: in_set_takeD in_set_dropD)

lemma separator_literals [simp]:
  "\<not> separator (CHR ''0'')" "\<not> separator (CHR ''.'')" "\<not> separator (CHR ''e'')"
  "\<not> separator (CHR ''+'')" "\<not> separator (CHR ''-'')"
  by (simp_all add: separator_def)

lemma plain_text_pos_decimal: "plain_text (pos_decimal_str d e)"
  using plain_text_take_drop [OF plain_text_digits [of d]]
  by (simp add: pos_decimal_str_def Let_def plain_text_digits)

lemma plain_text_num: "num_is_finite v \<Longrightarrow> plain_text (num_str v)"
  by (cases v) (simp_all add: plain_text_pos_decimal)

lemma plain_text_int: "plain_text (int_str i)"
  by (simp add: int_str_def plain_text_digits)

lemma nat_str_not_minus: "nat_str n \<noteq> CHR ''-'' # s"
  using nat_str_digits [of n] by (auto simp: is_digit_def)

lemma int_str_inj: "int_str i = int_str j \<longleftrightarrow> i = j"
  using nat_str_not_minus [of "nat i" "nat_str (nat (- j))"] nat_str_not_minus [of "nat j" "nat_str (nat (- i))"]
  by (auto simp: int_str_def nat_str_inj)

fun text_tree :: "tree \<Rightarrow> bool" where
  "text_tree (TNum s) = plain_text s"
| "text_tree (TArr ts) = list_all text_tree ts"
| "text_tree (TObj fs) = list_all (\<lambda>(k, t). text_tree t) fs"
| "text_tree _ = True"

lemma denotes_text: "denotes h v t \<Longrightarrow> text_tree t"
proof (induction rule: denotes.induct)
  case (leaf v t)
  then show ?case by (cases v) (auto simp: plain_text_num split: if_splits)
qed (auto simp: list_all2_conv_all_nth list_all_length case_prod_beta)

text \<open>A bracketed, comma-separated list is read back element by element.\<close>

lemma join_Cons: "join '','' (x # xs) = x @ concat (map (\<lambda>y. '','' @ y) xs)"
  unfolding join_def by (simp, intro arg_cong [where f = concat] map_cong) simp_all

lemma tail_unique:
  assumes step: "\<And>x y r r'. x \<in> set xs \<Longrightarrow> y \<in> set ys \<Longrightarrow> ends r \<Longrightarrow> ends r' \<Longrightarrow>
      f x @ r = f y @ r' \<Longrightarrow> x = y \<and> r = r'"
    and "separator c" and "c \<noteq> CHR '',''"
    and "concat (map (\<lambda>x. '','' @ f x) xs) @ c # r = concat (map (\<lambda>x. '','' @ f x) ys) @ c # r'"
  shows "xs = ys \<and> r = r'"
  using step assms(4)
proof (induction xs arbitrary: ys)
  case Nil
  then show ?case using assms(3) by (cases ys) auto
next
  case (Cons x xs)
  then obtain y zs where ys: "ys = y # zs" using assms(3) by (cases ys) auto
  have e: "ends (concat (map (\<lambda>x. '','' @ f x) ws) @ c # q)" for ws q
    using assms(2) by (cases ws) auto
  have "x = y \<and> concat (map (\<lambda>x. '','' @ f x) xs) @ c # r = concat (map (\<lambda>x. '','' @ f x) zs) @ c # r'"
    by (rule Cons.prems(1)) (use Cons.prems(2) ys e in auto)
  with Cons.IH [of zs] Cons.prems(1) ys show ?case by auto
qed

lemma join_unique:
  assumes step: "\<And>x y r r'. x \<in> set xs \<Longrightarrow> y \<in> set ys \<Longrightarrow> ends r \<Longrightarrow> ends r' \<Longrightarrow>
      f x @ r = f y @ r' \<Longrightarrow> x = y \<and> r = r'"
    and c: "separator c" "c \<noteq> CHR '',''"
    and start: "\<And>x. \<exists>d ds. f x = d # ds \<and> d \<noteq> c"
    and "join '','' (map f xs) @ c # r = join '','' (map f ys) @ c # r'"
  shows "xs = ys \<and> r = r'"
proof (cases xs; cases ys)
  fix x zs assume "xs = []" "ys = x # zs"
  with assms(5) start [of x] show ?thesis by (auto simp: join_Cons)
next
  fix x zs assume "xs = x # zs" "ys = []"
  with assms(5) start [of x] show ?thesis by (auto simp: join_Cons)
next
  fix x zs y ws assume xy: "xs = x # zs" "ys = y # ws"
  have e: "ends (concat (map (\<lambda>x. '','' @ f x) us) @ c # q)" for us q
    using c by (cases us) auto
  have eq: "f x @ (concat (map (\<lambda>x. '','' @ f x) zs) @ c # r) = f y @ (concat (map (\<lambda>x. '','' @ f x) ws) @ c # r')"
    using assms(5) xy by (simp add: join_Cons comp_def)
  have "x = y \<and> concat (map (\<lambda>x. '','' @ f x) zs) @ c # r = concat (map (\<lambda>x. '','' @ f x) ws) @ c # r'"
    by (rule step [OF _ _ e e eq]) (use xy in auto)
  moreover from this have "zs = ws \<and> r = r'"
    by (intro tail_unique [where f = f and c = c]) (use step xy c in auto)
  ultimately show ?thesis using xy by simp
qed (use assms(5) in auto)

lemma tree_str_start: "\<exists>d ds. tree_str t = d # ds \<and> d \<noteq> CHR '']''"
  by (cases t) auto

lemma field_start: "\<exists>d ds. (case kt of (k, t) \<Rightarrow> json_string k @ '':'' @ tree_str t) = d # ds \<and> d \<noteq> CHR ''}''"
  by (cases kt) (auto simp: json_string_def)

lemma tree_str_unique:
  assumes "text_tree t" and "text_tree t'" and "ends r" and "ends r'" and "tree_str t @ r = tree_str t' @ r'"
  shows "t = t' \<and> r = r'"
  using assms
proof (induction t arbitrary: t' r r')
  case TNull
  then show ?case by (cases t') (auto split: if_splits)
next
  case TUndef
  then show ?case by (cases t') (auto split: if_splits)
next
  case (TBool b)
  then show ?case by (cases t') (auto split: if_splits)
next
  case (TNum s)
  then show ?case using plain_text_unique [of s _ r r'] by (cases t') (auto split: if_splits)
next
  case (TBig i)
  then show ?case
    using plain_text_unique [OF plain_text_int plain_text_int, of r r' i]
    by (cases t') (auto simp: int_str_inj split: if_splits)
next
  case (TStr s)
  then show ?case by (cases t') (auto simp: json_string_prefix_free split: if_splits)
next
  case (TArr ts)
  then obtain ts' where t': "t' = TArr ts'" by (cases t') (auto split: if_splits)
  have "ts = ts' \<and> r = r'"
  proof (rule join_unique [where f = tree_str and c = "CHR '']''"])
    fix x y q q'
    assume "x \<in> set ts" "y \<in> set ts'" "ends q" "ends q'" "tree_str x @ q = tree_str y @ q'"
    with TArr t' show "x = y \<and> q = q'" by (auto simp: list_all_iff)
  qed (use TArr.prems(5) t' tree_str_start in simp_all)
  with t' show ?case by simp
next
  case (TObj fs)
  then obtain fs' where t': "t' = TObj fs'" by (cases t') (auto split: if_splits)
  let ?f = "\<lambda>(k, t). json_string k @ '':'' @ tree_str t"
  have "fs = fs' \<and> r = r'"
  proof (rule join_unique [where f = ?f and c = "CHR ''}''"])
    fix x y q q'
    assume a: "x \<in> set fs" "y \<in> set fs'" "ends q" "ends q'" "?f x @ q = ?f y @ q'"
    obtain k u k' u' where x: "x = (k, u)" "y = (k', u')" by (cases x; cases y)
    with a(5) have "k = k'" "tree_str u @ q = tree_str u' @ q'"
      by (simp_all add: json_string_prefix_free)
    moreover have "text_tree u" "text_tree u'" using a x TObj.prems t' by (auto simp: list_all_iff)
    ultimately show "x = y \<and> q = q'"
      using TObj.IH [of x u u' q q'] a x by simp
  qed (use TObj.prems(5) t' field_start in simp_all)
  with t' show ?case by simp
qed

lemma tree_str_inj: "text_tree t \<Longrightarrow> text_tree t' \<Longrightarrow> tree_str t = tree_str t' \<Longrightarrow> t = t'"
  using tree_str_unique [of t t' "[]" "[]"] by simp

lemma canonicalize_payload_denotes:
  "canonicalize_payload h v = Inr s \<Longrightarrow> \<exists>T. denotes h v T \<and> tree_str T = s"
  unfolding canonicalize_payload_def canonicalize_within_def using canonicalize_denotes by (fastforce simp: and_then_Inr)

lemma equal_encodings_same_structure:
  assumes "canonicalize_payload h v = Inr s" and "canonicalize_payload h' v' = Inr s"
  shows "\<exists>T. denotes h v T \<and> denotes h' v' T"
  using assms canonicalize_payload_denotes denotes_text tree_str_inj by metis

section \<open>The call stack suffices\<close>

definition fresh_locs :: "heap \<Rightarrow> loc list \<Rightarrow> nat" where
  "fresh_locs h visited = card (fst ` set h - set visited)"

lemma fresh_locs_mono: "set vis \<subseteq> set t \<Longrightarrow> fresh_locs h t \<le> fresh_locs h vis"
  unfolding fresh_locs_def by (rule card_mono) auto

lemma fresh_locs_visit:
  assumes "l \<notin> set vis" and "l \<in> fst ` set h"
  shows "fresh_locs h (l # vis) < fresh_locs h vis"
  unfolding fresh_locs_def by (rule psubset_card_mono) (use assms in auto)

lemma fresh_locs_bound: "fresh_locs h vis \<le> length h"
  unfolding fresh_locs_def
  by (rule le_trans [OF card_mono [where B = "fst ` set h"]]) (auto intro: card_length le_trans [OF card_image_le])

lemma heap_get_absent: "l \<notin> fst ` set h \<Longrightarrow> heap_get h l = plain_object"
  by (simp add: heap_get_def map_of_eq_None_iff [THEN iffD2])

lemma each_Inl: "each f xs s = Inl e \<Longrightarrow> \<exists>x \<in> set xs. \<exists>t. f x t = Inl e"
  by (induction xs arbitrary: s) (auto simp: and_then_Inl)

lemma collect_Inl:
  assumes "collect f xs s = Inl e"
    and mono: "\<And>x s y t. f x s = Inr (y, t) \<Longrightarrow> set s \<subseteq> set t"
  shows "\<exists>x \<in> set xs. \<exists>t. set s \<subseteq> set t \<and> f x t = Inl e"
  using assms(1)
proof (induction xs arbitrary: s)
  case (Cons x xs)
  from Cons.prems consider "f x s = Inl e" | y s' where "f x s = Inr (y, s')" "collect f xs s' = Inl e"
    by (auto simp: and_then_Inl)
  then show ?case
  proof cases
    case 2
    then have "set s \<subseteq> set s'" by (rule_tac mono)
    with Cons.IH [OF 2(2)] show ?thesis by fastforce
  qed auto
qed simp

definition type_error :: "js_error \<Rightarrow> bool" where
  "type_error e = (case e of TypeErr _ \<Rightarrow> True | _ \<Rightarrow> False)"

lemma type_error_TypeErr [simp]: "type_error (TypeErr m)"
  by (simp add: type_error_def)

lemma leaf_type_error: "canonical_leaf v = Inl e \<Longrightarrow> type_error e"
  by (cases v) (auto simp: unsupported_type_def split: if_splits)

lemma item_type_errors:
  "array_item ob i = Inl e \<Longrightarrow> type_error e"
  "object_field ob k = Inl e \<Longrightarrow> type_error e"
  "check_array_key ob kd u = Inl e \<Longrightarrow> type_error e"
  by (auto simp: array_item_def object_field_def check_array_key_def
    split: option.splits descriptor.splits bool.splits pkey.splits if_splits)

lemma check_keys_type_error: "each (check_array_key ob) kds u = Inl e \<Longrightarrow> type_error e"
  by (drule each_Inl) (auto dest: item_type_errors)

lemma sorted_keys_plain [simp]: "sorted_keys plain_object = []"
  by (simp add: sorted_keys_def string_props_def plain_object_def sort_strings_def map_filter_simps)

lemma canonicalize_type_error:
  "canonicalize n h v vis = Inl e \<Longrightarrow> fresh_locs h vis < n \<Longrightarrow> type_error e"
proof (induction n arbitrary: v vis e)
  case (Suc n)
  show ?case
  proof (cases "\<exists>l. v = JRef l \<and> l \<notin> set vis")
    case False
    with Suc.prems show ?thesis
      by (cases v) (auto simp: and_then_Inl Let_def unsupported_type_def split: if_splits)
  next
    case True
    then obtain l where v: "v = JRef l" and l: "l \<notin> set vis" by blast
    have arr: "type_error e"
      if walk: "collect (array_element (canonicalize n h) (heap_get h l)) [0..<ob_length (heap_get h l)] (l # vis) = Inl e"
    proof -
      have "l \<in> fst ` set h"
        by (rule ccontr) (use walk in \<open>simp add: heap_get_absent plain_object_def\<close>)
      then have less: "fresh_locs h t < n" if "set (l # vis) \<subseteq> set t" for t
        using fresh_locs_visit [OF l] fresh_locs_mono [OF that, of h] Suc.prems(2) by fastforce
      obtain i t where "set (l # vis) \<subseteq> set t" "array_element (canonicalize n h) (heap_get h l) i t = Inl e"
        using collect_Inl [OF walk] by (auto simp: array_element_Inr dest: canonicalize_mono)
      with less show ?thesis
        by (auto simp: array_element_def and_then_Inl dest: item_type_errors Suc.IH)
    qed
    have obj: "type_error e"
      if walk: "collect (object_entry (canonicalize n h) (heap_get h l)) (sorted_keys (heap_get h l)) (l # vis) = Inl e"
    proof -
      have "l \<in> fst ` set h"
        by (rule ccontr) (use walk in \<open>simp add: heap_get_absent\<close>)
      then have less: "fresh_locs h t < n" if "set (l # vis) \<subseteq> set t" for t
        using fresh_locs_visit [OF l] fresh_locs_mono [OF that, of h] Suc.prems(2) by fastforce
      obtain k t where "set (l # vis) \<subseteq> set t" "object_entry (canonicalize n h) (heap_get h l) k t = Inl e"
        using collect_Inl [OF walk] by (auto simp: object_entry_Inr dest: canonicalize_mono)
      with less show ?thesis
        by (auto simp: object_entry_def and_then_Inl dest: item_type_errors Suc.IH)
    qed
    from Suc.prems v l arr obj show ?thesis
      by (auto simp: and_then_Inl Let_def dest: check_keys_type_error split: if_splits)
  qed
qed simp

lemma payload_depth_suffices:
  "canonicalize_payload h v = Inl e \<Longrightarrow> type_error e"
  using canonicalize_type_error [of "payload_depth h" h v "[]"] fresh_locs_bound [of h "[]"]
  by (auto simp: canonicalize_payload_def canonicalize_within_def and_then_Inl payload_depth_def less_Suc_eq_le)

text \<open>More stack changes nothing but an overflow.\<close>

lemma collect_resume:
  assumes "\<And>x t. f x t \<noteq> Inl e \<Longrightarrow> g x t = f x t" and "collect f xs s \<noteq> Inl e"
  shows "collect g xs s = collect f xs s"
  using assms(2)
proof (induction xs arbitrary: s)
  case (Cons x xs)
  then have x: "f x s \<noteq> Inl e" by (auto simp: and_then_Inl)
  show ?case
  proof (cases "f x s")
    case (Inr y)
    then have "collect f xs (snd y) \<noteq> Inl e" using Cons.prems by (cases y) (auto simp: and_then_Inl)
    then show ?thesis using Cons.IH assms(1) [OF x] Inr by (cases y) simp
  qed (use assms(1) [OF x] in simp)
qed simp

lemma element_resume:
  assumes "\<And>w t. f w t \<noteq> Inl e \<Longrightarrow> g w t = f w t"
  shows "array_element f ob i vis \<noteq> Inl e \<Longrightarrow> array_element g ob i vis = array_element f ob i vis"
    and "object_entry f ob k vis \<noteq> Inl e \<Longrightarrow> object_entry g ob k vis = object_entry f ob k vis"
  using assms
  by (cases "array_item ob i", simp_all add: array_element_def)
    (cases "object_field ob k", simp_all add: object_entry_def, metis and_then_simps(1))

lemma canonicalize_resume:
  "canonicalize n h v vis \<noteq> Inl stack_overflow \<Longrightarrow> n \<le> m \<Longrightarrow> canonicalize m h v vis = canonicalize n h v vis"
proof (induction n arbitrary: m v vis)
  case (Suc n)
  then obtain m' where m: "m = Suc m'" "n \<le> m'" by (cases m) auto
  have step: "canonicalize n h w t \<noteq> Inl stack_overflow \<Longrightarrow> canonicalize m' h w t = canonicalize n h w t" for w t
    using Suc.IH m(2) by blast
  have arr: "collect (array_element (canonicalize m' h) ob) xs t = collect (array_element (canonicalize n h) ob) xs t"
    if "collect (array_element (canonicalize n h) ob) xs t \<noteq> Inl stack_overflow" for ob xs t
    by (rule collect_resume [OF element_resume(1) that]) (rule step)
  have obj: "collect (object_entry (canonicalize m' h) ob) xs t = collect (object_entry (canonicalize n h) ob) xs t"
    if "collect (object_entry (canonicalize n h) ob) xs t \<noteq> Inl stack_overflow" for ob xs t
    by (rule collect_resume [OF element_resume(2) that]) (rule step)
  show ?case
  proof (cases v)
    case (JRef l)
    show ?thesis
      using Suc.prems(1) arr obj
      by (cases "each (check_array_key (heap_get h l)) (ob_props (heap_get h l)) ()")
        (auto simp: m JRef Let_def and_then_Inl split: if_splits)
  qed (simp_all add: m)
qed simp

lemma digest_legacy_Inr:
  "digest_legacy H h v = Inr d \<longleftrightarrow> (\<exists>s. canonicalize_payload h v = Inr s \<and> d = H (approval_preimage s))"
  unfolding digest_legacy_def digest_within_def canonicalize_payload_def and_then_Inr by blast

lemma digest_within_resume:
  assumes "digest_within n H h v \<noteq> Inl stack_overflow" and "n \<le> m"
  shows "digest_within m H h v = digest_within n H h v"
proof -
  have "canonicalize n h v [] \<noteq> Inl stack_overflow"
    using assms(1) by (auto simp: digest_within_def canonicalize_within_def)
  from canonicalize_resume [OF this assms(2)] show ?thesis by (simp add: digest_within_def canonicalize_within_def)
qed

lemma digest_within_enough:
  assumes "payload_depth h \<le> n"
  shows "digest_within n H h v = digest_legacy H h v \<and> (\<forall>e. digest_legacy H h v = Inl e \<longrightarrow> type_error e)"
proof -
  have te: "type_error e" if "digest_legacy H h v = Inl e" for e
    using that payload_depth_suffices [of h v e]
    by (auto simp: digest_legacy_def digest_within_def canonicalize_payload_def and_then_Inl)
  then have "digest_legacy H h v \<noteq> Inl stack_overflow" by (auto simp: stack_overflow_def type_error_def)
  then show ?thesis using te digest_within_resume [OF _ assms] by (simp add: digest_legacy_def)
qed

lemma digest_within_cases:
  "digest_within n H h v = Inl stack_overflow \<and> n < payload_depth h \<or> digest_within n H h v = digest_legacy H h v"
proof (cases "digest_within n H h v = Inl stack_overflow")
  case True
  show ?thesis
  proof (cases "payload_depth h \<le> n")
    case False
    with True show ?thesis by simp
  qed (use digest_within_enough in blast)
next
  case False
  then show ?thesis
    using digest_within_enough [of h n H v] digest_within_resume [of n H h v "payload_depth h"]
    by (cases "payload_depth h \<le> n") (simp_all add: digest_legacy_def)
qed

section \<open>A frozen payload cannot change\<close>

definition val_refs :: "jsval \<Rightarrow> loc set" where
  "val_refs v = (case v of JRef l \<Rightarrow> {l} | _ \<Rightarrow> {})"

definition obj_refs :: "js_object \<Rightarrow> loc set" where
  "obj_refs ob = (\<Union>v \<in> set (data_values ob). val_refs v)"

text \<open>What a walk over \<open>(heap, visited)\<close> seals between its start and its end.\<close>

definition seals :: "heap \<times> loc list \<Rightarrow> heap \<times> loc list \<Rightarrow> bool" where
  "seals s t \<longleftrightarrow>
    set (snd s) \<subseteq> set (snd t) \<and>
    (\<forall>l. same_data (fst s) (fst t) l) \<and>
    (\<forall>l. ob_frozen (heap_get (fst s) l) \<longrightarrow> ob_frozen (heap_get (fst t) l)) \<and>
    (\<forall>l \<in> set (snd t) - set (snd s). ob_frozen (heap_get (fst t) l) \<and> obj_refs (heap_get (fst t) l) \<subseteq> set (snd t))"

lemma same_data_refl [simp]: "same_data h h l"
  unfolding same_data_def by (rule exI [of _ "ob_frozen (heap_get h l)"]) simp

lemma same_data_eq: "heap_get h' l = heap_get h l \<Longrightarrow> same_data h h' l"
  by (metis same_data_def same_data_refl)

lemma same_data_trans: "same_data h h' l \<Longrightarrow> same_data h' h'' l \<Longrightarrow> same_data h h'' l"
  by (auto simp: same_data_def)

lemma same_data_sym: "same_data h h' l \<Longrightarrow> same_data h' h l"
  unfolding same_data_def by (metis (lifting) js_object.update_convs(6) js_object.surjective)

lemma obj_refs_frozen [simp]: "obj_refs (ob\<lparr>ob_frozen := b\<rparr>) = obj_refs ob"
  by (simp add: obj_refs_def)

lemma obj_refs_same_data: "same_data h h' l \<Longrightarrow> obj_refs (heap_get h' l) = obj_refs (heap_get h l)"
  by (auto simp: same_data_def obj_refs_def)

lemma seals_refl [simp]: "seals s s"
  by (simp add: seals_def)

lemma seals_trans: "seals s t \<Longrightarrow> seals t u \<Longrightarrow> seals s u"
  unfolding seals_def by (blast intro: same_data_trans dest: obj_refs_same_data)

lemma heap_get_freeze:
  "heap_get (freeze_object l h) l' = (if l' = l then (heap_get h l)\<lparr>ob_frozen := True\<rparr> else heap_get h l')"
  by (simp add: freeze_object_def heap_get_def update_conv')

lemma same_data_freeze [simp]: "same_data h (freeze_object l h) l'"
  by (cases "l' = l") (auto simp: same_data_def heap_get_freeze intro: exI [of _ "ob_frozen (heap_get h l')"])

lemma each_keeping_seals:
  assumes "each_keeping f xs s = (Inr (), t)"
    and step: "\<And>x s t. x \<in> set xs \<Longrightarrow> f x s = (Inr (), t) \<Longrightarrow> seals s t \<and> g x \<subseteq> set (snd t)"
  shows "seals s t \<and> (\<forall>x \<in> set xs. g x \<subseteq> set (snd t))"
  using assms
proof (induction xs arbitrary: s)
  case (Cons x xs)
  then obtain s' where x: "f x s = (Inr (), s')" and xs: "each_keeping f xs s' = (Inr (), t)"
    by (auto split: prod.splits sum.splits)
  have *: "seals s s'" "g x \<subseteq> set (snd s')" using Cons.prems(2) [OF _ x] by simp_all
  have **: "seals s' t \<and> (\<forall>x \<in> set xs. g x \<subseteq> set (snd t))"
    by (rule Cons.IH [OF xs], rule Cons.prems(2)) simp_all
  then have "seals s t" using * seals_trans by blast
  moreover have "g x \<subseteq> set (snd t)" using * ** unfolding seals_def by blast
  ultimately show ?case using ** by simp
qed simp

lemma data_value_refs: "data_value kd = Inr w \<Longrightarrow> (case snd kd of Data _ v \<Rightarrow> val_refs v | Accessor _ \<Rightarrow> {}) = val_refs w"
  by (auto simp: data_value_def split: descriptor.splits)

lemma obj_refs_props:
  "obj_refs ob = (\<Union>kd \<in> set (ob_props ob). case snd kd of Data _ v \<Rightarrow> val_refs v | Accessor _ \<Rightarrow> {})"
  unfolding obj_refs_def data_values_def map_filter_def
  by (force split: descriptor.splits)

lemma freeze_payload_seals:
  "freeze_payload n v s = (Inr (), t) \<Longrightarrow> seals s t \<and> val_refs v \<subseteq> set (snd t)"
proof (induction n arbitrary: v s t)
  case (Suc n)
  show ?case
  proof (cases v)
    case (JRef l)
    let ?ob = "heap_get (fst s) l"
    let ?step = "\<lambda>kd t. case data_value kd of Inl e \<Rightarrow> (Inl e, t) | Inr w \<Rightarrow> freeze_payload n w t"
    from Suc.prems JRef obtain u where
      walk: "each_keeping ?step (ob_props ?ob) (fst s, l # snd s) = (Inr (), u)"
      and t: "t = (freeze_object l (fst u), snd u)"
      by (auto simp: Let_def split: if_splits prod.splits sum.splits)
    have "seals (fst s, l # snd s) u \<and>
        (\<forall>kd \<in> set (ob_props ?ob). (case snd kd of Data _ v \<Rightarrow> val_refs v | Accessor _ \<Rightarrow> {}) \<subseteq> set (snd u))"
      by (rule each_keeping_seals [OF walk])
        (auto split: sum.splits dest!: Suc.IH simp: data_value_refs)
    then have sealed: "seals (fst s, l # snd s) u" and refs: "obj_refs ?ob \<subseteq> set (snd u)"
      by (auto simp: obj_refs_props)
    have "obj_refs (heap_get (fst u) l') = obj_refs (heap_get (fst s) l')" for l'
      by (rule obj_refs_same_data) (use sealed in \<open>simp add: seals_def\<close>)
    with sealed refs show ?thesis
      unfolding seals_def t JRef
      by (auto simp: val_refs_def heap_get_freeze obj_refs_same_data [OF same_data_freeze]
        intro: same_data_trans)
  qed (use Suc.prems in \<open>simp_all add: val_refs_def\<close>)
qed simp

text \<open>The encoding stays inside any set of objects that is closed under references.\<close>

lemma own_property_refs: "own_property ob k = Some (Data b v) \<Longrightarrow> val_refs v \<subseteq> obj_refs ob"
  unfolding own_property_def by (drule map_of_SomeD) (force simp: obj_refs_props)

lemma collect_stays_inside:
  assumes "collect f xs vis = Inr (ys, t)" and "set vis \<subseteq> F"
    and "\<And>x s y t. f x s = Inr (y, t) \<Longrightarrow> set s \<subseteq> F \<Longrightarrow> set t \<subseteq> F"
  shows "set t \<subseteq> F"
  using assms(1,2)
proof (induction xs arbitrary: vis ys)
  case (Cons x xs)
  then obtain y s' ys' where "f x vis = Inr (y, s')" "collect f xs s' = Inr (ys', t)"
    by (auto simp: and_then_Inr)
  with Cons assms(3) show ?case by blast
qed simp

lemma canonicalize_stays_inside:
  assumes "canonicalize n h v vis = Inr (s, t)" and closed: "\<forall>l \<in> F. obj_refs (heap_get h l) \<subseteq> F"
    and "val_refs v \<subseteq> F" and "set vis \<subseteq> F"
  shows "set t \<subseteq> F"
  using assms(1,3,4)
proof (induction n arbitrary: v vis s t)
  case (Suc n)
  from Suc.prems(1) show ?case
  proof (cases rule: canonicalize_cases)
    case leaf
    with Suc.prems show ?thesis by simp
  next
    case (arr m l parts)
    then have l: "l \<in> F" using Suc.prems(2) by (simp add: val_refs_def)
    show ?thesis
    proof (rule collect_stays_inside [OF arr(6)])
      fix i q y q' assume "array_element (canonicalize m h) (heap_get h l) i q = Inr (y, q')" "set q \<subseteq> F"
      then obtain b w where "own_property (heap_get h l) (nat_str i) = Some (Data b w)"
        "canonicalize m h w q = Inr (y, q')"
        by (auto simp: array_element_Inr array_item_Inr)
      with own_property_refs closed l arr(1) Suc.IH \<open>set q \<subseteq> F\<close> show "set q' \<subseteq> F" by blast
    qed (use l Suc.prems(3) in simp)
  next
    case (obj m l parts)
    then have l: "l \<in> F" using Suc.prems(2) by (simp add: val_refs_def)
    show ?thesis
    proof (rule collect_stays_inside [OF obj(7)])
      fix k q y q' assume "object_entry (canonicalize m h) (heap_get h l) k q = Inr (y, q')" "set q \<subseteq> F"
      then obtain w y' where "own_property (heap_get h l) k = Some (Data True w)"
        "canonicalize m h w q = Inr (y', q')"
        by (auto simp: object_entry_Inr object_field_Inr)
      with own_property_refs closed l obj(1) Suc.IH \<open>set q \<subseteq> F\<close> show "set q' \<subseteq> F" by blast
    qed (use l Suc.prems(3) in simp)
  qed
qed simp

text \<open>
  \<open>later h h'\<close>: \<open>h'\<close> can come about from \<open>h\<close> by running any code. Frozen objects are as they were;
  everything else may have changed, and objects may have been added.
\<close>

definition later :: "heap \<Rightarrow> heap \<Rightarrow> bool" where
  "later h h' \<longleftrightarrow> length h \<le> length h' \<and> (\<forall>l. ob_frozen (heap_get h l) \<longrightarrow> heap_get h' l = heap_get h l)"

theorem frozen_payload_is_sealed:
  assumes freeze: "freeze_approved_payload h v = (Inr (), h')" and enc: "canonicalize_payload h' v = Inr s"
    and "later h' h''"
  shows "canonicalize_payload h'' v = Inr s"
proof -
  obtain vis where "freeze_payload (payload_depth h) v (h, []) = (Inr (), h', vis)"
    using freeze by (auto simp: freeze_approved_payload_def split: prod.splits)
  then have sealed: "seals (h, []) (h', vis)" and root: "val_refs v \<subseteq> set vis"
    using freeze_payload_seals by fastforce+
  obtain t where t: "canonicalize (payload_depth h') h' v [] = Inr (s, t)"
    using enc by (auto simp: canonicalize_payload_def canonicalize_within_def and_then_Inr)
  have "set t \<subseteq> set vis"
    by (rule canonicalize_stays_inside [OF t]) (use sealed root in \<open>auto simp: seals_def\<close>)
  then have "\<forall>l \<in> set t. heap_get h'' l = heap_get h' l"
    using sealed \<open>later h' h''\<close> by (auto simp: seals_def later_def)
  then have "\<forall>l \<in> set t. same_data h' h'' l"
    by (simp add: same_data_eq)
  moreover have "payload_depth h' \<le> payload_depth h''"
    using \<open>later h' h''\<close> by (simp add: later_def payload_depth_def)
  ultimately have "canonicalize (payload_depth h'') h'' v [] = Inr (s, t)"
    by (rule canonicalize_frame [OF t])
  then show ?thesis by (simp add: canonicalize_payload_def canonicalize_within_def)
qed

end
