(* ===== verification/Instant.thy ===== *)
theory Instant
  imports Js_Values
begin

text \<open>
  Instants as the language's \<open>Date\<close> represents them: milliseconds since 1970 in the Gregorian
  calendar without leap seconds, at most 8.64e15 of them in either direction. \<open>iso_of_millis\<close> is
  \<open>toISOString\<close>. \<open>parse_instant\<close> is the test the stores make, that \<open>new Date(s)\<close> is valid and
  prints as \<open>s\<close> again (\<open>parseCanonicalInstant\<close> in the approval stores): it reads the fields at
  their positions and then compares with \<open>iso_of_millis\<close>.
\<close>

section \<open>Days and dates\<close>

text \<open>Years start in March, so that the leap day is the last day of a year.\<close>

definition DAYS_BEFORE_1970 :: int where
  "DAYS_BEFORE_1970 = 719468"

definition split_days :: "int \<Rightarrow> int \<times> int" where
  "split_days z =
    (let doe = z mod 146097; c = min 3 (doe div 36524);
         doc = doe - 36524 * c; doq = doc mod 1461; a = min 3 (doq div 365)
     in (400 * (z div 146097) + 100 * c + 4 * (doc div 1461) + a, doq - 365 * a))"

definition month_of_day :: "int \<Rightarrow> int" where
  "month_of_day doy = (5 * doy + 2) div 153"

definition date_of_days :: "int \<Rightarrow> int \<times> int \<times> int" where
  "date_of_days days =
    (case split_days (days + DAYS_BEFORE_1970) of (y, doy) \<Rightarrow>
       let mp = month_of_day doy; m = (if mp < 10 then mp + 3 else mp - 9)
       in (if m \<le> 2 then y + 1 else y, m, doy - (153 * mp + 2) div 5 + 1))"

definition days_of_date :: "int \<Rightarrow> int \<Rightarrow> int \<Rightarrow> int" where
  "days_of_date year m d =
    (let y = (if m \<le> 2 then year - 1 else year);
         mp = (if m \<le> 2 then m + 9 else m - 3);
         doy = (153 * mp + 2) div 5 + d - 1
     in 365 * y + y div 4 - y div 100 + y div 400 + doy - DAYS_BEFORE_1970)"

lemma leap_day_count:
  fixes era c q y :: int
  assumes "0 \<le> c" "c \<le> 3" "0 \<le> q" "q \<le> 24" "0 \<le> y" "y \<le> 3" "Y = 400 * era + 100 * c + 4 * q + y"
  shows "365 * Y + Y div 4 - Y div 100 + Y div 400 = 146097 * era + 36524 * c + 1461 * q + 365 * y"
proof -
  have "Y div 4 = 100 * era + 25 * c + q" "Y div 100 = 4 * era + c" "Y div 400 = era"
    using assms by linarith+
  then show ?thesis using assms(7) by simp
qed

lemma split_days:
  assumes "split_days z = (y, doy)"
  shows "365 * y + y div 4 - y div 100 + y div 400 + doy = z \<and> 0 \<le> doy \<and> doy \<le> 365"
proof -
  define doe where "doe = z mod 146097"
  define c where "c = min 3 (doe div 36524)"
  define doc where "doc = doe - 36524 * c"
  define q where "q = doc div 1461"
  define doq where "doq = doc mod 1461"
  define a where "a = min 3 (doq div 365)"
  have "0 \<le> doe" "doe < 146097" by (simp_all add: doe_def)
  then have c: "0 \<le> c" "c \<le> 3" and doc: "0 \<le> doc" "doc \<le> 36524"
    unfolding doc_def c_def by linarith+
  have q: "0 \<le> q" "q \<le> 24" using doc unfolding q_def by linarith+
  have doq: "0 \<le> doq" "doq \<le> 1460" by (simp_all add: doq_def)
  then have a: "0 \<le> a" "a \<le> 3" and doy: "0 \<le> doq - 365 * a" "doq - 365 * a \<le> 365"
    unfolding a_def by linarith+
  have y: "y = 400 * (z div 146097) + 100 * c + 4 * q + a" and "doy = doq - 365 * a"
    using assms unfolding split_days_def Let_def doe_def [symmetric] c_def [symmetric]
      doc_def [symmetric] q_def [symmetric] doq_def [symmetric] a_def [symmetric] by simp_all
  moreover have "365 * y + y div 4 - y div 100 + y div 400
      = 146097 * (z div 146097) + 36524 * c + 1461 * q + 365 * a"
    by (rule leap_day_count [OF c q a y])
  moreover have "1461 * q + doq = doc" "doc + 36524 * c = doe" "146097 * (z div 146097) + doe = z"
    by (simp_all add: q_def doq_def doc_def doe_def)
  ultimately show ?thesis using doy by linarith
qed

lemma month_of_day:
  assumes "0 \<le> doy" and "doy \<le> 365"
  shows "0 \<le> month_of_day doy \<and> month_of_day doy \<le> 11 \<and>
    0 \<le> doy - (153 * month_of_day doy + 2) div 5 \<and> doy - (153 * month_of_day doy + 2) div 5 \<le> 30"
proof -
  have "153 * month_of_day doy \<le> 5 * doy + 2" "5 * doy + 2 < 153 * month_of_day doy + 153"
    unfolding month_of_day_def by linarith+
  with assms show ?thesis by linarith
qed

lemma date_of_days:
  assumes "date_of_days z = (y, m, d)"
  shows "days_of_date y m d = z \<and> 1 \<le> m \<and> m \<le> 12 \<and> 1 \<le> d \<and> d \<le> 31"
proof -
  obtain Y doy where s: "split_days (z + DAYS_BEFORE_1970) = (Y, doy)" by fastforce
  define mp where "mp = month_of_day doy"
  define m' where "m' = (if mp < 10 then mp + 3 else mp - 9)"
  have "date_of_days z = (if m' \<le> 2 then Y + 1 else Y, m', doy - (153 * mp + 2) div 5 + 1)"
    unfolding date_of_days_def s Let_def prod.case mp_def m'_def ..
  then have eq: "m = m'" "y = (if m' \<le> 2 then Y + 1 else Y)" "d = doy - (153 * mp + 2) div 5 + 1"
    using assms by simp_all
  have f: "y = (if m \<le> 2 then Y + 1 else Y)" "d = doy - (153 * mp + 2) div 5 + 1"
    using eq by blast+
  have m: "m = (if mp < 10 then mp + 3 else mp - 9)" using eq(1) unfolding m'_def .
  note Y = split_days [OF s]
  then have mp: "0 \<le> mp \<and> mp \<le> 11 \<and> 0 \<le> doy - (153 * mp + 2) div 5 \<and> doy - (153 * mp + 2) div 5 \<le> 30"
    unfolding mp_def by (intro month_of_day) simp_all
  then have "(if m \<le> 2 then y - 1 else y) = Y" "(if m \<le> 2 then m + 9 else m - 3) = mp"
    using m f(1) by auto
  then have "days_of_date y m d = z"
    using Y by (simp add: days_of_date_def Let_def f(2))
  moreover have "1 \<le> m \<and> m \<le> 12" using m mp by auto
  ultimately show ?thesis using mp f(2) by simp
qed

section \<open>The printed form\<close>

definition pad :: "nat \<Rightarrow> nat \<Rightarrow> string" where
  "pad w n = replicate (w - length (nat_str n)) (CHR ''0'') @ nat_str n"

definition year_str :: "int \<Rightarrow> string" where
  "year_str y =
    (if 0 \<le> y \<and> y \<le> 9999 then pad 4 (nat y)
     else (if y < 0 then ''-'' else ''+'') @ pad 6 (nat \<bar>y\<bar>))"

definition MAX_TIME :: int where
  "MAX_TIME = 8640000000000000"

definition valid_time :: "int \<Rightarrow> bool" where
  "valid_time ms \<longleftrightarrow> \<bar>ms\<bar> \<le> MAX_TIME"

definition iso_of_millis :: "int \<Rightarrow> string" where
  "iso_of_millis ms =
    (case date_of_days (ms div 86400000) of (y, m, d) \<Rightarrow>
       let t = ms mod 86400000 in
       year_str y @ ''-'' @ pad 2 (nat m) @ ''-'' @ pad 2 (nat d) @ ''T'' @
       pad 2 (nat (t div 3600000)) @ '':'' @ pad 2 (nat (t div 60000 mod 60)) @ '':'' @
       pad 2 (nat (t div 1000 mod 60)) @ ''.'' @ pad 3 (nat (t mod 1000)) @ ''Z'')"

definition read_year :: "string \<Rightarrow> int \<times> string" where
  "read_year s =
    (case s of
       [] \<Rightarrow> (0, [])
     | c # cs \<Rightarrow>
         if c = CHR ''-'' then (- int (digits_val (take 6 cs)), drop 6 cs)
         else if c = CHR ''+'' then (int (digits_val (take 6 cs)), drop 6 cs)
         else (int (digits_val (take 4 s)), drop 4 s))"

definition field_at :: "nat \<Rightarrow> nat \<Rightarrow> string \<Rightarrow> int" where
  "field_at i w s = int (digits_val (take w (drop i s)))"

definition millis_of_fields :: "string \<Rightarrow> int" where
  "millis_of_fields s =
    (case read_year s of (y, r) \<Rightarrow>
       days_of_date y (field_at 1 2 r) (field_at 4 2 r) * 86400000 +
       field_at 7 2 r * 3600000 + field_at 10 2 r * 60000 + field_at 13 2 r * 1000 + field_at 16 3 r)"

definition parse_instant :: "string \<Rightarrow> int option" where
  "parse_instant s =
    (let ms = millis_of_fields s in if valid_time ms \<and> iso_of_millis ms = s then Some ms else None)"

lemma length_nat_str: "n < 10 ^ w \<Longrightarrow> 0 < w \<Longrightarrow> length (nat_str n) \<le> w"
proof (induction w arbitrary: n)
  case (Suc w)
  show ?case
  proof (cases "n < 10")
    case True
    then show ?thesis by (simp add: nat_str.simps [of n])
  next
    case False
    with Suc.prems have "n div 10 < 10 ^ w" "0 < w" by (auto intro: Suc_leI gr0I)
    with Suc.IH False show ?thesis by (simp add: nat_str.simps [of n])
  qed
qed simp

lemma digits_val_zeros: "digits_val (replicate k (CHR ''0'') @ s) = digits_val s"
  by (induction k) (simp_all add: digits_val_def digit_val_def)

lemma pad_val [simp]: "digits_val (pad w n) = n"
  by (simp add: pad_def digits_val_zeros nat_str_val)

lemma length_pad: "n < 10 ^ w \<Longrightarrow> 0 < w \<Longrightarrow> length (pad w n) = w"
  using length_nat_str [of n w] by (simp add: pad_def)

lemma pad_digits: "\<forall>c \<in> set (pad w n). is_digit c"
  using nat_str_digits [of n] by (auto simp: pad_def is_digit_def)

lemma read_year_str:
  assumes "\<bar>y\<bar> < 1000000"
  shows "read_year (year_str y @ r) = (y, r)"
proof (cases "0 \<le> y \<and> y \<le> 9999")
  case True
  then have l: "length (pad 4 (nat y)) = 4" by (intro length_pad) auto
  obtain c cs where p: "pad 4 (nat y) = c # cs" using l by (cases "pad 4 (nat y)") auto
  then have "is_digit c" using pad_digits [of 4 "nat y"] by simp
  then have "c \<noteq> CHR ''-''" "c \<noteq> CHR ''+''" by (auto simp: is_digit_def)
  moreover have "digits_val (c # cs) = nat y" by (metis p pad_val)
  moreover have "length cs = 3" using l p by simp
  ultimately show ?thesis using True p by (simp add: year_str_def read_year_def)
next
  case False
  then have "length (pad 6 (nat \<bar>y\<bar>)) = 6" using assms by (intro length_pad) auto
  with False show ?thesis by (auto simp: year_str_def read_year_def)
qed

lemma date_of_days_year:
  assumes "date_of_days z = (y, m, d)" and "\<bar>z\<bar> \<le> 100000000"
  shows "\<bar>y\<bar> < 1000000"
proof -
  obtain Y doy where s: "split_days (z + DAYS_BEFORE_1970) = (Y, doy)" by fastforce
  then have "y = Y \<or> y = Y + 1"
    using assms by (auto simp: date_of_days_def Let_def)
  moreover have "\<bar>Y\<bar> < 500000"
    using split_days [OF s] assms(2) unfolding DAYS_BEFORE_1970_def by linarith
  ultimately show ?thesis by auto
qed

lemma time_of_day:
  fixes t :: int
  assumes "0 \<le> t" and "t < 86400000"
  shows "t div 3600000 < 100" and "t div 60000 mod 60 < 100" and "t div 1000 mod 60 < 100"
    and "t mod 1000 < 1000" and "t div 3600000 * 3600000 + t div 60000 mod 60 * 60000 + t div 1000 mod 60 * 1000 + t mod 1000 = t"
proof -
  define a b c where "a = t div 3600000" and "b = t div 60000" and "c = t div 1000"
  have "b div 60 = a" "c div 60 = b"
    by (simp_all add: a_def b_def c_def flip: zdiv_zmult2_eq)
  then have "b = a * 60 + b mod 60" "c = b * 60 + c mod 60"
    by (metis div_mult_mod_eq)+
  moreover have "t = c * 1000 + t mod 1000" by (simp add: c_def)
  ultimately have "a * 3600000 + b mod 60 * 60000 + c mod 60 * 1000 + t mod 1000 = t"
    by (simp add: algebra_simps)
  then show "t div 3600000 * 3600000 + t div 60000 mod 60 * 60000 + t div 1000 mod 60 * 1000 + t mod 1000 = t"
    by (simp add: a_def b_def c_def)
qed (use assms in \<open>simp_all add: pos_mod_bound less_trans [OF pos_mod_bound]\<close>)

lemma millis_of_iso:
  assumes "valid_time ms"
  shows "millis_of_fields (iso_of_millis ms) = ms"
proof -
  obtain y m d where date: "date_of_days (ms div 86400000) = (y, m, d)" by (metis prod_cases3)
  define t where "t = ms mod 86400000"
  have t: "0 \<le> t" "t < 86400000" by (simp_all add: t_def)
  have "\<bar>ms div 86400000\<bar> \<le> 100000000"
    using zdiv_mono1 [of ms MAX_TIME 86400000] zdiv_mono1 [of "- MAX_TIME" ms 86400000] assms
    by (simp add: valid_time_def MAX_TIME_def abs_le_iff)
  then have y: "\<bar>y\<bar> < 1000000" by (rule date_of_days_year [OF date])
  note md = date_of_days [OF date]
  define h mi s x where "h = nat (t div 3600000)" and "mi = nat (t div 60000 mod 60)"
    and "s = nat (t div 1000 mod 60)" and "x = nat (t mod 1000)"
  have bounds: "h < 100" "mi < 100" "s < 100" "x < 1000"
    using time_of_day(1-4) [OF t] t(1)
    by (simp_all add: h_def mi_def s_def x_def nat_less_iff pos_imp_zdiv_nonneg_iff)
  have len: "length (pad 2 (nat m)) = 2" "length (pad 2 (nat d)) = 2" "length (pad 2 h) = 2"
    "length (pad 2 mi) = 2" "length (pad 2 s) = 2" "length (pad 3 x) = 3"
    using conjunct2 [OF md] bounds by (auto intro!: length_pad)
  have iso: "iso_of_millis ms = year_str y @ (''-'' @ pad 2 (nat m) @ ''-'' @ pad 2 (nat d) @ ''T'' @
      pad 2 h @ '':'' @ pad 2 mi @ '':'' @ pad 2 s @ ''.'' @ pad 3 x @ ''Z'')"
    by (simp add: iso_of_millis_def date Let_def t_def h_def mi_def s_def x_def)
  have "int h * 3600000 + int mi * 60000 + int s * 1000 + int x = t"
  proof -
    have "int h = t div 3600000" "int mi = t div 60000 mod 60" "int s = t div 1000 mod 60" "int x = t mod 1000"
      using t(1) by (simp_all add: h_def mi_def s_def x_def pos_imp_zdiv_nonneg_iff)
    then show ?thesis using time_of_day(5) [OF t] by (simp only:)
  qed
  moreover have "int (nat m) = m" "int (nat d) = d" using md by auto
  then have "millis_of_fields (iso_of_millis ms) = days_of_date y m d * 86400000 +
      int h * 3600000 + int mi * 60000 + int s * 1000 + int x"
    unfolding iso millis_of_fields_def read_year_str [OF y] by (simp add: field_at_def len drop_Cons')
  moreover have "days_of_date y m d = ms div 86400000" using md by simp
  moreover have "ms div 86400000 * 86400000 + t = ms" by (simp add: t_def)
  ultimately show ?thesis by (simp only: add.assoc)
qed

lemma parse_instant_iso: "valid_time ms \<Longrightarrow> parse_instant (iso_of_millis ms) = Some ms"
  by (simp add: parse_instant_def millis_of_iso)

lemma parse_instant_Some: "parse_instant s = Some ms \<longleftrightarrow> valid_time ms \<and> iso_of_millis ms = s"
  using millis_of_iso [of ms] by (auto simp: parse_instant_def Let_def split: if_splits)

lemma iso_inj: "valid_time a \<Longrightarrow> valid_time b \<Longrightarrow> iso_of_millis a = iso_of_millis b \<Longrightarrow> a = b"
  by (metis millis_of_iso)

section \<open>The current time\<close>

text \<open>\<open>now()\<close> gives a \<open>Date\<close>; its time value is absent when the \<open>Date\<close> is invalid.\<close>

type_synonym clock = "int option"

definition to_iso :: "clock \<Rightarrow> string res" where
  "to_iso now = (case now of Some ms \<Rightarrow> Inr (iso_of_millis ms) | None \<Rightarrow> Inl (RangeErr ''Invalid time value''))"

definition parse_canonical_instant :: "string \<Rightarrow> string \<Rightarrow> int res" where
  "parse_canonical_instant label s =
    (case parse_instant s of
       Some ms \<Rightarrow> Inr ms
     | None \<Rightarrow> Inl (TypeErr (label @ '' must be a canonical UTC ISO-8601 instant.'')))"

definition wf_clock :: "clock \<Rightarrow> bool" where
  "wf_clock now = (case now of Some ms \<Rightarrow> valid_time ms | None \<Rightarrow> True)"

lemma parse_canonical_Inr:
  "parse_canonical_instant l s = Inr ms \<longleftrightarrow> valid_time ms \<and> iso_of_millis ms = s"
  by (auto simp: parse_canonical_instant_def parse_instant_Some parse_instant_iso split: option.splits
    dest: iso_inj)

end
