(* ===== verification/File_Lock.thy ===== *)
theory File_Lock
  imports Json_File
begin

text \<open>
  The cross-process critical section the three file-backed stores share: \<open>acquireCrossProcessLock\<close>
  and \<open>serializeFileOperation\<close> of \<open>src/tasks/task-claim-store.ts\<close> (repeated in
  \<open>src/policies/json-file-tool-approval-store.ts\<close> and, as \<open>serializeWrite\<close>, in
  \<open>src/memory/memory-store.ts\<close>).

  First the wait for the lock directory in isolation, with its time-out; then a step relation over
  any number of processes that share one file. A process runs its queued operations one at a time;
  creating the lock directory is atomic; the file changes only by an atomic rename; a write, the
  removal of the lock directory, and the process itself can fail at any point. Times are whole
  milliseconds.
\<close>

section \<open>Waiting for the lock\<close>

text \<open>What is locked: how the store calls its storage, the path it was given, and the lock directory.\<close>

record lock_target =
  lt_what :: string
  lt_path :: string
  lt_lock :: string

definition storage_locked :: "lock_target \<Rightarrow> nat \<Rightarrow> js_error" where
  "storage_locked tg timeout = RuntimeError STORAGE_LOCKED
    (lt_what tg @ '' storage at '' @ lt_path tg @ '' is locked by another process or an unreconciled prior process.'')
    (Some [(''filePath'', JStr (lt_path tg)), (''lockPath'', JStr (lt_lock tg)),
      (''timeoutMs'', JNum (num_of_nat timeout))])"

text \<open>What \<open>mkdir\<close> of the lock directory did; \<open>LockExists\<close> is the error code \<open>EEXIST\<close>.\<close>

datatype mkdir_outcome = LockCreated | LockExists | MkdirFailed js_error

datatype attempt = Acquired | GiveUp js_error | RetryAfter nat

text \<open>One turn of the \<open>while (true)\<close> loop.\<close>

definition lock_attempt :: "lock_target \<Rightarrow> nat \<Rightarrow> nat \<Rightarrow> nat \<Rightarrow> mkdir_outcome \<Rightarrow> attempt" where
  "lock_attempt tg timeout retry elapsed made =
    (case made of
       LockCreated \<Rightarrow> Acquired
     | MkdirFailed e \<Rightarrow> GiveUp e
     | LockExists \<Rightarrow>
         if timeout \<le> elapsed then GiveUp (storage_locked tg timeout)
         else RetryAfter (min retry (max 1 (timeout - elapsed))))"

text \<open>The memory store computes the remaining time first; \<open>performance.now\<close> differences are signed.\<close>

definition memory_lock_attempt :: "lock_target \<Rightarrow> nat \<Rightarrow> nat \<Rightarrow> nat \<Rightarrow> mkdir_outcome \<Rightarrow> attempt" where
  "memory_lock_attempt tg timeout retry elapsed made =
    (case made of
       LockCreated \<Rightarrow> Acquired
     | MkdirFailed e \<Rightarrow> GiveUp e
     | LockExists \<Rightarrow>
         let remaining = int timeout - int elapsed in
         if remaining \<le> 0 then GiveUp (storage_locked tg timeout)
         else RetryAfter (nat (min (int retry) (max 1 remaining))))"

text \<open>
  The loop against an environment: \<open>made t\<close> is the outcome of \<open>mkdir\<close> at time \<open>t\<close>, and a sleep of
  \<open>d\<close> that starts at \<open>t\<close> lasts \<open>d + late t\<close>. The result is the time of acquisition. The retry delay
  is positive in every constructed store, so a sleep of \<open>0\<close> does not occur.
\<close>

function acquire_lock ::
  "(nat \<Rightarrow> nat \<Rightarrow> nat \<Rightarrow> mkdir_outcome \<Rightarrow> attempt) \<Rightarrow> (nat \<Rightarrow> mkdir_outcome) \<Rightarrow> (nat \<Rightarrow> nat) \<Rightarrow> nat \<Rightarrow> nat \<Rightarrow> nat
    \<Rightarrow> nat res" where
  "acquire_lock attempt made late timeout retry t =
    (case attempt timeout retry t (made t) of
       Acquired \<Rightarrow> Inr t
     | GiveUp e \<Rightarrow> Inl e
     | RetryAfter d \<Rightarrow>
         if d = 0 \<or> timeout \<le> t then Inl (PlainErr [])
         else acquire_lock attempt made late timeout retry (t + d + late t))"
  by pat_completeness auto
termination
  by (relation "measure (\<lambda>(attempt, made, late, timeout, retry, t). timeout - t)") auto

declare acquire_lock.simps [simp del]

text \<open>The three copies of the loop.\<close>

definition acquire_claim_lock ::
  "string \<Rightarrow> string \<Rightarrow> (nat \<Rightarrow> mkdir_outcome) \<Rightarrow> (nat \<Rightarrow> nat) \<Rightarrow> nat \<Rightarrow> nat \<Rightarrow> nat res" where
  "acquire_claim_lock path lock made late timeout retry =
    acquire_lock (lock_attempt \<lparr>lt_what = ''Task claim'', lt_path = path, lt_lock = lock\<rparr>) made late timeout retry 0"

definition acquire_approval_lock ::
  "string \<Rightarrow> string \<Rightarrow> (nat \<Rightarrow> mkdir_outcome) \<Rightarrow> (nat \<Rightarrow> nat) \<Rightarrow> nat \<Rightarrow> nat \<Rightarrow> nat res" where
  "acquire_approval_lock path lock made late timeout retry =
    acquire_lock (lock_attempt \<lparr>lt_what = ''Tool approval'', lt_path = path, lt_lock = lock\<rparr>) made late timeout retry 0"

definition acquire_memory_lock ::
  "string \<Rightarrow> string \<Rightarrow> (nat \<Rightarrow> mkdir_outcome) \<Rightarrow> (nat \<Rightarrow> nat) \<Rightarrow> nat \<Rightarrow> nat \<Rightarrow> nat res" where
  "acquire_memory_lock path lock made late timeout retry =
    acquire_lock (memory_lock_attempt \<lparr>lt_what = ''Memory'', lt_path = path, lt_lock = lock\<rparr>) made late timeout retry 0"

lemma lock_attempts_agree: "memory_lock_attempt = lock_attempt"
  by (auto simp: fun_eq_iff memory_lock_attempt_def lock_attempt_def Let_def min_def max_def split: mkdir_outcome.split)

lemma lock_attempt_cases:
  assumes "0 < retry"
  shows "(case lock_attempt tg timeout retry t m of
     Acquired \<Rightarrow> m = LockCreated
   | GiveUp e \<Rightarrow> m = MkdirFailed e \<or> m = LockExists \<and> timeout \<le> t \<and> e = storage_locked tg timeout
   | RetryAfter d \<Rightarrow> m = LockExists \<and> 0 < d \<and> d \<le> retry \<and> t < timeout)"
  using assms by (auto simp: lock_attempt_def split: mkdir_outcome.split)

text \<open>
  What a wait promises: its last attempt is the first one or follows an attempt that found the directory
  before the time-out, by one sleep; it then holds the lock that its \<open>mkdir\<close> created, or it fails with
  the error of that \<open>mkdir\<close>, or with \<open>STORAGE_LOCKED\<close> because the directory is there at the time-out.
\<close>

definition lock_wait_ok ::
  "lock_target \<Rightarrow> (nat \<Rightarrow> mkdir_outcome) \<Rightarrow> (nat \<Rightarrow> nat) \<Rightarrow> nat \<Rightarrow> nat \<Rightarrow> nat \<Rightarrow> nat res \<Rightarrow> bool" where
  "lock_wait_ok tg made late timeout retry t r \<longleftrightarrow>
    (\<exists>u. (u = t \<or> made t = LockExists \<and>
        (\<exists>v \<ge> t. v < timeout \<and> made v = LockExists \<and> v < u \<and> u \<le> v + retry + late v)) \<and>
      (case r of
         Inr w \<Rightarrow> w = u \<and> made u = LockCreated
       | Inl e \<Rightarrow> made u = MkdirFailed e \<or> made u = LockExists \<and> timeout \<le> u \<and> e = storage_locked tg timeout))"

lemma acquire_lock_result:
  "0 < retry \<Longrightarrow> lock_wait_ok tg made late timeout retry t (acquire_lock (lock_attempt tg) made late timeout retry t)"
proof (induction "lock_attempt tg" made late timeout retry t rule: acquire_lock.induct)
  case (1 made late timeout retry t)
  note c = lock_attempt_cases [OF "1.prems", where tg = tg and timeout = timeout and t = t and m = "made t"]
  note step = acquire_lock.simps [of "lock_attempt tg" made late timeout retry t]
  show ?case
  proof (cases "lock_attempt tg timeout retry t (made t)")
    case Acquired
    then show ?thesis using c by (simp add: step lock_wait_ok_def)
  next
    case (GiveUp e)
    then show ?thesis using c by (auto simp: step lock_wait_ok_def)
  next
    case (RetryAfter d)
    then have d: "made t = LockExists" "0 < d" "d \<le> retry" "t < timeout" using c by auto
    then have go_on: "\<not> (d = 0 \<or> timeout \<le> t)" by simp
    have eq: "acquire_lock (lock_attempt tg) made late timeout retry t =
        acquire_lock (lock_attempt tg) made late timeout retry (t + d + late t)"
      using RetryAfter go_on by (simp add: step)
    from "1.hyps" [OF RetryAfter go_on "1.prems"] obtain u where
      u: "u = t + d + late t \<or> (\<exists>v \<ge> t + d + late t. v < timeout \<and> made v = LockExists \<and> v < u \<and> u \<le> v + retry + late v)"
      and r: "case acquire_lock (lock_attempt tg) made late timeout retry (t + d + late t) of
         Inr w \<Rightarrow> w = u \<and> made u = LockCreated
       | Inl e \<Rightarrow> made u = MkdirFailed e \<or> made u = LockExists \<and> timeout \<le> u \<and> e = storage_locked tg timeout"
      unfolding lock_wait_ok_def by blast
    have "\<exists>v \<ge> t. v < timeout \<and> made v = LockExists \<and> v < u \<and> u \<le> v + retry + late v"
      using u d by (elim disjE) (intro exI [of _ t], simp, meson add_leD1)
    then show ?thesis
      unfolding lock_wait_ok_def eq using r d(1) by blast
  qed
qed

lemma storage_locked_code: "error_code_of (storage_locked tg timeout) = Some STORAGE_LOCKED"
  by (simp add: storage_locked_def)

section \<open>Processes sharing one file\<close>

datatype 'r phase =
    Idle
  | Waiting "'r file_op"
  | Holding "'r file_op"
  | Computed "'r file_op" "'r res" "json option"
  | Committed "'r file_op" "'r res"
  | Crashed

text \<open>
  \<open>history\<close> records, in order, the operations that ran to their commit with the result they computed;
  \<open>results\<close> records what each process handed to its caller.
\<close>

type_synonym 'r event_log = "(nat \<times> 'r file_op \<times> 'r res) list"

record 'r lock_system =
  disk :: storage_file
  lock_dir :: bool
  phase :: "nat \<Rightarrow> 'r phase"
  waiting_ops :: "nat \<Rightarrow> 'r file_op list"
  results :: "'r event_log"
  history :: "'r event_log"

inductive lock_step :: "'r lock_system \<Rightarrow> 'r lock_system \<Rightarrow> bool" where
  enqueue: "phase s p \<noteq> Crashed \<Longrightarrow>
    lock_step s (s\<lparr>waiting_ops := (waiting_ops s)(p := waiting_ops s p @ [op])\<rparr>)"
| start: "phase s p = Idle \<Longrightarrow> waiting_ops s p = op # ops \<Longrightarrow>
    lock_step s (s\<lparr>phase := (phase s)(p := Waiting op), waiting_ops := (waiting_ops s)(p := ops)\<rparr>)"
| acquire: "phase s p = Waiting op \<Longrightarrow> \<not> lock_dir s \<Longrightarrow>
    lock_step s (s\<lparr>phase := (phase s)(p := Holding op), lock_dir := True\<rparr>)"
| timeout: "phase s p = Waiting op \<Longrightarrow> lock_dir s \<Longrightarrow>
    lock_step s (s\<lparr>phase := (phase s)(p := Idle),
      results := results s @ [(p, op, Inl (storage_locked tg ms))]\<rparr>)"
| acquire_fails: "phase s p = Waiting op \<Longrightarrow>
    lock_step s (s\<lparr>phase := (phase s)(p := Idle), results := results s @ [(p, op, Inl e)]\<rparr>)"
| load: "phase s p = Holding op \<Longrightarrow> op (disk s) = (r, d) \<Longrightarrow>
    lock_step s (s\<lparr>phase := (phase s)(p := Computed op r d)\<rparr>)"
| publish: "phase s p = Computed op r d \<Longrightarrow>
    lock_step s (s\<lparr>phase := (phase s)(p := Committed op r), disk := published (disk s) d,
      history := history s @ [(p, op, r)]\<rparr>)"
| write_fails: "phase s p = Computed op r (Some d) \<Longrightarrow>
    lock_step s (s\<lparr>phase := (phase s)(p := Committed op (Inl e))\<rparr>)"
| release: "phase s p = Committed op r \<Longrightarrow>
    lock_step s (s\<lparr>phase := (phase s)(p := Idle), lock_dir := False,
      results := results s @ [(p, op, r)]\<rparr>)"
| release_fails: "phase s p = Committed op r \<Longrightarrow>
    lock_step s (s\<lparr>phase := (phase s)(p := Idle), results := results s @ [(p, op, r)]\<rparr>)"
| crash: "lock_step s (s\<lparr>phase := (phase s)(p := Crashed)\<rparr>)"

abbreviation lock_steps :: "'r lock_system \<Rightarrow> 'r lock_system \<Rightarrow> bool" where
  "lock_steps \<equiv> rtranclp lock_step"

definition initial_system :: "storage_file \<Rightarrow> 'r lock_system" where
  "initial_system f = \<lparr>disk = f, lock_dir = False, phase = (\<lambda>_. Idle), waiting_ops = (\<lambda>_. []),
     results = [], history = []\<rparr>"

definition critical :: "'r phase \<Rightarrow> bool" where
  "critical ph =
    (case ph of Holding _ \<Rightarrow> True | Computed _ _ _ \<Rightarrow> True | Committed _ _ \<Rightarrow> True | _ \<Rightarrow> False)"

lemma critical_simps [simp]:
  "\<not> critical Idle" "\<not> critical (Waiting op)" "critical (Holding op)" "critical (Computed op r d)"
  "critical (Committed op r)" "\<not> critical Crashed"
  by (simp_all add: critical_def)

text \<open>A sequential run of operations: the file it leaves and the results in order.\<close>

definition replay :: "storage_file \<Rightarrow> 'r file_op list \<Rightarrow> storage_file" where
  "replay f ops = fold (\<lambda>op g. snd (run_op op g)) ops f"

fun outcomes :: "storage_file \<Rightarrow> 'r file_op list \<Rightarrow> 'r res list" where
  "outcomes f [] = []"
| "outcomes f (op # ops) = fst (run_op op f) # outcomes (snd (run_op op f)) ops"

lemma replay_simps [simp]:
  "replay f [] = f" "replay f (ops @ [op]) = snd (run_op op (replay f ops))"
  "replay f (op # ops) = replay (snd (run_op op f)) ops"
  by (simp_all add: replay_def)

lemma outcomes_snoc [simp]:
  "outcomes f (ops @ [op]) = outcomes f ops @ [fst (run_op op (replay f ops))]"
  by (induction ops arbitrary: f) auto

definition ops_of :: "'r event_log \<Rightarrow> 'r file_op list" where
  "ops_of h = map (\<lambda>(p, op, r). op) h"

definition results_of :: "'r event_log \<Rightarrow> 'r res list" where
  "results_of h = map (\<lambda>(p, op, r). r) h"

lemma of_log_simps [simp]:
  "ops_of [] = []" "ops_of (h @ [(p, op, r)]) = ops_of h @ [op]"
  "results_of [] = []" "results_of (h @ [(p, op, r)]) = results_of h @ [r]"
  by (simp_all add: ops_of_def results_of_def)

text \<open>
  The lock is held by at most one process, the file is the sequential run of the history with the
  recorded results, and every success reported to a caller is an entry of the history.
\<close>

definition exclusive :: "'r lock_system \<Rightarrow> bool" where
  "exclusive s \<longleftrightarrow>
    (\<forall>p. critical (phase s p) \<longrightarrow> lock_dir s) \<and>
    (\<forall>p q. critical (phase s p) \<and> critical (phase s q) \<longrightarrow> p = q) \<and>
    (\<forall>p op r d. phase s p = Computed op r d \<longrightarrow> op (disk s) = (r, d))"

definition sequential :: "storage_file \<Rightarrow> 'r lock_system \<Rightarrow> bool" where
  "sequential f s \<longleftrightarrow>
    disk s = replay f (ops_of (history s)) \<and>
    results_of (history s) = outcomes f (ops_of (history s))"

definition reported :: "'r lock_system \<Rightarrow> bool" where
  "reported s \<longleftrightarrow>
    (\<forall>p op v. (p, op, Inr v) \<in> set (results s) \<or> phase s p = Committed op (Inr v) \<longrightarrow>
       (p, op, Inr v) \<in> set (history s))"

lemma exclusive_stay:
  "exclusive s \<Longrightarrow> critical (phase s p) \<Longrightarrow> critical ph \<Longrightarrow>
    (\<And>op r d. ph = Computed op r d \<Longrightarrow> op (disk s) = (r, d)) \<Longrightarrow>
    exclusive (s\<lparr>phase := (phase s)(p := ph)\<rparr>)"
  by (auto simp: exclusive_def)

lemma exclusive_leave:
  "exclusive s \<Longrightarrow> \<not> critical ph \<Longrightarrow> exclusive (s\<lparr>phase := (phase s)(p := ph)\<rparr>)"
  by (auto simp: exclusive_def)

lemma exclusive_only:
  assumes "exclusive s" and "critical (phase s p)"
  shows "lock_dir s" and "critical (phase s q) \<Longrightarrow> q = p" and "phase s q = Computed op r d \<Longrightarrow> q = p"
proof -
  show "lock_dir s" and one: "critical (phase s q) \<Longrightarrow> q = p"
    using assms unfolding exclusive_def by blast+
  show "phase s q = Computed op r d \<Longrightarrow> q = p" using one by simp
qed

lemma exclusive_publish:
  assumes "exclusive s" and "phase s p = Computed op r d"
  shows "exclusive (s\<lparr>phase := (phase s)(p := Committed op r), disk := published (disk s) d,
    history := h\<rparr>)"
proof -
  have p: "critical (phase s p)" by (simp add: assms(2))
  show ?thesis
    using exclusive_only [OF assms(1) p] by (auto simp: exclusive_def)
qed

lemma lock_step_exclusive: "lock_step s t \<Longrightarrow> exclusive s \<Longrightarrow> exclusive t"
proof (induction rule: lock_step.induct)
  case (enqueue s p op)
  then show ?case by (simp add: exclusive_def)
next
  case (start s p op ops)
  then have "exclusive (s\<lparr>phase := (phase s)(p := Waiting op)\<rparr>)" by (simp add: exclusive_leave)
  then show ?case by (simp add: exclusive_def)
next
  case (acquire s p op)
  then show ?case by (auto simp: exclusive_def)
next
  case (timeout s p op tg ms)
  then have "exclusive (s\<lparr>phase := (phase s)(p := Idle)\<rparr>)" by (simp add: exclusive_leave)
  then show ?case by (simp add: exclusive_def)
next
  case (acquire_fails s p op e)
  then have "exclusive (s\<lparr>phase := (phase s)(p := Idle)\<rparr>)" by (simp add: exclusive_leave)
  then show ?case by (simp add: exclusive_def)
next
  case (load s p op r d)
  then show ?case by (intro exclusive_stay) auto
next
  case (publish s p op r d)
  then show ?case by (simp add: exclusive_publish)
next
  case (write_fails s p op r d e)
  then show ?case by (intro exclusive_stay) auto
next
  case (release s p op r)
  then have p: "critical (phase s p)" by simp
  show ?case
    using exclusive_only [OF release(2) p] release(2) by (auto simp: exclusive_def)
next
  case (release_fails s p op r)
  then have "exclusive (s\<lparr>phase := (phase s)(p := Idle)\<rparr>)" by (simp add: exclusive_leave)
  then show ?case by (simp add: exclusive_def)
next
  case (crash s p)
  then show ?case by (simp add: exclusive_leave)
qed

lemma lock_step_sequential:
  "lock_step s t \<Longrightarrow> exclusive s \<Longrightarrow> sequential f s \<Longrightarrow> sequential f t"
proof (induction rule: lock_step.induct)
  case (publish s p op r d)
  then have "op (disk s) = (r, d)" by (auto simp: exclusive_def)
  then have "run_op op (disk s) = (r, published (disk s) d)" by (simp add: run_op_def)
  with publish(3) show ?case by (auto simp: sequential_def)
qed (simp_all add: sequential_def)

lemma lock_step_reported: "lock_step s t \<Longrightarrow> reported s \<Longrightarrow> reported t"
  by (induction rule: lock_step.induct) (auto simp: reported_def split: if_splits)

lemma initial_invariants:
  "exclusive (initial_system f)" "sequential f (initial_system f)" "reported (initial_system f)"
  by (simp_all add: exclusive_def sequential_def reported_def initial_system_def)

lemma lock_steps_invariants:
  "lock_steps (initial_system f) s \<Longrightarrow> exclusive s \<and> sequential f s \<and> reported s"
  by (induction rule: rtranclp_induct)
    (auto simp: initial_invariants dest: lock_step_exclusive lock_step_sequential lock_step_reported)

text \<open>A lock directory nobody holds, as a crash or a failed removal leaves it.\<close>

definition stranded :: "'r lock_system \<Rightarrow> bool" where
  "stranded s \<longleftrightarrow> lock_dir s \<and> (\<forall>p. \<not> critical (phase s p))"

lemma stranded_not_critical:
  "stranded s \<Longrightarrow> phase s p \<noteq> Holding op" "stranded s \<Longrightarrow> phase s p \<noteq> Computed op r d"
  "stranded s \<Longrightarrow> phase s p \<noteq> Committed op r"
  by (metis critical_simps stranded_def)+

lemma stranded_step: "lock_step s t \<Longrightarrow> stranded s \<Longrightarrow> stranded t \<and> disk t = disk s \<and> history t = history s"
  by (induction rule: lock_step.induct) (auto simp: stranded_not_critical, auto simp: stranded_def)

lemma stranded_steps:
  "lock_steps s t \<Longrightarrow> stranded s \<Longrightarrow> stranded t \<and> disk t = disk s \<and> history t = history s"
  by (induction rule: rtranclp_induct) (auto dest: stranded_step)

text \<open>A process that runs alone, and does not fail, completes any list of operations.\<close>

definition rested :: "'r file_op list \<Rightarrow> 'r lock_system \<Rightarrow> bool" where
  "rested ops s \<longleftrightarrow> phase s 0 = Idle \<and> \<not> lock_dir s \<and> waiting_ops s 0 = [] \<and> ops_of (history s) = ops"

lemma solo_operation:
  assumes "rested ops s"
  shows "\<exists>t. lock_steps s t \<and> rested (ops @ [op]) t"
proof -
  let ?at = "\<lambda>s ph. s\<lparr>phase := (phase s)(0 := ph)\<rparr>"
  obtain r d where run: "op (disk s) = (r, d)" by force
  let ?s1 = "s\<lparr>waiting_ops := (waiting_ops s)(0 := [op])\<rparr>"
  let ?s2 = "s\<lparr>phase := (phase s)(0 := Waiting op), waiting_ops := (waiting_ops s)(0 := [])\<rparr>"
  let ?s3 = "?s2\<lparr>phase := (phase s)(0 := Holding op), lock_dir := True\<rparr>"
  let ?s4 = "?s3\<lparr>phase := (phase s)(0 := Computed op r d)\<rparr>"
  let ?s5 = "?s4\<lparr>phase := (phase s)(0 := Committed op r), disk := published (disk s) d,
      history := history s @ [(0, op, r)]\<rparr>"
  let ?s6 = "?s5\<lparr>phase := (phase s)(0 := Idle), lock_dir := False, results := results s @ [(0, op, r)]\<rparr>"
  have idle: "phase s 0 = Idle" "\<not> lock_dir s" "waiting_ops s 0 = []" using assms by (auto simp: rested_def)
  have "lock_step s ?s1" using lock_step.enqueue [of s 0 op] idle by simp
  moreover have "lock_step ?s1 ?s2" using lock_step.start [of ?s1 0 op "[]"] idle by simp
  moreover have "lock_step ?s2 ?s3" using lock_step.acquire [of ?s2 0 op] idle by simp
  moreover have "lock_step ?s3 ?s4" using lock_step.load [of ?s3 0 op r d] run by simp
  moreover have "lock_step ?s4 ?s5" using lock_step.publish [of ?s4 0 op r d] by simp
  moreover have "lock_step ?s5 ?s6" using lock_step.release [of ?s5 0 op r] by simp
  ultimately have "lock_steps s ?s6"
    by (elim rtranclp.rtrancl_into_rtrancl [OF rtranclp.rtrancl_into_rtrancl [OF rtranclp.rtrancl_into_rtrancl
      [OF rtranclp.rtrancl_into_rtrancl [OF rtranclp.rtrancl_into_rtrancl [OF r_into_rtranclp]]]]])
  moreover have "rested (ops @ [op]) ?s6" using assms by (simp add: rested_def)
  ultimately show ?thesis by blast
qed

lemma solo_run: "\<exists>s. lock_steps (initial_system f) s \<and> rested ops s"
proof (induction ops rule: rev_induct)
  case Nil
  have "rested [] (initial_system f)" by (simp add: rested_def initial_system_def)
  then show ?case by blast
next
  case (snoc op ops)
  then show ?case using solo_operation rtranclp_trans by metis
qed

end
