(* ===== verification/Approval_Store.thy ===== *)
theory Approval_Store
  imports Payload_Digest Instant File_Lock
begin

text \<open>
  The two human-approval authorities: \<open>InMemoryToolApprovalStore\<close> of
  \<open>src/policies/tool-approval-policy.ts\<close> and \<open>JsonFileToolApprovalStore\<close> of
  \<open>src/policies/json-file-tool-approval-store.ts\<close>. Every operation takes the heap its payload lives
  in and the clock it reads; SHA-256 is the parameter \<open>H\<close>.

  The abstract authority is the ledger of \<open>ledger_step\<close>: a list of grants to which a grant is
  appended, and in which a live grant is consumed or revoked once. Both stores are shown to be
  ledgers (locale \<open>approval_authority\<close>), and one-time consumption is proved for every ledger.
\<close>

section \<open>Records and requests\<close>

record approval_record =
  ap_id :: string
  ap_runtime :: string
  ap_task :: string
  ap_agent :: string
  ap_tool :: string
  ap_digest :: string
  ap_granted :: string
  ap_expires :: "string option"
  ap_consumed :: "string option"
  ap_revoked :: "string option"

record grant_request =
  gr_id :: "string option"
  gr_task :: string
  gr_agent :: string
  gr_tool :: string
  gr_payload :: jsval
  gr_expires :: "string option"

text \<open>The in-memory store also takes a request whose runtime is undefined.\<close>

record consume_request =
  cr_runtime :: "string option"
  cr_task :: string
  cr_agent :: string
  cr_tool :: string
  cr_payload :: jsval

record consume_decision =
  cd_approved :: bool
  cd_reason :: "string option"
  cd_approval :: "approval_record option"

definition denied :: "string \<Rightarrow> consume_decision" where
  "denied why = \<lparr>cd_approved = False, cd_reason = Some why, cd_approval = None\<rparr>"

definition approved :: "approval_record \<Rightarrow> consume_decision" where
  "approved r = \<lparr>cd_approved = True, cd_reason = None, cd_approval = Some r\<rparr>"

definition require_non_empty :: "string \<Rightarrow> string \<Rightarrow> string res" where
  "require_non_empty label s =
    (if blank s then Inl (TypeErr (label @ '' must be a non-empty string.'')) else Inr s)"

definition quoted :: "string \<Rightarrow> string" where
  "quoted s = [CHR 0x22] @ s @ [CHR 0x22]"

definition scoped_to :: "string \<Rightarrow> string" where
  "scoped_to runtime = ''Human approval authority is scoped to runtime '' @ quoted runtime @ ''.''"

definition needs_approval :: "string \<Rightarrow> string" where
  "needs_approval tool =
    ''Tool '' @ quoted tool @ '' requires a current human approval bound to this invocation.''"

definition no_valid_time :: string where
  "no_valid_time = ''Human approval authority could not establish a valid current time.''"

text \<open>The part of a record that a consumption must match, and whether the record is still open.\<close>

definition binds :: "string \<Rightarrow> consume_request \<Rightarrow> string \<Rightarrow> approval_record \<Rightarrow> bool" where
  "binds runtime q digest r \<longleftrightarrow> ap_runtime r = runtime \<and> ap_task r = cr_task q \<and> ap_agent r = cr_agent q \<and>
    ap_tool r = cr_tool q \<and> ap_digest r = digest"

definition live :: "approval_record \<Rightarrow> bool" where
  "live r \<longleftrightarrow> ap_consumed r = None \<and> ap_revoked r = None"

text \<open>\<open>expiresAt\<close> of a request: absent, or a canonical instant after the grant.\<close>

definition check_expiry :: "string option \<Rightarrow> int \<Rightarrow> unit res" where
  "check_expiry expires now =
    (case expires of
       None \<Rightarrow> Inr ()
     | Some e \<Rightarrow> and_then (parse_canonical_instant ''expiresAt'' e) (\<lambda>ms.
         if ms \<le> now then Inl (RangeErr ''expiresAt must be later than the grant instant.'') else Inr ()))"

definition already_exists :: "string \<Rightarrow> js_error" where
  "already_exists i = RangeErr (''Approval '' @ quoted i @ '' already exists.'')"

section \<open>The in-memory store\<close>

record approval_store =
  st_runtime :: string
  st_approvals :: "(string, approval_record) table"

definition new_approval_store :: "string \<Rightarrow> approval_store res" where
  "new_approval_store runtime =
    and_then (require_non_empty ''runtimeId'' runtime) (\<lambda>r.
    Inr \<lparr>st_runtime = r, st_approvals = []\<rparr>)"

definition grant_id :: "grant_request \<Rightarrow> string \<Rightarrow> string res" where
  "grant_id q uuid = (case gr_id q of None \<Rightarrow> Inr uuid | Some i \<Rightarrow> require_non_empty ''approvalId'' i)"

definition approve ::
  "(string \<Rightarrow> string) \<Rightarrow> heap \<Rightarrow> grant_request \<Rightarrow> string \<Rightarrow> clock \<Rightarrow> approval_store
    \<Rightarrow> approval_record res \<times> approval_store" where
  "approve H h q uuid now st =
    (case and_then (require_non_empty ''taskId'' (gr_task q)) (\<lambda>task.
          and_then (require_non_empty ''agentId'' (gr_agent q)) (\<lambda>agent.
          and_then (require_non_empty ''toolName'' (gr_tool q)) (\<lambda>tool.
          and_then (grant_id q uuid) (\<lambda>i.
          if table_has (st_approvals st) i then Inl (already_exists i)
          else
            and_then (to_iso now) (\<lambda>granted.
            and_then (check_expiry (gr_expires q) (the now)) (\<lambda>_.
            and_then (digest_legacy H h (gr_payload q)) (\<lambda>digest.
            Inr \<lparr>ap_id = i, ap_runtime = st_runtime st, ap_task = task, ap_agent = agent,
              ap_tool = tool, ap_digest = digest, ap_granted = granted, ap_expires = gr_expires q,
              ap_consumed = None, ap_revoked = None\<rparr>))))))) of
       Inl e \<Rightarrow> (Inl e, st)
     | Inr r \<Rightarrow> (Inr r, st\<lparr>st_approvals := AList.update (ap_id r) r (st_approvals st)\<rparr>))"

definition revoke :: "string \<Rightarrow> clock \<Rightarrow> approval_store \<Rightarrow> bool res \<times> approval_store" where
  "revoke i now st =
    (case require_non_empty ''approvalId'' i of
       Inl e \<Rightarrow> (Inl e, st)
     | Inr i \<Rightarrow>
         (case map_of (st_approvals st) i of
            None \<Rightarrow> (Inr False, st)
          | Some r \<Rightarrow>
              if ap_consumed r \<noteq> None \<or> ap_revoked r \<noteq> None then (Inr False, st)
              else (case to_iso now of
                  Inl e \<Rightarrow> (Inl e, st)
                | Inr t \<Rightarrow> (Inr True, st\<lparr>st_approvals :=
                    AList.update i (r\<lparr>ap_revoked := Some t\<rparr>) (st_approvals st)\<rparr>))))"

definition get_approval :: "string \<Rightarrow> approval_store \<Rightarrow> approval_record option" where
  "get_approval i st = map_of (st_approvals st) i"

text \<open>
  The loop of \<open>consume\<close>: the first entry whose record passes the tests, unless a test of an earlier
  one throws.
\<close>

fun first_eligible :: "('r \<Rightarrow> bool res) \<Rightarrow> 'r list \<Rightarrow> nat option res" where
  "first_eligible p [] = Inr None"
| "first_eligible p (r # rs) =
    and_then (p r) (\<lambda>b.
    if b then Inr (Some 0) else and_then (first_eligible p rs) (\<lambda>i. Inr (map_option Suc i)))"

definition not_expired :: "int \<Rightarrow> approval_record \<Rightarrow> bool res" where
  "not_expired now r =
    (case ap_expires r of
       None \<Rightarrow> Inr True
     | Some e \<Rightarrow> and_then (parse_canonical_instant ''expiresAt'' e) (\<lambda>ms. Inr (now < ms)))"

definition eligible :: "string \<Rightarrow> consume_request \<Rightarrow> string \<Rightarrow> int \<Rightarrow> approval_record \<Rightarrow> bool res" where
  "eligible runtime q digest now r =
    (if \<not> binds runtime q digest r \<or> ap_consumed r \<noteq> None \<or> ap_revoked r \<noteq> None then Inr False
     else not_expired now r)"

text \<open>The runtime a request names: the store's own when it leaves it out, none when it is blank.\<close>

definition requested_runtime :: "approval_store \<Rightarrow> consume_request \<Rightarrow> string res" where
  "requested_runtime st q =
    (case cr_runtime q of None \<Rightarrow> Inr (st_runtime st) | Some t \<Rightarrow> require_non_empty ''runtimeId'' t)"

definition consume ::
  "(string \<Rightarrow> string) \<Rightarrow> heap \<Rightarrow> consume_request \<Rightarrow> clock \<Rightarrow> approval_store
    \<Rightarrow> consume_decision res \<times> approval_store" where
  "consume H h q now st =
    (case requested_runtime st q of
       Inl _ \<Rightarrow> (Inr (denied ''Tool invocation is missing a valid runtime identity.''), st)
     | Inr runtime \<Rightarrow>
         if runtime \<noteq> st_runtime st then (Inr (denied (scoped_to (st_runtime st))), st)
         else
           (case digest_legacy H h (cr_payload q) of
              Inl _ \<Rightarrow>
                (Inr (denied ''Tool payload cannot be deterministically bound to a human approval.''), st)
            | Inr digest \<Rightarrow>
                (case now of
                   None \<Rightarrow> (Inr (denied no_valid_time), st)
                 | Some ms \<Rightarrow>
                     (case first_eligible (eligible runtime q digest ms) (map snd (st_approvals st)) of
                        Inl e \<Rightarrow> (Inl e, st)
                      | Inr None \<Rightarrow> (Inr (denied (needs_approval (cr_tool q))), st)
                      | Inr (Some i) \<Rightarrow>
                          let (k, r) = st_approvals st ! i;
                              c = r\<lparr>ap_consumed := Some (iso_of_millis ms)\<rparr>
                          in (Inr (approved c),
                              st\<lparr>st_approvals := AList.update k c (st_approvals st)\<rparr>)))))"

section \<open>The file store\<close>

definition field_order :: "string list" where
  "field_order = [''approvalId'', ''runtimeId'', ''taskId'', ''agentId'', ''toolName'', ''payloadDigest'', ''grantedAt'']"

definition record_keys :: "string list" where
  "record_keys = field_order @ [''expiresAt'', ''consumedAt'', ''revokedAt'']"

definition document_keys :: "string list" where
  "document_keys = [''schemaVersion'', ''runtimeId'', ''approvals'']"

definition assert_exact_object :: "json \<Rightarrow> string \<Rightarrow> string list \<Rightarrow> unit res" where
  "assert_exact_object v label allowed =
    (case v of
       JsObj fs \<Rightarrow>
         (case find (\<lambda>k. k \<notin> set allowed) (map fst fs) of
            None \<Rightarrow> Inr ()
          | Some k \<Rightarrow> Inl (TypeErr (label @ '' contains unknown field '' @ quoted k @ ''.'')))
     | _ \<Rightarrow> Inl (TypeErr (label @ '' must be a JSON object.'')))"

definition require_field :: "json \<Rightarrow> string \<Rightarrow> string res" where
  "require_field v k =
    (case json_field v k of
       Some (JsStr s) \<Rightarrow> require_non_empty k s
     | _ \<Rightarrow> Inl (TypeErr (k @ '' must be a non-empty string.'')))"

definition is_hex_digit :: "char \<Rightarrow> bool" where
  "is_hex_digit c \<longleftrightarrow> is_digit c \<or> 97 \<le> (of_char c :: nat) \<and> (of_char c :: nat) \<le> 102"

definition is_sha256_hex :: "string \<Rightarrow> bool" where
  "is_sha256_hex s \<longleftrightarrow> length s = 64 \<and> list_all is_hex_digit s"

definition digest_field :: "json \<Rightarrow> string res" where
  "digest_field v =
    (case json_field v ''payloadDigest'' of
       Some (JsStr s) \<Rightarrow>
         if is_sha256_hex s then Inr s
         else Inl (TypeErr ''payloadDigest must be a lowercase SHA-256 hex digest.'')
     | _ \<Rightarrow> Inl (TypeErr ''payloadDigest must be a lowercase SHA-256 hex digest.''))"

definition instant_value :: "string \<Rightarrow> json \<Rightarrow> (string \<times> int) res" where
  "instant_value label v =
    (case v of
       JsStr s \<Rightarrow> and_then (parse_canonical_instant label s) (\<lambda>ms. Inr (s, ms))
     | _ \<Rightarrow> Inl (TypeErr (label @ '' must be a canonical UTC ISO-8601 instant.'')))"

definition optional_instant :: "json \<Rightarrow> string \<Rightarrow> (string \<times> int) option res" where
  "optional_instant v k =
    (case json_field v k of
       None \<Rightarrow> Inr None
     | Some j \<Rightarrow> and_then (instant_value k j) (\<lambda>x. Inr (Some x)))"

definition ensure :: "bool \<Rightarrow> string \<Rightarrow> unit res" where
  "ensure b m = (if b then Inr () else Inl (TypeErr m))"

definition validate_record :: "string \<Rightarrow> json \<Rightarrow> approval_record res" where
  "validate_record runtime v =
    and_then (assert_exact_object v ''approval record'' record_keys) (\<lambda>_.
    and_then (case find (\<lambda>k. json_field v k = None) field_order of
        None \<Rightarrow> Inr ()
      | Some k \<Rightarrow> Inl (TypeErr (''approval record is missing required field '' @ quoted k @ ''.''))) (\<lambda>_.
    and_then (require_field v ''approvalId'') (\<lambda>i.
    and_then (require_field v ''runtimeId'') (\<lambda>r.
    and_then (require_field v ''taskId'') (\<lambda>task.
    and_then (require_field v ''agentId'') (\<lambda>agent.
    and_then (require_field v ''toolName'') (\<lambda>tool.
    and_then (digest_field v) (\<lambda>digest.
    and_then (ensure (r = runtime) (''approval record runtimeId '' @ quoted r @
        '' does not match store runtimeId '' @ quoted runtime @ ''.'')) (\<lambda>_.
    and_then (instant_value ''grantedAt'' (the (json_field v ''grantedAt''))) (\<lambda>(granted, granted_ms).
    and_then (optional_instant v ''expiresAt'') (\<lambda>expires.
    and_then (ensure (case expires of None \<Rightarrow> True | Some (_, e) \<Rightarrow> granted_ms < e)
        ''expiresAt must be later than grantedAt.'') (\<lambda>_.
    and_then (optional_instant v ''consumedAt'') (\<lambda>consumed.
    and_then (ensure (case consumed of None \<Rightarrow> True | Some (_, c) \<Rightarrow> granted_ms \<le> c)
        ''consumedAt must not be earlier than grantedAt.'') (\<lambda>_.
    and_then (ensure (case (consumed, expires) of (Some (_, c), Some (_, e)) \<Rightarrow> c < e | _ \<Rightarrow> True)
        ''consumedAt must be earlier than expiresAt.'') (\<lambda>_.
    and_then (optional_instant v ''revokedAt'') (\<lambda>revoked.
    and_then (ensure (case revoked of None \<Rightarrow> True | Some (_, x) \<Rightarrow> granted_ms \<le> x)
        ''revokedAt must not be earlier than grantedAt.'') (\<lambda>_.
    and_then (ensure (consumed = None \<or> revoked = None)
        ''approval record cannot be both consumed and revoked.'') (\<lambda>_.
    Inr \<lparr>ap_id = i, ap_runtime = r, ap_task = task, ap_agent = agent, ap_tool = tool,
      ap_digest = digest, ap_granted = granted, ap_expires = map_option fst expires,
      ap_consumed = map_option fst consumed, ap_revoked = map_option fst revoked\<rparr>))))))))))))))))))"

fun validate_all :: "string \<Rightarrow> json list \<Rightarrow> approval_record list res" where
  "validate_all runtime [] = Inr []"
| "validate_all runtime (v # vs) =
    and_then (validate_record runtime v) (\<lambda>r.
    and_then (validate_all runtime vs) (\<lambda>rs. Inr (r # rs)))"

fun first_duplicate :: "string list \<Rightarrow> string list \<Rightarrow> string option" where
  "first_duplicate seen [] = None"
| "first_duplicate seen (i # is) = (if i \<in> set seen then Some i else first_duplicate (i # seen) is)"

definition read_state :: "string \<Rightarrow> json \<Rightarrow> approval_record list res" where
  "read_state runtime doc =
    and_then (assert_exact_object doc ''tool approval storage'' document_keys) (\<lambda>_.
    and_then (ensure (case json_field doc ''schemaVersion'' of
          Some (JsNum v) \<Rightarrow> num_is_integer v \<and> num_int v = 1
        | _ \<Rightarrow> False)
        ''schemaVersion must equal 1.'') (\<lambda>_.
    and_then (ensure (json_field doc ''runtimeId'' = Some (JsStr runtime))
        (''stored runtimeId must equal '' @ quoted runtime @ ''.'')) (\<lambda>_.
    case json_field doc ''approvals'' of
      Some (JsArr vs) \<Rightarrow>
        and_then (validate_all runtime vs) (\<lambda>rs.
        case first_duplicate [] (map ap_id rs) of
          None \<Rightarrow> Inr rs
        | Some i \<Rightarrow> Inl (TypeErr (''duplicate approvalId '' @ quoted i @ '' in durable state.'')))
    | _ \<Rightarrow> Inl (TypeErr ''approvals must be an array.''))))"

definition corrupted_approvals :: "string \<Rightarrow> string \<Rightarrow> js_error" where
  "corrupted_approvals path reason = RuntimeError STORAGE_CORRUPTED
    (''Corrupted tool approval storage file at '' @ path @ '': '' @ reason @ ''.'')
    (Some [(''filePath'', JStr path)])"

record approval_file =
  af_path :: string
  af_runtime :: string

definition load_state :: "approval_file \<Rightarrow> storage_file \<Rightarrow> approval_record list res" where
  "load_state cfg f =
    (case f of
       NoFile \<Rightarrow> Inr []
     | BlankFile \<Rightarrow> Inl (corrupted_approvals (af_path cfg) ''storage file is empty'')
     | NotJson _ \<Rightarrow> Inl (corrupted_approvals (af_path cfg) ''storage file is not valid JSON'')
     | Document doc \<Rightarrow>
         (case read_state (af_runtime cfg) doc of
            Inr rs \<Rightarrow> Inr rs
          | Inl e \<Rightarrow> Inl (corrupted_approvals (af_path cfg)
              (case error_message e of Some m \<Rightarrow> m | None \<Rightarrow> ''invalid durable approval state''))))"

text \<open>The document that is written: absent optional fields are not printed.\<close>

definition json_of_approval :: "approval_record \<Rightarrow> json" where
  "json_of_approval r = JsObj
    ([(''approvalId'', JsStr (ap_id r)), (''runtimeId'', JsStr (ap_runtime r)),
      (''taskId'', JsStr (ap_task r)), (''agentId'', JsStr (ap_agent r)),
      (''toolName'', JsStr (ap_tool r)), (''payloadDigest'', JsStr (ap_digest r)),
      (''grantedAt'', JsStr (ap_granted r))] @
     (case ap_expires r of None \<Rightarrow> [] | Some t \<Rightarrow> [(''expiresAt'', JsStr t)]) @
     (case ap_consumed r of None \<Rightarrow> [] | Some t \<Rightarrow> [(''consumedAt'', JsStr t)]) @
     (case ap_revoked r of None \<Rightarrow> [] | Some t \<Rightarrow> [(''revokedAt'', JsStr t)]))"

definition json_of_state :: "approval_file \<Rightarrow> approval_record list \<Rightarrow> json" where
  "json_of_state cfg rs = JsObj
    [(''schemaVersion'', JsNum (Fin 1 0)), (''runtimeId'', JsStr (af_runtime cfg)),
     (''approvals'', JsArr (map json_of_approval rs))]"

definition current_instant :: "clock \<Rightarrow> (string \<times> int) res" where
  "current_instant now =
    (case now of
       None \<Rightarrow> Inl (TypeErr ''Approval authority current time must be valid.'')
     | Some ms \<Rightarrow> Inr (iso_of_millis ms, ms))"

definition new_approval_file :: "string \<Rightarrow> string \<Rightarrow> jsnum option \<Rightarrow> jsnum option \<Rightarrow> approval_file res" where
  "new_approval_file path runtime lock_timeout retry_delay =
    (if blank path then Inl (TypeErr ''tool approval storage path must be a non-empty string.'')
     else
       and_then (require_non_empty ''runtimeId'' runtime) (\<lambda>r.
       and_then (timer_option (case lock_timeout of None \<Rightarrow> Fin 5 3 | Some t \<Rightarrow> t) ''lockTimeoutMs'' 0) (\<lambda>_.
       and_then (timer_option (case retry_delay of None \<Rightarrow> Fin 1 1 | Some d \<Rightarrow> d) ''lockRetryDelayMs'' 1) (\<lambda>_.
       Inr \<lparr>af_path = path, af_runtime = r\<rparr>))))"

text \<open>
  An operation validates its request first and then runs under the lock; a request that is refused
  never touches the file.
\<close>

definition file_approve_locked ::
  "approval_file \<Rightarrow> grant_request \<Rightarrow> string \<Rightarrow> string \<Rightarrow> clock \<Rightarrow> approval_record file_op" where
  "file_approve_locked cfg q i digest now f =
    (case and_then (load_state cfg f) (\<lambda>rs.
          if list_ex (\<lambda>r. ap_id r = i) rs then Inl (already_exists i)
          else
            and_then (current_instant now) (\<lambda>(granted, ms).
            and_then (check_expiry (gr_expires q) ms) (\<lambda>_.
            Inr (rs, \<lparr>ap_id = i, ap_runtime = af_runtime cfg, ap_task = gr_task q,
              ap_agent = gr_agent q, ap_tool = gr_tool q, ap_digest = digest, ap_granted = granted,
              ap_expires = gr_expires q, ap_consumed = None, ap_revoked = None\<rparr>)))) of
       Inl e \<Rightarrow> (Inl e, None)
     | Inr (rs, r) \<Rightarrow> (Inr r, Some (json_of_state cfg (rs @ [r]))))"

definition file_approve ::
  "(string \<Rightarrow> string) \<Rightarrow> heap \<Rightarrow> approval_file \<Rightarrow> grant_request \<Rightarrow> string \<Rightarrow> clock
    \<Rightarrow> approval_record file_op" where
  "file_approve H h cfg q uuid now f =
    (case and_then (require_non_empty ''taskId'' (gr_task q)) (\<lambda>_.
          and_then (require_non_empty ''agentId'' (gr_agent q)) (\<lambda>_.
          and_then (require_non_empty ''toolName'' (gr_tool q)) (\<lambda>_.
          and_then (grant_id q uuid) (\<lambda>i.
          and_then (digest_legacy H h (gr_payload q)) (\<lambda>digest. Inr (i, digest)))))) of
       Inl e \<Rightarrow> (Inl e, None)
     | Inr (i, digest) \<Rightarrow> file_approve_locked cfg q i digest now f)"

definition find_index :: "('a \<Rightarrow> bool) \<Rightarrow> 'a list \<Rightarrow> nat option" where
  "find_index p xs = find (\<lambda>i. p (xs ! i)) [0..<length xs]"

definition file_revoke :: "approval_file \<Rightarrow> string \<Rightarrow> clock \<Rightarrow> bool file_op" where
  "file_revoke cfg i now f =
    (case and_then (require_non_empty ''approvalId'' i) (\<lambda>_. load_state cfg f) of
       Inl e \<Rightarrow> (Inl e, None)
     | Inr rs \<Rightarrow>
         (case find_index (\<lambda>r. ap_id r = i) rs of
            None \<Rightarrow> (Inr False, None)
          | Some n \<Rightarrow>
              let r = rs ! n in
              if ap_consumed r \<noteq> None \<or> ap_revoked r \<noteq> None then (Inr False, None)
              else
                (case and_then (current_instant now) (\<lambda>(t, ms).
                      and_then (parse_canonical_instant ''grantedAt'' (ap_granted r)) (\<lambda>granted.
                      if ms < granted
                      then Inl (RangeErr ''Current time must not precede the approval grant.'')
                      else Inr t)) of
                   Inl e \<Rightarrow> (Inl e, None)
                 | Inr t \<Rightarrow> (Inr True, Some (json_of_state cfg (rs[n := r\<lparr>ap_revoked := Some t\<rparr>]))))))"

definition file_get :: "approval_file \<Rightarrow> string \<Rightarrow> approval_record option file_op" where
  "file_get cfg i f =
    (and_then (require_non_empty ''approvalId'' i) (\<lambda>_.
     and_then (load_state cfg f) (\<lambda>rs. Inr (find (\<lambda>r. ap_id r = i) rs))), None)"

definition file_eligible :: "string \<Rightarrow> consume_request \<Rightarrow> string \<Rightarrow> int \<Rightarrow> approval_record \<Rightarrow> bool res" where
  "file_eligible runtime q digest now r =
    (if \<not> binds runtime q digest r \<or> ap_consumed r \<noteq> None \<or> ap_revoked r \<noteq> None then Inr False
     else and_then (parse_canonical_instant ''grantedAt'' (ap_granted r)) (\<lambda>granted.
       if now < granted then Inr False else not_expired now r))"

definition file_consume_locked ::
  "approval_file \<Rightarrow> string \<Rightarrow> consume_request \<Rightarrow> string \<Rightarrow> clock \<Rightarrow> consume_decision file_op" where
  "file_consume_locked cfg runtime q digest now f =
    (case load_state cfg f of
       Inl e \<Rightarrow> (Inl e, None)
     | Inr rs \<Rightarrow>
         (case current_instant now of
            Inl _ \<Rightarrow> (Inr (denied no_valid_time), None)
          | Inr (t, ms) \<Rightarrow>
              (case first_eligible (file_eligible runtime q digest ms) rs of
                 Inl e \<Rightarrow> (Inl e, None)
               | Inr None \<Rightarrow> (Inr (denied (needs_approval (cr_tool q))), None)
               | Inr (Some i) \<Rightarrow>
                   let c = (rs ! i)\<lparr>ap_consumed := Some t\<rparr>
                   in (Inr (approved c), Some (json_of_state cfg (rs[i := c]))))))"

definition file_consume ::
  "(string \<Rightarrow> string) \<Rightarrow> heap \<Rightarrow> approval_file \<Rightarrow> consume_request \<Rightarrow> clock \<Rightarrow> consume_decision file_op" where
  "file_consume H h cfg q now f =
    (case and_then (case cr_runtime q of
              None \<Rightarrow> Inl (TypeErr ''runtimeId must be a non-empty string.'')
            | Some t \<Rightarrow> require_non_empty ''runtimeId'' t) (\<lambda>runtime.
          and_then (require_non_empty ''taskId'' (cr_task q)) (\<lambda>_.
          and_then (require_non_empty ''agentId'' (cr_agent q)) (\<lambda>_.
          and_then (require_non_empty ''toolName'' (cr_tool q)) (\<lambda>_.
          and_then (digest_legacy H h (cr_payload q)) (\<lambda>digest. Inr (runtime, digest)))))) of
       Inl _ \<Rightarrow> (Inr (denied
         ''Tool invocation cannot be deterministically bound to durable human approval authority.''), None)
     | Inr (runtime, digest) \<Rightarrow>
         if runtime \<noteq> af_runtime cfg then (Inr (denied (scoped_to (af_runtime cfg))), None)
         else file_consume_locked cfg runtime q digest now f)"

section \<open>The ledger of grants\<close>

text \<open>
  What one operation does to the list of grants, whatever the store: \<open>Granted\<close> appends a live grant
  with a new identity that says what was asked to be granted, \<open>Consumed\<close> closes one live grant of
  exactly the invocation that was asked about, \<open>Revoked\<close> closes one live grant; the rest stays. An event
  carries the request and the digest of the payload that came with it.
\<close>

datatype ledger_event =
    Granted grant_request string approval_record
  | Consumed consume_request string approval_record
  | Revoked string
  | NoEvent

definition granted_as :: "grant_request \<Rightarrow> string \<Rightarrow> approval_record \<Rightarrow> bool" where
  "granted_as q digest r \<longleftrightarrow> ap_task r = gr_task q \<and> ap_agent r = gr_agent q \<and> ap_tool r = gr_tool q \<and>
    ap_digest r = digest"

definition asked_for :: "consume_request \<Rightarrow> string \<Rightarrow> approval_record \<Rightarrow> bool" where
  "asked_for q digest r \<longleftrightarrow> (case cr_runtime q of None \<Rightarrow> True | Some t \<Rightarrow> ap_runtime r = t) \<and>
    ap_task r = cr_task q \<and> ap_agent r = cr_agent q \<and> ap_tool r = cr_tool q \<and> ap_digest r = digest"

inductive ledger_step :: "approval_record list \<Rightarrow> ledger_event \<Rightarrow> approval_record list \<Rightarrow> bool" where
  grant: "live r \<Longrightarrow> ap_id r \<notin> set (map ap_id rs) \<Longrightarrow> granted_as q digest r \<Longrightarrow>
    ledger_step rs (Granted q digest r) (rs @ [r])"
| spend: "i < length rs \<Longrightarrow> live (rs ! i) \<Longrightarrow> asked_for q digest (rs ! i) \<Longrightarrow>
    c = (rs ! i)\<lparr>ap_consumed := Some t\<rparr> \<Longrightarrow> ledger_step rs (Consumed q digest c) (rs[i := c])"
| revoke: "i < length rs \<Longrightarrow> live (rs ! i) \<Longrightarrow>
    ledger_step rs (Revoked (ap_id (rs ! i))) (rs[i := (rs ! i)\<lparr>ap_revoked := Some t\<rparr>])"
| stay: "ledger_step rs NoEvent rs"

definition same_binding :: "approval_record \<Rightarrow> approval_record \<Rightarrow> bool" where
  "same_binding r r' \<longleftrightarrow> ap_id r = ap_id r' \<and> ap_runtime r = ap_runtime r' \<and> ap_task r = ap_task r' \<and>
    ap_agent r = ap_agent r' \<and> ap_tool r = ap_tool r' \<and> ap_digest r = ap_digest r'"

definition consumes :: "string \<Rightarrow> ledger_event \<Rightarrow> bool" where
  "consumes i ev = (case ev of Consumed _ _ c \<Rightarrow> ap_id c = i | _ \<Rightarrow> False)"

text \<open>An identity that is taken and not live.\<close>

definition spent :: "string \<Rightarrow> approval_record list \<Rightarrow> bool" where
  "spent i rs \<longleftrightarrow> i \<in> set (map ap_id rs) \<and> (\<forall>r \<in> set rs. ap_id r = i \<longrightarrow> \<not> live r)"

lemma ap_id_updates [simp]:
  "ap_id (r\<lparr>ap_consumed := x\<rparr>) = ap_id r" "ap_id (r\<lparr>ap_revoked := x\<rparr>) = ap_id r"
  by simp_all

lemma map_id_update: "i < length rs \<Longrightarrow> ap_id c = ap_id (rs ! i) \<Longrightarrow> map ap_id (rs[i := c]) = map ap_id rs"
  by (metis map_update list_update_id nth_map)

lemma ledger_step_ids:
  "ledger_step rs ev rs' \<Longrightarrow> distinct (map ap_id rs) \<Longrightarrow> distinct (map ap_id rs') \<and> set (map ap_id rs) \<subseteq> set (map ap_id rs')"
  by (induction rule: ledger_step.induct) (auto simp: map_id_update)

lemma live_updates [simp]: "\<not> live (r\<lparr>ap_consumed := Some t\<rparr>)" "\<not> live (r\<lparr>ap_revoked := Some t\<rparr>)"
  by (simp_all add: live_def)

lemma ledger_step_spent:
  "ledger_step rs ev rs' \<Longrightarrow> spent i rs \<Longrightarrow> spent i rs' \<and> \<not> consumes i ev"
proof (induction rule: ledger_step.induct)
  case (grant r rs q digest)
  then show ?case by (auto simp: spent_def consumes_def)
next
  case (spend j rs q digest c t)
  then have "ap_id (rs ! j) \<noteq> i" by (auto simp: spent_def)
  moreover have "map ap_id (rs[j := c]) = map ap_id rs" using spend by (simp add: map_id_update)
  ultimately show ?case
    using spend by (auto simp: spent_def consumes_def dest!: set_update_subset_insert [THEN subsetD])
next
  case (revoke j rs t)
  have "map ap_id (rs[j := (rs ! j)\<lparr>ap_revoked := Some t\<rparr>]) = map ap_id rs"
    using revoke by (simp add: map_id_update)
  then show ?case
    using revoke by (auto simp: spent_def consumes_def dest!: set_update_subset_insert [THEN subsetD])
qed (auto simp: spent_def consumes_def)

lemma ledger_step_consumes:
  "ledger_step rs ev rs' \<Longrightarrow> distinct (map ap_id rs) \<Longrightarrow> consumes i ev \<Longrightarrow> spent i rs'"
proof (induction rule: ledger_step.induct)
  case (spend j rs q digest c t)
  have ids: "map ap_id (rs[j := c]) = map ap_id rs" using spend by (simp add: map_id_update)
  have "\<not> live r" if r: "r \<in> set (rs[j := c])" "ap_id r = i" for r
  proof -
    obtain k where k: "k < length rs" "r = rs[j := c] ! k" using r(1) by (metis in_set_conv_nth length_list_update)
    have "ap_id (rs[j := c] ! j) = i" using spend by (simp add: consumes_def)
    then have "map ap_id (rs[j := c]) ! k = map ap_id (rs[j := c]) ! j" using k r(2) spend(1) by simp
    then have "k = j" using spend(1,5) k(1) nth_eq_iff_index_eq [of "map ap_id rs" k j] unfolding ids by simp
    then show ?thesis using k spend by simp
  qed
  moreover have "i \<in> set (map ap_id rs)" using spend by (auto simp: consumes_def)
  ultimately show ?case using ids by (auto simp: spent_def simp del: set_map)
qed (auto simp: consumes_def)

text \<open>
  What one invocation is bound to. Grants and consumptions are counted by what their callers asked for,
  the live grants by what their records say: each grant adds one, each consumption uses one up.
\<close>

record binding =
  bd_runtime :: string
  bd_task :: string
  bd_agent :: string
  bd_tool :: string
  bd_digest :: string

definition recorded_for :: "binding \<Rightarrow> approval_record \<Rightarrow> bool" where
  "recorded_for b r \<longleftrightarrow> ap_runtime r = bd_runtime b \<and> ap_task r = bd_task b \<and> ap_agent r = bd_agent b \<and>
    ap_tool r = bd_tool b \<and> ap_digest r = bd_digest b"

definition grants :: "binding \<Rightarrow> ledger_event \<Rightarrow> bool" where
  "grants b ev =
    (case ev of
       Granted q digest r \<Rightarrow> ap_runtime r = bd_runtime b \<and> gr_task q = bd_task b \<and> gr_agent q = bd_agent b \<and>
         gr_tool q = bd_tool b \<and> digest = bd_digest b
     | _ \<Rightarrow> False)"

definition spends :: "binding \<Rightarrow> ledger_event \<Rightarrow> bool" where
  "spends b ev =
    (case ev of
       Consumed q digest c \<Rightarrow> (case cr_runtime q of None \<Rightarrow> ap_runtime c | Some t \<Rightarrow> t) = bd_runtime b \<and>
         cr_task q = bd_task b \<and> cr_agent q = bd_agent b \<and> cr_tool q = bd_tool b \<and> digest = bd_digest b
     | _ \<Rightarrow> False)"

definition live_for :: "binding \<Rightarrow> approval_record list \<Rightarrow> nat" where
  "live_for b rs = length (filter (\<lambda>r. live r \<and> recorded_for b r) rs)"

definition grants_for :: "binding \<Rightarrow> ledger_event list \<Rightarrow> nat" where
  "grants_for b evs = length (filter (grants b) evs)"

definition spends_for :: "binding \<Rightarrow> ledger_event list \<Rightarrow> nat" where
  "spends_for b evs = length (filter (spends b) evs)"

text \<open>The requests of a step and the record it writes or closes speak of one binding.\<close>

lemma spends_recorded:
  "asked_for q digest r \<Longrightarrow> ap_runtime c = ap_runtime r \<Longrightarrow> spends b (Consumed q digest c) \<longleftrightarrow> recorded_for b r"
  by (auto simp: asked_for_def spends_def recorded_for_def split: option.splits)

lemma grants_recorded: "granted_as q digest r \<Longrightarrow> grants b (Granted q digest r) \<longleftrightarrow> recorded_for b r"
  by (auto simp: granted_as_def grants_def recorded_for_def)

lemma other_events [simp]:
  "\<not> spends b (Granted q digest r)" "\<not> spends b (Revoked i)" "\<not> spends b NoEvent"
  "\<not> grants b (Consumed p digest r)" "\<not> grants b (Revoked i)" "\<not> grants b NoEvent"
  by (simp_all add: spends_def grants_def)

lemma length_filter_update:
  assumes "i < length xs" and "P (xs ! i)" and "\<not> P y"
  shows "length (filter P xs) = Suc (length (filter P (xs[i := y])))"
proof -
  have "xs = take i xs @ xs ! i # drop (Suc i) xs" using assms(1) by (rule id_take_nth_drop)
  then have "length (filter P xs) = length (filter P (take i xs @ xs ! i # drop (Suc i) xs))" by simp
  then show ?thesis using assms by (simp add: upd_conv_take_nth_drop)
qed

lemma length_filter_update_other:
  assumes "\<not> P y"
  shows "length (filter P (xs[i := y])) \<le> length (filter P xs)"
proof (cases "i < length xs")
  case True
  then have "xs = take i xs @ xs ! i # drop (Suc i) xs" by (rule id_take_nth_drop)
  then have "length (filter P xs) = length (filter P (take i xs @ xs ! i # drop (Suc i) xs))" by simp
  with True assms show ?thesis by (simp add: upd_conv_take_nth_drop)
qed (simp add: list_update_beyond)

lemma ledger_step_quota:
  "ledger_step rs ev rs' \<Longrightarrow> spends_for b [ev] + live_for b rs' \<le> live_for b rs + grants_for b [ev]"
proof (induction rule: ledger_step.induct)
  case (grant r rs q digest)
  then show ?case by (simp add: spends_for_def grants_for_def live_for_def grants_recorded)
next
  case (spend i rs q digest c t)
  then have asked: "spends b (Consumed q digest c) \<longleftrightarrow> recorded_for b (rs ! i)"
    by (intro spends_recorded) simp_all
  show ?case
  proof (cases "recorded_for b (rs ! i)")
    case True
    then have "live_for b rs = Suc (live_for b (rs[i := c]))"
      unfolding live_for_def by (intro length_filter_update) (use spend in auto)
    then show ?thesis by (simp add: spends_for_def)
  next
    case False
    then have "live_for b (rs[i := c]) \<le> live_for b rs"
      unfolding live_for_def by (intro length_filter_update_other) (use spend in auto)
    then show ?thesis using False asked by (simp add: spends_for_def)
  qed
next
  case (revoke i rs t)
  have "live_for b (rs[i := (rs ! i)\<lparr>ap_revoked := Some t\<rparr>]) \<le> live_for b rs"
    unfolding live_for_def by (intro length_filter_update_other) simp
  then show ?case by (simp add: spends_for_def)
qed (auto simp: spends_for_def grants_for_def live_for_def)

section \<open>What every approval authority guarantees\<close>

datatype approval_op =
    OpApprove heap grant_request string clock
  | OpRevoke string clock
  | OpGet string
  | OpConsume heap consume_request clock

datatype approval_result =
    AGrant approval_record
  | AFlag bool
  | AFound "approval_record option"
  | ADecision consume_decision

definition payload_digest :: "(string \<Rightarrow> string) \<Rightarrow> heap \<Rightarrow> jsval \<Rightarrow> string" where
  "payload_digest H h v = (case digest_legacy H h v of Inr d \<Rightarrow> d | Inl _ \<Rightarrow> [])"

text \<open>What an answer tells its caller about the ledger.\<close>

definition event_of :: "(string \<Rightarrow> string) \<Rightarrow> approval_op \<Rightarrow> approval_result res \<Rightarrow> ledger_event" where
  "event_of H op out =
    (case (op, out) of
       (OpApprove h q _ _, Inr (AGrant r)) \<Rightarrow> Granted q (payload_digest H h (gr_payload q)) r
     | (OpRevoke i _, Inr (AFlag True)) \<Rightarrow> Revoked i
     | (OpConsume h q _, Inr (ADecision d)) \<Rightarrow>
         (case cd_approval d of
            Some c \<Rightarrow> if cd_approved d then Consumed q (payload_digest H h (cr_payload q)) c else NoEvent
          | None \<Rightarrow> NoEvent)
     | _ \<Rightarrow> NoEvent)"

locale approval_authority =
  fixes H :: "string \<Rightarrow> string"
    and ok :: "'s \<Rightarrow> bool"
    and recs :: "'s \<Rightarrow> approval_record list"
    and well_formed :: "approval_op \<Rightarrow> bool"
    and exec :: "approval_op \<Rightarrow> 's \<Rightarrow> approval_result res \<times> 's"
  assumes ids_distinct: "ok s \<Longrightarrow> distinct (map ap_id (recs s))"
    and exec_ledger: "ok s \<Longrightarrow> well_formed op \<Longrightarrow> exec op s = (out, s') \<Longrightarrow>
      ok s' \<and> ledger_step (recs s) (event_of H op out) (recs s')"
begin

fun events :: "approval_op list \<Rightarrow> 's \<Rightarrow> ledger_event list \<times> 's" where
  "events [] s = ([], s)"
| "events (op # ops) s =
    (let (out, s1) = exec op s; (evs, s2) = events ops s1 in (event_of H op out # evs, s2))"

lemma events_Cons:
  assumes "ok s" and "list_all well_formed (op # ops)" and "events (op # ops) s = (evs, s')"
  obtains ev evs' s1 where "evs = ev # evs'" "ledger_step (recs s) ev (recs s1)" "ok s1"
    "list_all well_formed ops" "events ops s1 = (evs', s')"
proof -
  obtain out s1 where run: "exec op s = (out, s1)" by force
  obtain evs' s2 where rest: "events ops s1 = (evs', s2)" by force
  have "evs = event_of H op out # evs'" "s2 = s'" using assms(3) by (simp_all add: run rest)
  moreover have "ok s1 \<and> ledger_step (recs s) (event_of H op out) (recs s1)"
    by (rule exec_ledger [OF assms(1) _ run]) (use assms(2) in simp)
  ultimately show ?thesis
    using rest assms(2) by (intro that [of "event_of H op out" evs' s1]) simp_all
qed

lemma spent_stays:
  "ok s \<Longrightarrow> list_all well_formed ops \<Longrightarrow> events ops s = (evs, s') \<Longrightarrow> spent i (recs s) \<Longrightarrow>
    filter (consumes i) evs = []"
proof (induction ops arbitrary: s evs)
  case (Cons op ops)
  from Cons.prems(1-3) obtain ev evs' s1 where *: "evs = ev # evs'" "ledger_step (recs s) ev (recs s1)"
    "ok s1" "list_all well_formed ops" "events ops s1 = (evs', s')" by (rule events_Cons)
  then show ?case using Cons.IH [OF *(3-5)] ledger_step_spent [OF *(2) Cons.prems(4)] by simp
qed simp

lemma consumed_once:
  "ok s \<Longrightarrow> list_all well_formed ops \<Longrightarrow> events ops s = (evs, s') \<Longrightarrow> length (filter (consumes i) evs) \<le> 1"
proof (induction ops arbitrary: s evs)
  case (Cons op ops)
  from Cons.prems obtain ev evs' s1 where *: "evs = ev # evs'" "ledger_step (recs s) ev (recs s1)"
    "ok s1" "list_all well_formed ops" "events ops s1 = (evs', s')" by (rule events_Cons)
  show ?case
  proof (cases "consumes i ev")
    case True
    then have "spent i (recs s1)" using ledger_step_consumes [OF *(2)] ids_distinct Cons.prems(1) by blast
    then show ?thesis using spent_stays [OF *(3-5)] True *(1) by simp
  next
    case False
    then show ?thesis using Cons.IH [OF *(3-5)] *(1) by simp
  qed
qed simp

lemma quota:
  "ok s \<Longrightarrow> list_all well_formed ops \<Longrightarrow> events ops s = (evs, s') \<Longrightarrow>
    spends_for b evs + live_for b (recs s') \<le> live_for b (recs s) + grants_for b evs"
proof (induction ops arbitrary: s evs)
  case Nil
  then show ?case by (simp add: spends_for_def grants_for_def)
next
  case (Cons op ops)
  from Cons.prems obtain ev evs' s1 where *: "evs = ev # evs'" "ledger_step (recs s) ev (recs s1)"
    "ok s1" "list_all well_formed ops" "events ops s1 = (evs', s')" by (rule events_Cons)
  have "spends_for b evs = spends_for b [ev] + spends_for b evs'"
    "grants_for b evs = grants_for b [ev] + grants_for b evs'"
    by (simp_all add: *(1) spends_for_def grants_for_def)
  then show ?case using Cons.IH [OF *(3-5)] ledger_step_quota [OF *(2), of b] by linarith
qed

lemma consumption_binds:
  "ok s \<Longrightarrow> list_all well_formed ops \<Longrightarrow> events ops s = (evs, s') \<Longrightarrow>
    Consumed q d c \<in> set evs \<Longrightarrow> asked_for q d c"
proof (induction ops arbitrary: s evs)
  case (Cons op ops)
  from Cons.prems(1-3) obtain ev evs' s1 where *: "evs = ev # evs'" "ledger_step (recs s) ev (recs s1)"
    "ok s1" "list_all well_formed ops" "events ops s1 = (evs', s')" by (rule events_Cons)
  have "asked_for q d c" if "ev = Consumed q d c"
    using *(2) that by (cases rule: ledger_step.cases) (auto simp: asked_for_def split: option.splits)
  then show ?case using Cons.IH [OF *(3-5)] Cons.prems(4) *(1) by auto
qed simp

end

section \<open>The in-memory store is an approval authority\<close>

definition mem_exec ::
  "(string \<Rightarrow> string) \<Rightarrow> approval_op \<Rightarrow> approval_store \<Rightarrow> approval_result res \<times> approval_store" where
  "mem_exec H op st =
    (case op of
       OpApprove h q uuid now \<Rightarrow> map_prod (map_sum id AGrant) id (approve H h q uuid now st)
     | OpRevoke i now \<Rightarrow> map_prod (map_sum id AFlag) id (revoke i now st)
     | OpGet i \<Rightarrow> (Inr (AFound (get_approval i st)), st)
     | OpConsume h q now \<Rightarrow> map_prod (map_sum id ADecision) id (consume H h q now st))"

definition wf_approvals :: "approval_store \<Rightarrow> bool" where
  "wf_approvals st \<longleftrightarrow> wf_table (st_approvals st) \<and> list_all (\<lambda>(k, r). ap_id r = k) (st_approvals st)"

definition mem_recs :: "approval_store \<Rightarrow> approval_record list" where
  "mem_recs st = map snd (st_approvals st)"

lemma first_eligible_Some:
  "first_eligible p rs = Inr (Some i) \<Longrightarrow> i < length rs \<and> p (rs ! i) = Inr True"
proof (induction rs arbitrary: i)
  case (Cons r rs)
  then show ?case by (auto simp: and_then_Inr split: if_splits)
qed simp

lemma eligible_True:
  "eligible t q d now r = Inr True \<Longrightarrow> binds t q d r \<and> live r"
  "file_eligible t q d now r = Inr True \<Longrightarrow> binds t q d r \<and> live r"
  by (auto simp: eligible_def file_eligible_def live_def split: if_splits)

lemma binds_asked_for: "binds t q d r \<Longrightarrow> cr_runtime q = None \<or> cr_runtime q = Some t \<Longrightarrow> asked_for q d r"
  by (auto simp: binds_def asked_for_def)

lemma update_at:
  assumes "wf_table t" and "i < length t" and "t ! i = (k, r)"
  shows "AList.update k c t = t[i := (k, c)]"
  using assms
proof (induction t arbitrary: i)
  case (Cons x t)
  then show ?case
  proof (cases i)
    case (Suc j)
    then have "(k, r) \<in> set t" using Cons.prems by (metis Suc_less_eq length_Cons nth_Cons_Suc nth_mem)
    then have "fst x \<noteq> k" using Cons.prems(1) in_table_key [of k r t] by (auto simp: wf_table_def)
    then show ?thesis using Cons Suc by (cases x) (simp add: wf_table_def)
  qed (cases x, simp)
qed simp

lemma map_of_position:
  assumes "map_of t k = Some r"
  obtains i where "i < length t" "t ! i = (k, r)"
  using assms by (meson in_set_conv_nth map_of_SomeD)

lemma wf_approvals_update:
  assumes "wf_approvals st" and "i < length (st_approvals st)" and "st_approvals st ! i = (k, r)" and "ap_id c = ap_id r"
  shows "wf_approvals (st\<lparr>st_approvals := AList.update k c (st_approvals st)\<rparr>)"
    and "mem_recs (st\<lparr>st_approvals := AList.update k c (st_approvals st)\<rparr>) = (mem_recs st)[i := c]"
    and "mem_recs st ! i = r"
proof -
  have wf: "wf_table (st_approvals st)" using assms(1) by (simp add: wf_approvals_def)
  have "ap_id r = k" using assms by (force simp: wf_approvals_def list_all_length)
  then have "list_all (\<lambda>(k, r). ap_id r = k) ((st_approvals st)[i := (k, c)])"
    using assms by (auto simp: wf_approvals_def list_all_iff dest!: set_update_subset_insert [THEN subsetD])
  then show "wf_approvals (st\<lparr>st_approvals := AList.update k c (st_approvals st)\<rparr>)"
    using wf_table_update [OF wf] by (simp add: wf_approvals_def update_at [OF wf assms(2,3)])
      (metis update_at [OF wf assms(2,3)] wf_table_update wf)
  show "mem_recs (st\<lparr>st_approvals := AList.update k c (st_approvals st)\<rparr>) = (mem_recs st)[i := c]"
    by (simp add: mem_recs_def update_at [OF wf assms(2,3)] map_update)
  show "mem_recs st ! i = r" using assms by (simp add: mem_recs_def)
qed

lemma mem_ids: "wf_approvals st \<Longrightarrow> map ap_id (mem_recs st) = map fst (st_approvals st)"
  by (auto simp: mem_recs_def wf_approvals_def list_all_iff)

lemma approve_ledger:
  assumes "wf_approvals st" and "approve H h q uuid now st = (Inr r, st')"
  shows "wf_approvals st' \<and> ledger_step (mem_recs st) (Granted q (payload_digest H h (gr_payload q)) r) (mem_recs st')"
proof -
  from assms(2) have new: "ap_id r \<notin> set (map fst (st_approvals st))" "live r"
      "granted_as q (payload_digest H h (gr_payload q)) r"
    and st': "st' = st\<lparr>st_approvals := AList.update (ap_id r) r (st_approvals st)\<rparr>"
    by (auto simp: approve_def and_then_Inr require_non_empty_def live_def granted_as_def payload_digest_def
        split: sum.splits if_splits dest: in_table_key)
  then have recs: "mem_recs st' = mem_recs st @ [r]" by (simp add: mem_recs_def keys_update_absent)
  have "ap_id r \<notin> set (map ap_id (mem_recs st))" using new(1) mem_ids [OF assms(1)] by metis
  then have "ledger_step (mem_recs st) (Granted q (payload_digest H h (gr_payload q)) r) (mem_recs st')"
    unfolding recs by (rule ledger_step.grant [OF new(2) _ new(3)])
  moreover have "wf_approvals st'"
    using assms(1) new by (auto simp: wf_approvals_def st' keys_update_absent wf_table_snoc)
  ultimately show ?thesis by simp
qed

lemma consume_result:
  assumes "consume H h q now st = (out, st')"
  shows "st' = st \<and> (case out of Inl _ \<Rightarrow> True | Inr d \<Rightarrow> \<not> cd_approved d) \<or>
    (\<exists>digest ms i k r. digest_legacy H h (cr_payload q) = Inr digest \<and> now = Some ms \<and>
      requested_runtime st q = Inr (st_runtime st) \<and>
      first_eligible (eligible (st_runtime st) q digest ms) (mem_recs st) = Inr (Some i) \<and> st_approvals st ! i = (k, r) \<and>
      out = Inr (approved (r\<lparr>ap_consumed := Some (iso_of_millis ms)\<rparr>)) \<and>
      st' = st\<lparr>st_approvals := AList.update k (r\<lparr>ap_consumed := Some (iso_of_millis ms)\<rparr>) (st_approvals st)\<rparr>)"
proof (cases "requested_runtime st q = Inr (st_runtime st)")
  case False
  then show ?thesis using assms by (auto simp: consume_def denied_def split: if_splits sum.splits)
next
  case scoped: True
  show ?thesis
  proof (cases "digest_legacy H h (cr_payload q)")
    case Inl
    then show ?thesis using assms scoped by (auto simp: consume_def denied_def)
  next
    case (Inr digest)
    note digest = this
    show ?thesis
    proof (cases now)
      case None
      then show ?thesis using assms scoped digest by (auto simp: consume_def denied_def)
    next
      case (Some ms)
      note now = this
      show ?thesis
      proof (cases "first_eligible (eligible (st_runtime st) q digest ms) (mem_recs st)")
        case Inl
        then show ?thesis using assms scoped digest now by (auto simp: consume_def mem_recs_def)
      next
        case (Inr x)
        then show ?thesis using assms scoped digest now
          by (cases x) (auto simp: consume_def denied_def mem_recs_def Let_def split: prod.splits)
      qed
    qed
  qed
qed

lemma consume_ledger:
  assumes ok: "wf_approvals st" and run: "consume H h q now st = (Inr d, st')"
  shows "wf_approvals st' \<and> ledger_step (mem_recs st)
    (event_of H (OpConsume h q now) (Inr (ADecision d))) (mem_recs st')"
  using consume_result [OF run]
proof (elim disjE exE conjE)
  assume "st' = st" "case Inr d of Inl _ \<Rightarrow> True | Inr d \<Rightarrow> \<not> cd_approved d"
  with ok show ?thesis
    by (auto simp: event_of_def ledger_step.stay split: option.splits)
next
  fix digest ms i k r
  assume digest: "digest_legacy H h (cr_payload q) = Inr digest"
    and scoped: "requested_runtime st q = Inr (st_runtime st)"
    and elig: "first_eligible (eligible (st_runtime st) q digest ms) (mem_recs st) = Inr (Some i)"
    and at: "st_approvals st ! i = (k, r)"
    and "Inr d = Inr (approved (r\<lparr>ap_consumed := Some (iso_of_millis ms)\<rparr>))"
    and st': "st' = st\<lparr>st_approvals := AList.update k (r\<lparr>ap_consumed := Some (iso_of_millis ms)\<rparr>) (st_approvals st)\<rparr>"
  then have d: "d = approved (r\<lparr>ap_consumed := Some (iso_of_millis ms)\<rparr>)" by simp
  have i: "i < length (mem_recs st)" "eligible (st_runtime st) q digest ms (mem_recs st ! i) = Inr True"
    using first_eligible_Some [OF elig] by auto
  then have len: "i < length (st_approvals st)" by (simp add: mem_recs_def)
  note up = wf_approvals_update [OF ok len at, of "r\<lparr>ap_consumed := Some (iso_of_millis ms)\<rparr>"]
  have "ledger_step (mem_recs st) (Consumed q digest (r\<lparr>ap_consumed := Some (iso_of_millis ms)\<rparr>))
      ((mem_recs st)[i := r\<lparr>ap_consumed := Some (iso_of_millis ms)\<rparr>])"
    by (rule ledger_step.spend [OF i(1) _ binds_asked_for])
      (use eligible_True(1) [OF i(2)] up(3) scoped in \<open>auto simp: requested_runtime_def require_non_empty_def split: option.splits if_splits\<close>)
  then show ?thesis
    using up by (simp add: st' d event_of_def approved_def payload_digest_def digest)
qed

lemma revoke_ledger:
  assumes ok: "wf_approvals st" and run: "revoke i now st = (Inr b, st')"
  shows "wf_approvals st' \<and> ledger_step (mem_recs st) (event_of H (OpRevoke i now) (Inr (AFlag b))) (mem_recs st')"
proof (cases b)
  case False
  with run have "st' = st"
    by (auto simp: revoke_def split: if_splits sum.splits option.splits)
  with False ok show ?thesis by (simp add: event_of_def ledger_step.stay)
next
  case True
  with run obtain r t where r: "map_of (st_approvals st) i = Some r" "live r"
    and st': "st' = st\<lparr>st_approvals := AList.update i (r\<lparr>ap_revoked := Some t\<rparr>) (st_approvals st)\<rparr>"
    by (auto simp: revoke_def require_non_empty_def live_def split: if_splits sum.splits option.splits)
  obtain n where n: "n < length (st_approvals st)" "st_approvals st ! n = (i, r)"
    using map_of_position [OF r(1)] .
  note up = wf_approvals_update [OF ok n, of "r\<lparr>ap_revoked := Some t\<rparr>"]
  have "ap_id r = i" using ok n by (auto simp: wf_approvals_def list_all_length)
  moreover have "ledger_step (mem_recs st) (Revoked (ap_id (mem_recs st ! n)))
      ((mem_recs st)[n := (mem_recs st ! n)\<lparr>ap_revoked := Some t\<rparr>])"
    by (rule ledger_step.revoke) (use n r(2) up(3) in \<open>simp_all add: mem_recs_def\<close>)
  ultimately show ?thesis using up True by (simp add: st' event_of_def)
qed

lemma approval_op_error:
  "approve H h q uuid now st = (Inl e, st') \<Longrightarrow> st' = st"
  "revoke i now st = (Inl e, st') \<Longrightarrow> st' = st"
  "consume H h c now st = (Inl e, st') \<Longrightarrow> st' = st"
  by (auto simp: approve_def revoke_def consume_def Let_def
    split: sum.splits if_splits option.splits prod.splits)

interpretation mem_approvals: approval_authority H wf_approvals mem_recs "\<lambda>_. True" "mem_exec H" for H
proof
  fix s :: approval_store
  show "wf_approvals s \<Longrightarrow> distinct (map ap_id (mem_recs s))"
    by (metis mem_ids wf_approvals_def wf_table_def)
next
  fix s op out s'
  assume ok: "wf_approvals s" and run: "mem_exec H op s = (out, s')"
  have stay: "wf_approvals s' \<and> ledger_step (mem_recs s) (event_of H op out) (mem_recs s')"
    if "s' = s" "event_of H op out = NoEvent" using that ok ledger_step.stay by simp
  show "wf_approvals s' \<and> ledger_step (mem_recs s) (event_of H op out) (mem_recs s')"
  proof (cases op)
    case (OpApprove h q uuid now)
    with run obtain r where r: "approve H h q uuid now s = (r, s')" "out = map_sum id AGrant r"
      by (cases "approve H h q uuid now s") (auto simp: mem_exec_def)
    show ?thesis
    proof (cases r)
      case Inl
      then show ?thesis using r approval_op_error(1) OpApprove by (intro stay) (auto simp: event_of_def)
    next
      case (Inr x)
      then show ?thesis using approve_ledger [OF ok, of H h q uuid now x s'] r OpApprove by (simp add: event_of_def)
    qed
  next
    case (OpRevoke i now)
    with run obtain r where r: "revoke i now s = (r, s')" "out = map_sum id AFlag r"
      by (cases "revoke i now s") (auto simp: mem_exec_def)
    show ?thesis
    proof (cases r)
      case Inl
      then show ?thesis using r approval_op_error(2) OpRevoke by (intro stay) (auto simp: event_of_def)
    next
      case (Inr x)
      then show ?thesis using revoke_ledger [OF ok, of i now x s' H] r OpRevoke by simp
    qed
  next
    case (OpGet i)
    then show ?thesis using run by (intro stay) (auto simp: mem_exec_def event_of_def)
  next
    case (OpConsume h q now)
    with run obtain r where r: "consume H h q now s = (r, s')" "out = map_sum id ADecision r"
      by (cases "consume H h q now s") (auto simp: mem_exec_def)
    show ?thesis
    proof (cases r)
      case Inl
      then show ?thesis using r approval_op_error(3) OpConsume by (intro stay) (auto simp: event_of_def)
    next
      case (Inr x)
      then show ?thesis using consume_ledger [OF ok, of H h q now x s'] r OpConsume by simp
    qed
  qed
qed

section \<open>Written records are read back\<close>

definition instant_ok :: "string option \<Rightarrow> (int \<Rightarrow> bool) \<Rightarrow> bool" where
  "instant_ok t p =
    (case t of None \<Rightarrow> True | Some s \<Rightarrow> (case parse_instant s of None \<Rightarrow> False | Some ms \<Rightarrow> p ms))"

definition valid_record :: "string \<Rightarrow> approval_record \<Rightarrow> bool" where
  "valid_record runtime r \<longleftrightarrow>
    \<not> blank (ap_id r) \<and> \<not> blank runtime \<and> \<not> blank (ap_task r) \<and> \<not> blank (ap_agent r) \<and>
    \<not> blank (ap_tool r) \<and> is_sha256_hex (ap_digest r) \<and> ap_runtime r = runtime \<and>
    instant_ok (Some (ap_granted r)) (\<lambda>g.
      instant_ok (ap_expires r) (\<lambda>e. g < e) \<and>
      instant_ok (ap_consumed r) (\<lambda>c. g \<le> c \<and> instant_ok (ap_expires r) (\<lambda>e. c < e)) \<and>
      instant_ok (ap_revoked r) (\<lambda>x. g \<le> x)) \<and>
    (ap_consumed r = None \<or> ap_revoked r = None)"

lemma instant_ok_simps [simp]:
  "instant_ok None p"
  "instant_ok (Some s) p \<longleftrightarrow> (\<exists>ms. parse_instant s = Some ms \<and> p ms)"
  by (auto simp: instant_ok_def split: option.splits)

lemma require_non_empty_Inr [simp]: "require_non_empty l s = Inr t \<longleftrightarrow> t = s \<and> \<not> blank s"
  by (auto simp: require_non_empty_def)

lemma require_field_Inr: "require_field v k = Inr s \<longleftrightarrow> json_field v k = Some (JsStr s) \<and> \<not> blank s"
  by (auto simp: require_field_def split: option.splits json.splits)

lemma digest_field_Inr:
  "digest_field v = Inr s \<longleftrightarrow> json_field v ''payloadDigest'' = Some (JsStr s) \<and> is_sha256_hex s"
  by (auto simp: digest_field_def split: option.splits json.splits if_splits)

lemma ensure_Inr [simp]: "ensure b m = Inr u \<longleftrightarrow> b"
  by (simp add: ensure_def)

lemma parse_canonical_iff: "parse_canonical_instant l s = Inr ms \<longleftrightarrow> parse_instant s = Some ms"
  by (simp add: parse_canonical_Inr parse_instant_Some)

lemma instant_value_Inr: "instant_value l v = Inr (s, ms) \<longleftrightarrow> v = JsStr s \<and> parse_instant s = Some ms"
  by (auto simp: instant_value_def and_then_Inr parse_canonical_iff split: json.splits)

lemma optional_instant_Inr:
  "optional_instant v k = Inr x \<longleftrightarrow>
    (case x of
       None \<Rightarrow> json_field v k = None
     | Some (s, ms) \<Rightarrow> json_field v k = Some (JsStr s) \<and> parse_instant s = Some ms)"
  by (cases x) (auto simp: optional_instant_def and_then_Inr instant_value_Inr split: option.splits)

lemma validate_record_valid: "validate_record runtime v = Inr r \<Longrightarrow> valid_record runtime r"
  unfolding validate_record_def
  by (simp only: and_then_Inr ensure_Inr require_field_Inr digest_field_Inr optional_instant_Inr case_prod_unfold)
    (elim exE conjE,
      auto simp: valid_record_def instant_value_Inr [unfolded prod.collapse] split: option.splits prod.splits)

lemma json_of_approval_fields:
  "json_field (json_of_approval r) ''approvalId'' = Some (JsStr (ap_id r))"
  "json_field (json_of_approval r) ''runtimeId'' = Some (JsStr (ap_runtime r))"
  "json_field (json_of_approval r) ''taskId'' = Some (JsStr (ap_task r))"
  "json_field (json_of_approval r) ''agentId'' = Some (JsStr (ap_agent r))"
  "json_field (json_of_approval r) ''toolName'' = Some (JsStr (ap_tool r))"
  "json_field (json_of_approval r) ''payloadDigest'' = Some (JsStr (ap_digest r))"
  "json_field (json_of_approval r) ''grantedAt'' = Some (JsStr (ap_granted r))"
  "json_field (json_of_approval r) ''expiresAt'' = map_option JsStr (ap_expires r)"
  "json_field (json_of_approval r) ''consumedAt'' = map_option JsStr (ap_consumed r)"
  "json_field (json_of_approval r) ''revokedAt'' = map_option JsStr (ap_revoked r)"
  by (simp_all add: json_of_approval_def map_of_append map_add_def split: option.split)

lemma json_of_approval_exact: "assert_exact_object (json_of_approval r) l record_keys = Inr ()"
  by (auto simp: assert_exact_object_def json_of_approval_def record_keys_def field_order_def
    find_None_iff split: option.split)

lemma validate_written:
  assumes "valid_record runtime r"
  shows "validate_record runtime (json_of_approval r) = Inr r"
proof -
  from assms obtain g where g: "parse_instant (ap_granted r) = Some g" by (auto simp: valid_record_def)
  have opt: "optional_instant (json_of_approval r) k = Inr (map_option (\<lambda>s. (s, the (parse_instant s))) t)"
    if "json_field (json_of_approval r) k = map_option JsStr t" "instant_ok t (\<lambda>_. True)" for k t
    using that by (auto simp: optional_instant_Inr split: option.splits)
  have oks: "instant_ok (ap_expires r) (\<lambda>_. True)" "instant_ok (ap_consumed r) (\<lambda>_. True)"
    "instant_ok (ap_revoked r) (\<lambda>_. True)"
    using assms by (auto simp: valid_record_def instant_ok_def split: option.splits)
  have present: "find (\<lambda>k. json_field (json_of_approval r) k = None) field_order = None"
    by (simp add: field_order_def json_of_approval_fields)
  have fields: "require_field (json_of_approval r) ''approvalId'' = Inr (ap_id r)"
    "require_field (json_of_approval r) ''runtimeId'' = Inr (ap_runtime r)"
    "require_field (json_of_approval r) ''taskId'' = Inr (ap_task r)"
    "require_field (json_of_approval r) ''agentId'' = Inr (ap_agent r)"
    "require_field (json_of_approval r) ''toolName'' = Inr (ap_tool r)"
    "digest_field (json_of_approval r) = Inr (ap_digest r)"
    "instant_value ''grantedAt'' (the (json_field (json_of_approval r) ''grantedAt'')) = Inr (ap_granted r, g)"
    using assms g
    by (auto simp: require_field_Inr digest_field_Inr instant_value_Inr json_of_approval_fields valid_record_def)
  note opts = opt [OF json_of_approval_fields(8) oks(1)] opt [OF json_of_approval_fields(9) oks(2)]
    opt [OF json_of_approval_fields(10) oks(3)]
  from assms g show ?thesis
    unfolding validate_record_def
    by (simp add: json_of_approval_exact present fields opts)
      (auto simp: valid_record_def and_then_Inr ensure_def instant_ok_def comp_def split: option.splits)
qed

lemma validate_all_valid: "validate_all runtime vs = Inr rs \<Longrightarrow> list_all (valid_record runtime) rs"
  by (induction vs arbitrary: rs) (auto simp: and_then_Inr validate_record_valid)

lemma validate_all_written:
  "list_all (valid_record runtime) rs \<Longrightarrow> validate_all runtime (map json_of_approval rs) = Inr rs"
  by (induction rs) (auto simp: validate_written)

lemma first_duplicate_None:
  "first_duplicate seen xs = None \<longleftrightarrow> distinct xs \<and> set xs \<inter> set seen = {}"
  by (induction xs arbitrary: seen) auto

lemma load_state_valid:
  "load_state cfg f = Inr rs \<Longrightarrow> list_all (valid_record (af_runtime cfg)) rs \<and> distinct (map ap_id rs)"
  by (auto simp: load_state_def read_state_def and_then_Inr first_duplicate_None validate_all_valid
    split: storage_file.splits option.splits json.splits sum.splits)

lemma load_state_written:
  "list_all (valid_record (af_runtime cfg)) rs \<Longrightarrow> distinct (map ap_id rs) \<Longrightarrow>
    load_state cfg (Document (json_of_state cfg rs)) = Inr rs"
  by (simp add: load_state_def read_state_def json_of_state_def assert_exact_object_def document_keys_def
    validate_all_written first_duplicate_None [THEN iffD2] ensure_def and_then_def)

section \<open>The file store is an approval authority\<close>

definition approval_file_op ::
  "(string \<Rightarrow> string) \<Rightarrow> approval_file \<Rightarrow> approval_op \<Rightarrow> approval_result file_op" where
  "approval_file_op H cfg op f =
    (case op of
       OpApprove h q uuid now \<Rightarrow> map_prod (map_sum id AGrant) id (file_approve H h cfg q uuid now f)
     | OpRevoke i now \<Rightarrow> map_prod (map_sum id AFlag) id (file_revoke cfg i now f)
     | OpGet i \<Rightarrow> map_prod (map_sum id AFound) id (file_get cfg i f)
     | OpConsume h q now \<Rightarrow> map_prod (map_sum id ADecision) id (file_consume H h cfg q now f))"

definition file_recs :: "approval_file \<Rightarrow> storage_file \<Rightarrow> approval_record list" where
  "file_recs cfg f = (case load_state cfg f of Inr rs \<Rightarrow> rs | Inl _ \<Rightarrow> [])"

definition file_approvals_ok :: "approval_file \<Rightarrow> storage_file \<Rightarrow> bool" where
  "file_approvals_ok cfg f \<longleftrightarrow> \<not> blank (af_runtime cfg) \<and> is_ok (load_state cfg f)"

text \<open>
  The clock gives a time the language can represent, generated identities are not blank, and the
  hash of the payload is printed as 64 hexadecimal digits.
\<close>

definition good_op :: "(string \<Rightarrow> string) \<Rightarrow> approval_op \<Rightarrow> bool" where
  "good_op H op =
    (case op of
       OpApprove h q uuid now \<Rightarrow> \<not> blank uuid \<and> wf_clock now \<and>
         (case digest_legacy H h (gr_payload q) of Inr d \<Rightarrow> is_sha256_hex d | Inl _ \<Rightarrow> True)
     | OpRevoke _ now \<Rightarrow> wf_clock now
     | OpGet _ \<Rightarrow> True
     | OpConsume _ _ now \<Rightarrow> wf_clock now)"

lemma parse_now: "wf_clock (Some ms) \<Longrightarrow> parse_instant (iso_of_millis ms) = Some ms"
  by (simp add: wf_clock_def parse_instant_iso)

lemma check_expiry_Inr:
  "check_expiry e now = Inr u \<longleftrightarrow> instant_ok e (\<lambda>ms. now < ms)"
  by (auto simp: check_expiry_def and_then_Inr parse_canonical_iff not_le cong: conj_cong split: option.splits)

lemma not_expired_Inr: "not_expired now r = Inr True \<longleftrightarrow> instant_ok (ap_expires r) (\<lambda>e. now < e)"
  by (auto simp: not_expired_def and_then_Inr parse_canonical_iff split: option.splits)

lemma file_written:
  assumes "file_approvals_ok cfg f" and "list_all (valid_record (af_runtime cfg)) rs" and "distinct (map ap_id rs)"
  shows "file_approvals_ok cfg (Document (json_of_state cfg rs)) \<and> file_recs cfg (Document (json_of_state cfg rs)) = rs"
  using assms by (simp add: file_approvals_ok_def file_recs_def load_state_written)

lemma file_loaded:
  assumes "file_approvals_ok cfg f"
  shows "load_state cfg f = Inr (file_recs cfg f)" and "list_all (valid_record (af_runtime cfg)) (file_recs cfg f)"
    and "distinct (map ap_id (file_recs cfg f))" and "\<not> blank (af_runtime cfg)"
  using assms load_state_valid [of cfg f] by (auto simp: file_approvals_ok_def file_recs_def is_ok_iff)

lemma file_update:
  assumes ok: "file_approvals_ok cfg f" and "i < length (file_recs cfg f)" and "ap_id c = ap_id (file_recs cfg f ! i)"
    and "valid_record (af_runtime cfg) c"
  shows "file_approvals_ok cfg (Document (json_of_state cfg ((file_recs cfg f)[i := c]))) \<and>
    file_recs cfg (Document (json_of_state cfg ((file_recs cfg f)[i := c]))) = (file_recs cfg f)[i := c]"
proof (rule file_written [OF ok])
  show "list_all (valid_record (af_runtime cfg)) ((file_recs cfg f)[i := c])"
    using file_loaded(2) [OF ok] assms(4)
    by (auto simp: list_all_iff dest!: set_update_subset_insert [THEN subsetD])
  show "distinct (map ap_id ((file_recs cfg f)[i := c]))"
    using file_loaded(3) [OF ok] assms(2,3) by (simp add: map_id_update)
qed

lemma file_approve_ledger:
  assumes ok: "file_approvals_ok cfg f" and good: "good_op H (OpApprove h q uuid now)"
    and run: "file_approve H h cfg q uuid now f = (Inr r, d)"
  shows "file_approvals_ok cfg (published f d) \<and> ledger_step (file_recs cfg f)
    (Granted q (payload_digest H h (gr_payload q)) r) (file_recs cfg (published f d))"
proof -
  let ?rs = "file_recs cfg f"
  from run obtain i digest where
    checks: "\<not> blank (gr_task q)" "\<not> blank (gr_agent q)" "\<not> blank (gr_tool q)" "grant_id q uuid = Inr i"
      "digest_legacy H h (gr_payload q) = Inr digest"
    and locked: "file_approve_locked cfg q i digest now f = (Inr r, d)"
    by (auto simp: file_approve_def and_then_Inr split: sum.splits)
  from locked obtain ms where
    fresh: "\<not> list_ex (\<lambda>r. ap_id r = i) ?rs" and now: "now = Some ms" and "check_expiry (gr_expires q) ms = Inr ()"
    and r: "r = \<lparr>ap_id = i, ap_runtime = af_runtime cfg, ap_task = gr_task q, ap_agent = gr_agent q,
      ap_tool = gr_tool q, ap_digest = digest, ap_granted = iso_of_millis ms, ap_expires = gr_expires q,
      ap_consumed = None, ap_revoked = None\<rparr>"
    and d: "d = Some (json_of_state cfg (?rs @ [r]))"
    by (auto simp: file_approve_locked_def file_loaded(1) [OF ok] and_then_Inr current_instant_def
      split: sum.splits if_splits option.splits)
  have "\<not> blank i" using checks(4) good by (auto simp: grant_id_def good_op_def split: option.splits)
  then have "valid_record (af_runtime cfg) r"
    using checks good now \<open>check_expiry _ _ = _\<close> file_loaded(4) [OF ok]
    by (auto simp: valid_record_def r good_op_def check_expiry_Inr parse_now)
  moreover have new: "ap_id r \<notin> set (map ap_id ?rs)" using fresh by (auto simp: r list_ex_iff)
  ultimately have "file_approvals_ok cfg (Document (json_of_state cfg (?rs @ [r]))) \<and>
      file_recs cfg (Document (json_of_state cfg (?rs @ [r]))) = ?rs @ [r]"
    using file_loaded(2,3) [OF ok] by (intro file_written [OF ok]) auto
  moreover have "ledger_step ?rs (Granted q (payload_digest H h (gr_payload q)) r) (?rs @ [r])"
    by (rule ledger_step.grant [OF _ new]) (simp_all add: live_def granted_as_def payload_digest_def r checks(5))
  ultimately show ?thesis by (simp add: d)
qed

lemma find_index_Some: "find_index p xs = Some i \<Longrightarrow> i < length xs \<and> p (xs ! i)"
  by (auto simp: find_index_def find_Some_iff)

lemma file_revoke_ledger:
  assumes ok: "file_approvals_ok cfg f" and good: "good_op H (OpRevoke i now)"
    and run: "file_revoke cfg i now f = (Inr b, d)"
  shows "file_approvals_ok cfg (published f d) \<and>
    ledger_step (file_recs cfg f) (event_of H (OpRevoke i now) (Inr (AFlag b))) (file_recs cfg (published f d))"
proof (cases b)
  case False
  with run have "d = None" by (auto simp: file_revoke_def Let_def split: sum.splits option.splits if_splits)
  with False ok show ?thesis by (simp add: event_of_def ledger_step.stay)
next
  case True
  let ?rs = "file_recs cfg f"
  from run True obtain n ms g where
    n: "find_index (\<lambda>r. ap_id r = i) ?rs = Some n" and l: "live (?rs ! n)" and now: "now = Some ms"
    and g: "parse_instant (ap_granted (?rs ! n)) = Some g" "g \<le> ms"
    and d: "d = Some (json_of_state cfg (?rs[n := (?rs ! n)\<lparr>ap_revoked := Some (iso_of_millis ms)\<rparr>]))"
    by (auto simp: file_revoke_def Let_def and_then_Inr file_loaded(1) [OF ok] current_instant_def
      parse_canonical_iff live_def split: sum.splits option.splits if_splits)
  have at: "n < length ?rs" "ap_id (?rs ! n) = i" using find_index_Some [OF n] by auto
  have "valid_record (af_runtime cfg) (?rs ! n)" using file_loaded(2) [OF ok] at by (simp add: list_all_length)
  then have "valid_record (af_runtime cfg) ((?rs ! n)\<lparr>ap_revoked := Some (iso_of_millis ms)\<rparr>)"
    using g l good now by (auto simp: valid_record_def live_def good_op_def parse_now)
  then have "file_approvals_ok cfg (published f d) \<and>
      file_recs cfg (published f d) = ?rs[n := (?rs ! n)\<lparr>ap_revoked := Some (iso_of_millis ms)\<rparr>]"
    unfolding d published_simps by (intro file_update [OF ok at(1)]) simp_all
  then show ?thesis using ledger_step.revoke [OF at(1) l] True at(2) by (simp add: event_of_def)
qed

lemma file_consume_result:
  assumes ok: "file_approvals_ok cfg f" and run: "file_consume H h cfg q now f = (out, d)"
  shows "d = None \<and> (case out of Inl _ \<Rightarrow> True | Inr x \<Rightarrow> \<not> cd_approved x) \<or>
    (\<exists>digest ms i. digest_legacy H h (cr_payload q) = Inr digest \<and> now = Some ms \<and>
      cr_runtime q = Some (af_runtime cfg) \<and>
      first_eligible (file_eligible (af_runtime cfg) q digest ms) (file_recs cfg f) = Inr (Some i) \<and>
      out = Inr (approved ((file_recs cfg f ! i)\<lparr>ap_consumed := Some (iso_of_millis ms)\<rparr>)) \<and>
      d = Some (json_of_state cfg
        ((file_recs cfg f)[i := (file_recs cfg f ! i)\<lparr>ap_consumed := Some (iso_of_millis ms)\<rparr>])))"
proof -
  consider (refused) "d = None" "case out of Inl _ \<Rightarrow> True | Inr x \<Rightarrow> \<not> cd_approved x"
    | (locked) digest where "digest_legacy H h (cr_payload q) = Inr digest" "cr_runtime q = Some (af_runtime cfg)"
        "file_consume_locked cfg (af_runtime cfg) q digest now f = (out, d)"
    using run by (auto simp: file_consume_def and_then_Inr denied_def split: sum.splits option.splits if_splits)
  then show ?thesis
  proof cases
    case refused
    then show ?thesis by simp
  next
    case (locked digest)
    show ?thesis
    proof (cases now)
      case None
      then show ?thesis using locked
        by (auto simp: file_consume_locked_def file_loaded(1) [OF ok] current_instant_def denied_def)
    next
      case (Some ms)
      then show ?thesis using locked
        by (cases "first_eligible (file_eligible (af_runtime cfg) q digest ms) (file_recs cfg f)")
          (auto simp: file_consume_locked_def file_loaded(1) [OF ok] current_instant_def denied_def Let_def
            split: option.splits)
    qed
  qed
qed

lemma file_consume_ledger:
  assumes ok: "file_approvals_ok cfg f" and good: "good_op H (OpConsume h q now)"
    and run: "file_consume H h cfg q now f = (Inr x, d)"
  shows "file_approvals_ok cfg (published f d) \<and>
    ledger_step (file_recs cfg f) (event_of H (OpConsume h q now) (Inr (ADecision x))) (file_recs cfg (published f d))"
  using file_consume_result [OF ok run]
proof (elim disjE exE conjE)
  assume "d = None" "case Inr x of Inl _ \<Rightarrow> True | Inr x \<Rightarrow> \<not> cd_approved x"
  with ok show ?thesis by (auto simp: event_of_def ledger_step.stay split: option.splits)
next
  fix digest ms i
  let ?rs = "file_recs cfg f"
  let ?c = "(?rs ! i)\<lparr>ap_consumed := Some (iso_of_millis ms)\<rparr>"
  assume digest: "digest_legacy H h (cr_payload q) = Inr digest" and now: "now = Some ms"
    and scoped: "cr_runtime q = Some (af_runtime cfg)"
    and elig: "first_eligible (file_eligible (af_runtime cfg) q digest ms) ?rs = Inr (Some i)"
    and "Inr x = Inr (approved ?c)" and d: "d = Some (json_of_state cfg (?rs[i := ?c]))"
  then have x: "x = approved ?c" by simp
  have i: "i < length ?rs" "file_eligible (af_runtime cfg) q digest ms (?rs ! i) = Inr True"
    using first_eligible_Some [OF elig] by auto
  note bl = eligible_True(2) [OF i(2)]
  obtain g where g: "parse_instant (ap_granted (?rs ! i)) = Some g" "g \<le> ms"
    and e: "instant_ok (ap_expires (?rs ! i)) (\<lambda>e. ms < e)"
    using i(2) by (auto simp: file_eligible_def and_then_Inr parse_canonical_iff not_expired_Inr split: if_splits)
  have "valid_record (af_runtime cfg) (?rs ! i)" using file_loaded(2) [OF ok] i by (simp add: list_all_length)
  then have "valid_record (af_runtime cfg) ?c"
    using g e bl good now by (auto simp: valid_record_def live_def good_op_def parse_now)
  then have "file_approvals_ok cfg (published f d) \<and> file_recs cfg (published f d) = ?rs[i := ?c]"
    unfolding d published_simps by (intro file_update [OF ok i(1)]) simp_all
  moreover have "ledger_step ?rs (Consumed q digest ?c) (?rs[i := ?c])"
    by (rule ledger_step.spend [OF i(1) _ binds_asked_for]) (use bl scoped in auto)
  ultimately show ?thesis by (simp add: x event_of_def approved_def payload_digest_def digest)
qed

lemma file_error_publishes_nothing:
  "file_approve H h cfg q uuid now f = (Inl e, d) \<Longrightarrow> d = None"
  "file_revoke cfg i now f = (Inl e, d) \<Longrightarrow> d = None"
  by (auto simp: file_approve_def file_approve_locked_def file_revoke_def Let_def
    split: sum.splits option.splits if_splits)

definition file_exec ::
  "(string \<Rightarrow> string) \<Rightarrow> approval_file \<Rightarrow> approval_op \<Rightarrow> storage_file \<Rightarrow> approval_result res \<times> storage_file" where
  "file_exec H cfg op = run_op (approval_file_op H cfg op)"

interpretation file_approvals: approval_authority H "file_approvals_ok cfg" "file_recs cfg" "good_op H"
  "file_exec H cfg" for H cfg
proof
  fix f
  show "file_approvals_ok cfg f \<Longrightarrow> distinct (map ap_id (file_recs cfg f))" by (rule file_loaded(3))
next
  fix f op out f'
  assume ok: "file_approvals_ok cfg f" and good: "good_op H op" and run: "file_exec H cfg op f = (out, f')"
  obtain d where d: "approval_file_op H cfg op f = (out, d)" and f': "f' = published f d"
    using run by (auto simp: file_exec_def run_op_def split: prod.splits)
  have stay: "file_approvals_ok cfg f' \<and> ledger_step (file_recs cfg f) (event_of H op out) (file_recs cfg f')"
    if "d = None" "event_of H op out = NoEvent" using that ok ledger_step.stay by (simp add: f')
  show "file_approvals_ok cfg f' \<and> ledger_step (file_recs cfg f) (event_of H op out) (file_recs cfg f')"
  proof (cases op)
    case (OpApprove h q uuid now)
    with d obtain r where r: "file_approve H h cfg q uuid now f = (r, d)" "out = map_sum id AGrant r"
      by (cases "file_approve H h cfg q uuid now f") (auto simp: approval_file_op_def)
    show ?thesis
    proof (cases r)
      case Inl
      then show ?thesis using r file_error_publishes_nothing(1) OpApprove by (intro stay) (auto simp: event_of_def)
    next
      case (Inr x)
      then show ?thesis using file_approve_ledger [OF ok, of H h q uuid now x d] good r OpApprove f'
        by (simp add: event_of_def)
    qed
  next
    case (OpRevoke i now)
    with d obtain r where r: "file_revoke cfg i now f = (r, d)" "out = map_sum id AFlag r"
      by (cases "file_revoke cfg i now f") (auto simp: approval_file_op_def)
    show ?thesis
    proof (cases r)
      case Inl
      then show ?thesis using r file_error_publishes_nothing(2) OpRevoke by (intro stay) (auto simp: event_of_def)
    next
      case (Inr x)
      then show ?thesis using file_revoke_ledger [OF ok, of H i now x d] good r OpRevoke f' by simp
    qed
  next
    case (OpGet i)
    then show ?thesis using d by (intro stay) (auto simp: approval_file_op_def event_of_def file_get_def)
  next
    case (OpConsume h q now)
    with d obtain r where r: "file_consume H h cfg q now f = (r, d)" "out = map_sum id ADecision r"
      by (cases "file_consume H h cfg q now f") (auto simp: approval_file_op_def)
    show ?thesis
    proof (cases r)
      case Inl
      then show ?thesis using r file_consume_result [OF ok, of H h q now r d] OpConsume
        by (intro stay) (auto simp: event_of_def)
    next
      case (Inr x)
      then show ?thesis using file_consume_ledger [OF ok, of H h q now x d] good r OpConsume f' by simp
    qed
  qed
qed

text \<open>Processes that share the file: the history of the lock system is one run of the authority.\<close>

definition ledger_events ::
  "(string \<Rightarrow> string) \<Rightarrow> approval_op list \<Rightarrow> approval_result res list \<Rightarrow> ledger_event list" where
  "ledger_events H ops outs = map2 (event_of H) ops outs"

lemma outcomes_events:
  "file_approvals.events H cfg ops f =
    (ledger_events H ops (outcomes f (map (approval_file_op H cfg) ops)), replay f (map (approval_file_op H cfg) ops))"
  by (induction ops arbitrary: f)
    (auto simp: ledger_events_def file_exec_def Let_def split: prod.splits)

end
