(* ===== verification/Tool_Policies.thy ===== *)
theory Tool_Policies
  imports Approval_Store
begin

text \<open>
  Authorization of tool calls: \<open>src/policies/tool-policy.ts\<close> (allowlist and conjunction),
  \<open>ToolApprovalPolicy\<close> of \<open>src/policies/tool-approval-policy.ts\<close> and its hardened version in
  \<open>src/policies/hardened-tool-approval-policy.ts\<close>.

  A policy is any function from a request and a world to an answer and a world: what it awaits may
  run other code, so the heap after it can be any heap. An answer is whatever the policy returned;
  the properties of an object answer are read through \<open>jsval res\<close>, because a getter may throw.
\<close>

section \<open>Requests and answers\<close>

record policy_request =
  rq_tool :: string
  rq_payload :: jsval
  rq_runtime :: string
  rq_task :: string
  rq_agent_id :: "string option"
  rq_legacy_id :: "string option"

datatype policy_answer =
    ABool bool
  | AObject "jsval res" "jsval res"
  | AOther jsval

record 'a policy_world =
  pw_heap :: heap
  pw_rest :: 'a

type_synonym 'a policy = "policy_request \<Rightarrow> 'a policy_world \<Rightarrow> policy_answer res \<times> 'a policy_world"

definition allow :: policy_answer where
  "allow = AObject (Inr (JBool True)) (Inr JUndefined)"

definition deny :: "string \<Rightarrow> policy_answer" where
  "deny why = AObject (Inr (JBool False)) (Inr (JStr why))"

text \<open>\<open>decision === true || (typeof decision === "object" && decision !== null && decision.allowed === true)\<close>\<close>

definition decision_allows :: "policy_answer \<Rightarrow> bool res" where
  "decision_allows a =
    (case a of
       ABool b \<Rightarrow> Inr b
     | AObject al _ \<Rightarrow> and_then al (\<lambda>v. Inr (v = JBool True))
     | AOther _ \<Rightarrow> Inr False)"

definition resolve_agent_id :: "policy_request \<Rightarrow> string" where
  "resolve_agent_id q =
    (case rq_agent_id q of
       Some a \<Rightarrow> a
     | None \<Rightarrow> (case rq_legacy_id q of Some a \<Rightarrow> a | None \<Rightarrow> []))"

lemma decision_allows_simps [simp]:
  "decision_allows (ABool b) = Inr b" "decision_allows allow = Inr True" "decision_allows (deny m) = Inr False"
  "decision_allows (AOther v) = Inr False"
  by (simp_all add: decision_allows_def allow_def deny_def)

section \<open>Allowlist and conjunction\<close>

definition allowlist_policy :: "string list \<Rightarrow> 'a policy" where
  "allowlist_policy allowed q w =
    (Inr (if rq_tool q \<in> set allowed then allow
       else deny (''Tool '' @ quoted (rq_tool q) @ '' is not in the runtime allowlist.'')), w)"

definition new_all_of :: "'a policy list \<Rightarrow> 'a policy list res" where
  "new_all_of ps =
    (if ps = [] then Inl (RangeErr ''AllOfToolPolicy requires at least one policy.'') else Inr ps)"

fun all_of_policy :: "'a policy list \<Rightarrow> 'a policy" where
  "all_of_policy [] q w = (Inr allow, w)"
| "all_of_policy (p # ps) q w =
    (case p q w of
       (Inl e, w') \<Rightarrow> (Inl e, w')
     | (Inr a, w') \<Rightarrow>
         (case decision_allows a of
            Inl e \<Rightarrow> (Inl e, w')
          | Inr b \<Rightarrow> if b then all_of_policy ps q w' else (Inr a, w')))"

text \<open>An answer that lets the call through, as a whole.\<close>

definition permits :: "policy_answer res \<Rightarrow> bool" where
  "permits r = (case r of Inl _ \<Rightarrow> False | Inr a \<Rightarrow> decision_allows a = Inr True)"

lemma permits_simps [simp]: "\<not> permits (Inl e)" "permits (Inr a) \<longleftrightarrow> decision_allows a = Inr True"
  by (simp_all add: permits_def)

lemma all_of_Cons:
  "permits (fst (all_of_policy (p # ps) q w)) \<longleftrightarrow>
    permits (fst (p q w)) \<and> permits (fst (all_of_policy ps q (snd (p q w))))"
  by (auto split: prod.splits sum.splits)

lemma all_of_nil: "permits (fst (all_of_policy [] q w))"
  by simp

lemma all_of_append:
  "permits (fst (all_of_policy (ps @ qs) q w)) \<Longrightarrow> permits (fst (all_of_policy ps q w))"
proof (induction ps arbitrary: w)
  case (Cons p ps)
  then show ?case by (simp only: append_Cons all_of_Cons)
qed simp

text \<open>Every policy of the list was asked, in order, and permitted the call.\<close>

fun asked :: "'a policy list \<Rightarrow> policy_request \<Rightarrow> 'a policy_world \<Rightarrow> policy_answer res list" where
  "asked [] q w = []"
| "asked (p # ps) q w = fst (p q w) # asked ps q (snd (p q w))"

lemma all_of_permits: "permits (fst (all_of_policy ps q w)) \<longleftrightarrow> list_all permits (asked ps q w)"
  by (induction ps arbitrary: w) (simp_all only: all_of_nil all_of_Cons asked.simps list.pred_inject simp_thms)

lemma all_of_stops:
  assumes "list_all permits (asked ps q w)" and "p q (snd (all_of_policy ps q w)) = (r, w')" and "\<not> permits r"
  shows "snd (all_of_policy (ps @ p # qs) q w) = w'"
  using assms
proof (induction ps arbitrary: w)
  case Nil
  then show ?case by (auto split: sum.splits)
next
  case (Cons p' ps)
  obtain a v where p': "p' q w = (Inr a, v)" "decision_allows a = Inr True"
    using Cons.prems(1) by (cases "p' q w") (auto simp: permits_def split: sum.splits)
  with Cons show ?case by simp
qed

section \<open>Human approval\<close>

type_synonym 'a consumer =
  "consume_request \<Rightarrow> 'a policy_world \<Rightarrow> consume_decision res \<times> 'a policy_world"

record 'a approval_policy =
  po_consume :: "'a consumer"
  po_protected :: "string list"
  po_base :: "'a policy option"

fun add_protected :: "string list \<Rightarrow> string list \<Rightarrow> string list res" where
  "add_protected acc [] = Inr acc"
| "add_protected acc (t # ts) =
    and_then (require_non_empty ''protected tool name'' t) (\<lambda>t. add_protected (set_add t acc) ts)"

definition new_approval_policy ::
  "'a consumer \<Rightarrow> string list \<Rightarrow> 'a policy option \<Rightarrow> 'a approval_policy res" where
  "new_approval_policy consumer protected base =
    and_then (add_protected [] protected) (\<lambda>ts.
    Inr \<lparr>po_consume = consumer, po_protected = ts, po_base = base\<rparr>)"

definition composed_denial :: policy_answer where
  "composed_denial = deny ''The composed runtime tool policy denied this invocation.''"

text \<open>What a base policy that did not allow is reported as.\<close>

definition base_denial :: "policy_answer \<Rightarrow> policy_answer res" where
  "base_denial a =
    (case a of
       ABool b \<Rightarrow> if \<not> b then Inr (ABool False) else Inr composed_denial
     | AObject al _ \<Rightarrow> and_then al (\<lambda>v. if v = JBool False then Inr a else Inr composed_denial)
     | AOther _ \<Rightarrow> Inr composed_denial)"

text \<open>The base policy comes first: \<open>None\<close> when it let the request through.\<close>

definition ask_base :: "'a policy option \<Rightarrow> policy_request \<Rightarrow> 'a policy_world
    \<Rightarrow> policy_answer res option \<times> 'a policy_world" where
  "ask_base base q w =
    (case base of
       None \<Rightarrow> (None, w)
     | Some p \<Rightarrow>
         (case p q w of
            (Inl e, w') \<Rightarrow> (Some (Inl e), w')
          | (Inr a, w') \<Rightarrow>
              (case decision_allows a of
                 Inl e \<Rightarrow> (Some (Inl e), w')
               | Inr True \<Rightarrow> (None, w')
               | Inr False \<Rightarrow> (Some (base_denial a), w'))))"

definition consume_request_of :: "policy_request \<Rightarrow> string \<Rightarrow> consume_request" where
  "consume_request_of q agent = \<lparr>cr_runtime = Some (rq_runtime q), cr_task = rq_task q, cr_agent = agent,
    cr_tool = rq_tool q, cr_payload = rq_payload q\<rparr>"

definition not_approved :: "policy_request \<Rightarrow> consume_decision \<Rightarrow> policy_answer" where
  "not_approved q d = deny (case cd_reason d of
     Some r \<Rightarrow> r
   | None \<Rightarrow> ''Tool '' @ quoted (rq_tool q) @ '' requires a current human approval.'')"

definition no_agent_identity :: policy_answer where
  "no_agent_identity = deny ''Protected tool invocation is missing an agent identity.''"

definition evaluate_approval :: "'a approval_policy \<Rightarrow> 'a policy" where
  "evaluate_approval p q w =
    (case ask_base (po_base p) q w of
       (Some r, w) \<Rightarrow> (r, w)
     | (None, w) \<Rightarrow>
         if rq_tool q \<notin> set (po_protected p) then (Inr (ABool True), w)
         else if resolve_agent_id q = [] then (Inr no_agent_identity, w)
         else
           (case po_consume p (consume_request_of q (resolve_agent_id q)) w of
              (Inl e, w) \<Rightarrow> (Inl e, w)
            | (Inr d, w) \<Rightarrow> (Inr (if cd_approved d then allow else not_approved q d), w)))"

section \<open>The hardened policy\<close>

definition payload_changed :: policy_answer where
  "payload_changed = deny ''Protected tool payload changed during approval evaluation.''"

text \<open>
  The steps after the approval was consumed, in one run without an \<open>await\<close>: digest again, compare,
  freeze, digest once more.
\<close>

definition seal :: "(string \<Rightarrow> string) \<Rightarrow> jsval \<Rightarrow> string \<Rightarrow> consume_decision \<Rightarrow> heap \<Rightarrow> policy_answer \<times> heap" where
  "seal H payload before d h =
    (case digest_payload H h payload of
       Inl _ \<Rightarrow> (payload_changed, h)
     | Inr after \<Rightarrow>
         if after \<noteq> before then (payload_changed, h)
         else if (case cd_approval d of None \<Rightarrow> False | Some r \<Rightarrow> ap_digest r \<noteq> after)
         then (deny ''Human approval authority returned a mismatched payload binding.'', h)
         else
           (case freeze_approved_payload h payload of
              (Inl _, h') \<Rightarrow> (deny ''Protected tool payload could not be sealed for execution.'', h')
            | (Inr _, h') \<Rightarrow>
                (case digest_payload H h' payload of
                   Inl _ \<Rightarrow> (deny ''Protected tool payload could not be sealed for execution.'', h')
                 | Inr sealed \<Rightarrow> (if sealed \<noteq> after then payload_changed else allow, h'))))"

definition evaluate_hardened :: "(string \<Rightarrow> string) \<Rightarrow> 'a approval_policy \<Rightarrow> 'a policy" where
  "evaluate_hardened H p q w =
    (case ask_base (po_base p) q w of
       (Some r, w) \<Rightarrow> (r, w)
     | (None, w) \<Rightarrow>
         if rq_tool q \<notin> set (po_protected p) then (Inr (ABool True), w)
         else if resolve_agent_id q = [] then (Inr no_agent_identity, w)
         else
           (case digest_payload H (pw_heap w) (rq_payload q) of
              Inl _ \<Rightarrow> (Inr (deny
                ''Protected tool payload cannot be deterministically bound to human approval.''), w)
            | Inr before \<Rightarrow>
                (case po_consume p (consume_request_of q (resolve_agent_id q)) w of
                   (Inl e, w) \<Rightarrow> (Inl e, w)
                 | (Inr d, w) \<Rightarrow>
                     if \<not> cd_approved d then (Inr (not_approved q d), w)
                     else
                       (case seal H (rq_payload q) before d (pw_heap w) of
                          (a, h) \<Rightarrow> (Inr a, w\<lparr>pw_heap := h\<rparr>)))))"

lemma deny_no_permit [simp]: "deny m \<noteq> allow"
  by (simp add: deny_def allow_def)

lemma seal_allows:
  assumes "seal H payload before d h = (a, h')" and "decision_allows a = Inr True"
  shows "digest_payload H h payload = Inr before \<and> freeze_approved_payload h payload = (Inr (), h') \<and>
    digest_payload H h' payload = Inr before \<and>
    (case cd_approval d of None \<Rightarrow> True | Some r \<Rightarrow> ap_digest r = before)"
proof (cases "digest_payload H h payload")
  case Inl
  with assms show ?thesis by (auto simp: seal_def payload_changed_def)
next
  case (Inr after)
  note after = this
  show ?thesis
  proof (cases "after = before \<and> (case cd_approval d of None \<Rightarrow> True | Some r \<Rightarrow> ap_digest r = after)")
    case False
    with assms after show ?thesis by (auto simp: seal_def payload_changed_def split: option.splits if_splits)
  next
    case ok: True
    obtain r g where freeze: "freeze_approved_payload h payload = (r, g)" by force
    show ?thesis
    proof (cases r)
      case Inl
      with assms after ok freeze show ?thesis by (auto simp: seal_def split: option.splits)
    next
      case (Inr u)
      with assms after ok freeze show ?thesis
        by (cases "digest_payload H g payload")
          (auto simp: seal_def payload_changed_def split: option.splits if_splits)
    qed
  qed
qed

lemma digest_payload_legacy: "digest_payload H h v = Inr d \<Longrightarrow> digest_legacy H h v = Inr d"
  by (auto simp: digest_payload_def and_then_Inr)

lemma sealed_digest:
  assumes "freeze_approved_payload h v = (Inr (), h')" and "digest_payload H h' v = Inr d" and "later h' h''"
  shows "digest_legacy H h'' v = Inr d"
proof -
  obtain s where s: "canonicalize_payload h' v = Inr s" "d = H (approval_preimage s)"
    using digest_payload_legacy [OF assms(2)] by (auto simp: digest_legacy_Inr)
  then show ?thesis
    using frozen_payload_is_sealed [OF assms(1) s(1) assms(3)] by (simp add: digest_legacy_Inr)
qed

lemma base_denial_denies: "decision_allows a = Inr False \<Longrightarrow> \<not> permits (base_denial a)"
  by (auto simp: base_denial_def composed_denial_def decision_allows_def and_then_Inr permits_def
    split: policy_answer.splits if_splits sum.splits)
    (auto simp: deny_def and_then_Inr and_then_Inl)

lemma ask_base_denies: "ask_base base q w = (Some r, w') \<Longrightarrow> \<not> permits r"
  by (auto simp: ask_base_def base_denial_denies split: option.splits prod.splits sum.splits bool.splits)

lemma ask_base_passes: "ask_base (Some p) q w = (None, w') \<Longrightarrow> permits (fst (p q w)) \<and> w' = snd (p q w)"
  by (auto simp: ask_base_def split: prod.splits sum.splits bool.splits)

lemma denials_do_not_permit [simp]:
  "decision_allows (not_approved q d) = Inr False" "decision_allows no_agent_identity = Inr False"
  by (simp_all add: not_approved_def no_agent_identity_def)

lemma hardened_permits:
  assumes run: "evaluate_hardened H p q w = (r, w')" and permits: "permits r"
    and protected: "rq_tool q \<in> set (po_protected p)"
  obtains w1 before d w2 a where "ask_base (po_base p) q w = (None, w1)"
    "digest_payload H (pw_heap w1) (rq_payload q) = Inr before"
    "po_consume p (consume_request_of q (resolve_agent_id q)) w1 = (Inr d, w2)" "cd_approved d"
    "seal H (rq_payload q) before d (pw_heap w2) = (a, pw_heap w')" "decision_allows a = Inr True"
proof -
  obtain o1 w1 where base: "ask_base (po_base p) q w = (o1, w1)" by force
  have "o1 = None"
    using run permits base ask_base_denies [of "po_base p" q w] by (cases o1) (auto simp: evaluate_hardened_def)
  with base have base: "ask_base (po_base p) q w = (None, w1)" by simp
  have agent: "resolve_agent_id q \<noteq> []"
    using run permits base protected by (auto simp: evaluate_hardened_def no_agent_identity_def)
  obtain before where before: "digest_payload H (pw_heap w1) (rq_payload q) = Inr before"
    using run permits base protected agent
    by (cases "digest_payload H (pw_heap w1) (rq_payload q)") (auto simp: evaluate_hardened_def)
  obtain c w2 where c: "po_consume p (consume_request_of q (resolve_agent_id q)) w1 = (c, w2)" by force
  obtain d where d: "c = Inr d" "cd_approved d"
    using run permits base protected agent before c
    by (cases c) (auto simp: evaluate_hardened_def split: if_splits)
  obtain a h where a: "seal H (rq_payload q) before d (pw_heap w2) = (a, h)" by force
  show ?thesis
    by (rule that [OF base before _ d(2)])
      (use run permits base protected agent before c d a in \<open>auto simp: evaluate_hardened_def\<close>)
qed

text \<open>
  The handoff: a permitted protected call was approved, and from then on no code can make the payload
  encode to anything but what was digested before the approval was consumed.
\<close>

lemma hardened_handoff:
  assumes "evaluate_hardened H p q w = (r, w')" and "permits r" and "rq_tool q \<in> set (po_protected p)"
  shows "\<exists>w1 d w2 digest. po_consume p (consume_request_of q (resolve_agent_id q)) w1 = (Inr d, w2) \<and>
    cd_approved d \<and> digest_payload H (pw_heap w1) (rq_payload q) = Inr digest \<and>
    (case cd_approval d of None \<Rightarrow> True | Some a \<Rightarrow> ap_digest a = digest) \<and>
    (\<forall>h. later (pw_heap w') h \<longrightarrow> digest_legacy H h (rq_payload q) = Inr digest)"
proof -
  obtain w1 before d w2 a where *: "digest_payload H (pw_heap w1) (rq_payload q) = Inr before"
    "po_consume p (consume_request_of q (resolve_agent_id q)) w1 = (Inr d, w2)" "cd_approved d"
    and sealed: "seal H (rq_payload q) before d (pw_heap w2) = (a, pw_heap w')" "decision_allows a = Inr True"
    by (rule hardened_permits [OF assms])
  note s = seal_allows [OF sealed]
  then have "\<forall>h. later (pw_heap w') h \<longrightarrow> digest_legacy H h (rq_payload q) = Inr before"
    using sealed_digest by blast
  with * s show ?thesis by blast
qed

text \<open>A denial of the base policy, or a request that cannot be bound, never reaches the authority.\<close>

lemma base_denial_first:
  "ask_base (po_base p) q w = (Some r, w') \<Longrightarrow>
    evaluate_hardened H p q w = (r, w') \<and> evaluate_approval p q w = (r, w') \<and> \<not> permits r"
  by (auto simp: evaluate_hardened_def evaluate_approval_def dest: ask_base_denies)

end
