(* ===== verification/Runtime_Events.thy ===== *)
theory Runtime_Events
  imports Js_Values
begin

text \<open>The events of \<open>RuntimeEventMap\<close> in \<open>src/events/runtime-events.ts\<close>, one constructor per name.\<close>

datatype event_name =
    EInternalError | EStarted | EStopped | ETaskReceived | ETaskCompleted | ETaskFailed
  | ETaskReconciled | EToolInvoked | EToolDenied

record receipt =
  rc_task :: string
  rc_claim :: string
  rc_claimed_at :: string
  rc_reconciled_at :: string
  rc_reference :: string
  rc_evidence :: string

datatype runtime_event =
    InternalError event_name string string
  | Started string string
  | Stopped string string "string list option" "int option"
  | TaskReceived string string string
  | TaskCompleted string string string string int
  | TaskFailed string string string string
  | TaskReconciled string receipt
  | ToolInvoked string string string string string
  | ToolDenied string string string string string string

fun name_of :: "runtime_event \<Rightarrow> event_name" where
  "name_of (InternalError _ _ _) = EInternalError"
| "name_of (Started _ _) = EStarted"
| "name_of (Stopped _ _ _ _) = EStopped"
| "name_of (TaskReceived _ _ _) = ETaskReceived"
| "name_of (TaskCompleted _ _ _ _ _) = ETaskCompleted"
| "name_of (TaskFailed _ _ _ _) = ETaskFailed"
| "name_of (TaskReconciled _ _) = ETaskReconciled"
| "name_of (ToolInvoked _ _ _ _ _) = EToolInvoked"
| "name_of (ToolDenied _ _ _ _ _ _) = EToolDenied"

end
