(* ===== verification/Action_Executor.thy ===== *)
theory Action_Executor
  imports Keyed_Stores Tool_Policies Runtime_Events
begin

text \<open>
  \<open>ActionExecutor\<close> of \<open>src/actions/action-executor.ts\<close>: the per-task call counters with their quota
  and their capacity, and \<open>execute\<close>, which resolves the tool, asks the policy, admits the call and
  runs the tool.

  The two awaits of \<open>execute\<close> are the policy and the tool. Both may change the whole world they are
  given, the executor's own counters included, which is what other calls that run meanwhile do. What
  lies between them is one uninterrupted piece, \<open>admit\<close>. The call context is an object that tools and
  policies can write to, so it is read from the world where the code reads it (\<open>su_context\<close>).
\<close>

section \<open>Counters\<close>

record executor =
  ex_counts :: "(string, nat) table"
  ex_quota :: "nat option"
  ex_cap :: nat

text \<open>The arguments of the constructor that may be a number or a logger.\<close>

datatype num_or_logger = ANumber jsnum | ALogger | AAbsent

definition new_executor :: "num_or_logger \<Rightarrow> num_or_logger \<Rightarrow> jsnum option \<Rightarrow> executor res" where
  "new_executor quota_or_logger logger_or_cap cap_opt =
    and_then (case quota_or_logger of
        ANumber v \<Rightarrow>
          if integer_from 0 v then Inr (Some (nat (num_int v)))
          else Inl (RangeErr ''maxToolCallsPerTask must be a non-negative integer.'')
      | _ \<Rightarrow> Inr None) (\<lambda>quota.
    let cap = (case logger_or_cap of
          ANumber v \<Rightarrow> v
        | _ \<Rightarrow> (case cap_opt of Some v \<Rightarrow> v | None \<Rightarrow> Fin 1 3)) in
    if \<not> integer_from 1 cap then Inl (RangeErr ''maxTrackedTasks must be a positive integer.'')
    else Inr \<lparr>ex_counts = [], ex_quota = quota, ex_cap = nat (num_int cap)\<rparr>)"

definition tool_call_count :: "executor \<Rightarrow> string \<Rightarrow> nat" where
  "tool_call_count ex t = (case map_of (ex_counts ex) t of Some n \<Rightarrow> n | None \<Rightarrow> 0)"

definition reset :: "string \<Rightarrow> executor \<Rightarrow> executor" where
  "reset t ex = ex\<lparr>ex_counts := AList.delete t (ex_counts ex)\<rparr>"

definition reset_all :: "executor \<Rightarrow> executor" where
  "reset_all ex = ex\<lparr>ex_counts := []\<rparr>"

text \<open>\<open>while (size >= maxTrackedTasks)\<close>: drop the oldest counter.\<close>

function make_room :: "nat \<Rightarrow> (string, nat) table \<Rightarrow> (string, nat) table" where
  "make_room cap t =
    (if cap \<le> length t
     then (case t of [] \<Rightarrow> [] | (k, _) # _ \<Rightarrow> make_room cap (AList.delete k t))
     else t)"
  by pat_completeness auto
termination
  by (relation "measure (\<lambda>(cap, t). length t)") (auto simp: less_Suc_eq_le length_delete_le)

declare make_room.simps [simp del]

definition tracking_exhausted :: "string \<Rightarrow> nat \<Rightarrow> js_error" where
  "tracking_exhausted t cap = RuntimeError MAX_TOOL_CALLS_EXCEEDED
    ''Cannot safely track another task without evicting an active tool-call budget.''
    (Some [(''taskId'', JStr t), (''maxTrackedTasks'', JNum (num_of_nat cap))])"

definition record_tool_call :: "string \<Rightarrow> nat \<Rightarrow> executor \<Rightarrow> unit res \<times> executor" where
  "record_tool_call t count ex =
    (if table_has (ex_counts ex) t
     then (Inr (), ex\<lparr>ex_counts := AList.update t count (ex_counts ex)\<rparr>)
     else if ex_quota ex \<noteq> None \<and> ex_cap ex \<le> length (ex_counts ex)
     then (Inl (tracking_exhausted t (ex_cap ex)), ex)
     else (Inr (), ex\<lparr>ex_counts := AList.update t count (make_room (ex_cap ex) (ex_counts ex))\<rparr>))"

text \<open>The uninterrupted piece of \<open>execute\<close> between the policy and the tool.\<close>

definition admit :: "string \<Rightarrow> executor \<Rightarrow> unit res \<times> executor" where
  "admit t ex =
    (let current = tool_call_count ex t in
     case (case ex_quota ex of None \<Rightarrow> Inr () | Some q \<Rightarrow> assert_max_tool_calls current q) of
       Inl e \<Rightarrow> (Inl e, ex)
     | Inr _ \<Rightarrow> record_tool_call t (current + 1) ex)"

lemma make_room_below: "length t < cap \<Longrightarrow> make_room cap t = t"
  by (subst make_room.simps) simp

lemma make_room_full:
  assumes "wf_table t" and "length t = cap" and "0 < cap"
  shows "make_room cap t = tl t"
proof -
  obtain k v r where t: "t = (k, v) # r" using assms by (cases t) auto
  then have "AList.delete k t = r" using assms(1) by (simp add: wf_table_def delete_absent)
  moreover have "make_room cap r = r" using assms t by (intro make_room_below) simp
  ultimately show ?thesis using assms t by (subst make_room.simps) simp
qed

definition wf_executor :: "executor \<Rightarrow> bool" where
  "wf_executor ex \<longleftrightarrow> wf_table (ex_counts ex) \<and> 0 < ex_cap ex \<and> length (ex_counts ex) \<le> ex_cap ex \<and>
    (\<forall>q. ex_quota ex = Some q \<longrightarrow> (\<forall>(t, n) \<in> set (ex_counts ex). n \<le> q))"

lemma make_room_wf:
  assumes "wf_table t" and "length t \<le> cap" and "0 < cap"
  shows "make_room cap t = (if length t < cap then t else tl t)"
  using assms make_room_below make_room_full by (cases "length t = cap") auto

lemma record_tool_call_frame:
  "record_tool_call t n ex = (r, ex') \<Longrightarrow> ex_quota ex' = ex_quota ex \<and> ex_cap ex' = ex_cap ex"
  by (auto simp: record_tool_call_def split: if_splits)

lemma admit_frame: "admit t ex = (r, ex') \<Longrightarrow> ex_quota ex' = ex_quota ex \<and> ex_cap ex' = ex_cap ex"
  by (auto simp: admit_def Let_def dest: record_tool_call_frame split: sum.splits)

lemma record_tool_call_counts:
  assumes "wf_executor ex" and "record_tool_call t n ex = (Inr u, ex')"
  shows "ex_counts ex' = AList.update t n (if table_has (ex_counts ex) t \<or> length (ex_counts ex) < ex_cap ex
    then ex_counts ex else tl (ex_counts ex)) \<and>
    (ex_quota ex \<noteq> None \<longrightarrow> table_has (ex_counts ex) t \<or> length (ex_counts ex) < ex_cap ex)"
  using assms by (auto simp: record_tool_call_def wf_executor_def make_room_wf split: if_splits)

lemma wf_record_tool_call:
  assumes wf: "wf_executor ex" and run: "record_tool_call t n ex = (Inr u, ex')"
    and n: "\<And>q. ex_quota ex = Some q \<Longrightarrow> n \<le> q"
  shows "wf_executor ex'"
proof -
  let ?base = "if table_has (ex_counts ex) t \<or> length (ex_counts ex) < ex_cap ex
    then ex_counts ex else tl (ex_counts ex)"
  note c = record_tool_call_counts [OF wf run] and f = record_tool_call_frame [OF run]
  have sub: "set ?base \<subseteq> set (ex_counts ex)" by (cases "ex_counts ex") auto
  have "wf_table ?base" using wf by (auto simp: wf_executor_def intro: wf_table_tl)
  moreover have "length (AList.update t n ?base) \<le> ex_cap ex"
    using wf by (auto simp: wf_executor_def length_update)
  ultimately show ?thesis
    using wf c f n sub unfolding wf_executor_def by (auto dest!: in_update)
qed

lemma wf_admit: "wf_executor ex \<Longrightarrow> admit t ex = (r, ex') \<Longrightarrow> wf_executor ex'"
proof (cases r)
  case (Inl e)
  assume "wf_executor ex" "admit t ex = (r, ex')"
  moreover from this(2) Inl have "ex' = ex"
    by (auto simp: admit_def record_tool_call_def Let_def split: sum.splits if_splits)
  ultimately show ?thesis by simp
next
  case (Inr u)
  assume wf: "wf_executor ex" and run: "admit t ex = (r, ex')"
  then have "record_tool_call t (tool_call_count ex t + 1) ex = (Inr u, ex')"
    using Inr by (auto simp: admit_def Let_def split: sum.splits)
  moreover have "tool_call_count ex t + 1 \<le> q" if "ex_quota ex = Some q" for q
    using run Inr that by (auto simp: admit_def Let_def split: sum.splits)
  ultimately show ?thesis using wf wf_record_tool_call by blast
qed

lemma wf_reset: "wf_executor ex \<Longrightarrow> wf_executor (reset t ex)"
  by (auto simp: wf_executor_def reset_def wf_table_delete in_delete
    intro: le_trans [OF length_delete_le])

lemma wf_reset_all: "wf_executor ex \<Longrightarrow> wf_executor (reset_all ex)"
  by (simp add: wf_executor_def reset_all_def)

lemma new_executor_wf: "new_executor a b c = Inr ex \<Longrightarrow> wf_executor ex"
  by (auto simp: new_executor_def and_then_Inr Let_def wf_executor_def integer_from_def
    split: num_or_logger.splits option.splits if_splits)

section \<open>The quota\<close>

text \<open>Any interleaving of the calls of any tasks, and of the releases, is a list of these.\<close>

datatype call_op = Admit string | Release string | ReleaseAll

definition call_step :: "call_op \<Rightarrow> executor \<Rightarrow> bool \<times> executor" where
  "call_step op ex =
    (case op of
       Admit t \<Rightarrow> (case admit t ex of (r, ex') \<Rightarrow> (is_ok r, ex'))
     | Release t \<Rightarrow> (False, reset t ex)
     | ReleaseAll \<Rightarrow> (False, reset_all ex))"

fun run_calls :: "call_op list \<Rightarrow> executor \<Rightarrow> bool list \<times> executor" where
  "run_calls [] ex = ([], ex)"
| "run_calls (op # ops) ex =
    (let (b, ex1) = call_step op ex; (bs, ex2) = run_calls ops ex1 in (b # bs, ex2))"

definition releases :: "string \<Rightarrow> call_op \<Rightarrow> bool" where
  "releases t op = (case op of Release u \<Rightarrow> u = t | ReleaseAll \<Rightarrow> True | Admit _ \<Rightarrow> False)"

definition admitted :: "string \<Rightarrow> call_op list \<Rightarrow> bool list \<Rightarrow> nat" where
  "admitted t ops bs = length (filter (\<lambda>(op, b). op = Admit t \<and> b) (zip ops bs))"

lemma call_step_wf:
  "wf_executor ex \<Longrightarrow> call_step op ex = (b, ex') \<Longrightarrow> wf_executor ex' \<and> ex_quota ex' = ex_quota ex \<and> ex_cap ex' = ex_cap ex"
  by (cases op) (auto simp: call_step_def wf_reset wf_reset_all dest: wf_admit admit_frame split: prod.splits,
    auto simp: reset_def reset_all_def)

lemma tool_call_count_update:
  "tool_call_count (ex\<lparr>ex_counts := AList.update t n c\<rparr>) u = (if u = t then n else tool_call_count (ex\<lparr>ex_counts := c\<rparr>) u)"
  by (simp add: tool_call_count_def update_conv')

lemma admit_counts:
  assumes wf: "wf_executor ex" and q: "ex_quota ex = Some q" and run: "admit t ex = (r, ex')"
  shows "tool_call_count ex' u = tool_call_count ex u + (if u = t \<and> is_ok r then 1 else 0) \<and>
    (is_ok r \<longrightarrow> tool_call_count ex' t \<le> q)"
proof (cases r)
  case (Inl e)
  then have "ex' = ex"
    using run by (auto simp: admit_def record_tool_call_def Let_def split: sum.splits if_splits)
  with Inl show ?thesis by simp
next
  case (Inr x)
  then have rec: "record_tool_call t (tool_call_count ex t + 1) ex = (Inr x, ex')" and "tool_call_count ex t < q"
    using run q by (auto simp: admit_def Let_def split: sum.splits)
  note c = record_tool_call_counts [OF wf rec]
  then have "ex_counts ex' = AList.update t (tool_call_count ex t + 1) (ex_counts ex)" using q by auto
  then show ?thesis using \<open>tool_call_count ex t < q\<close> Inr by (auto simp: tool_call_count_def update_conv')
qed

lemma call_step_counts:
  assumes wf: "wf_executor ex" and q: "ex_quota ex = Some q" and run: "call_step op ex = (b, ex')"
    and "\<not> releases t op"
  shows "tool_call_count ex' t = tool_call_count ex t + admitted t [op] [b]"
proof (cases op)
  case (Admit u)
  then obtain r where r: "admit u ex = (r, ex')" "b = is_ok r"
    using run by (cases "admit u ex") (auto simp: call_step_def)
  show ?thesis using admit_counts [OF wf q r(1), of t] r(2) Admit by (auto simp: admitted_def)
next
  case (Release u)
  then show ?thesis using assms by (auto simp: call_step_def reset_def tool_call_count_def releases_def
    delete_conv' admitted_def)
qed (use assms in \<open>auto simp: releases_def\<close>)

text \<open>While a task is not released, its counter is the number of its calls, and that is at most the quota.\<close>

lemma quota_holds:
  assumes "wf_executor ex" and "ex_quota ex = Some q" and "run_calls ops ex = (bs, ex')"
    and "\<not> list_ex (releases t) ops" and "tool_call_count ex t \<le> q"
  shows "tool_call_count ex' t = tool_call_count ex t + admitted t ops bs \<and> tool_call_count ex' t \<le> q"
  using assms
proof (induction ops arbitrary: ex bs)
  case Nil
  then show ?case by (simp add: admitted_def)
next
  case (Cons op ops)
  obtain b ex1 where step: "call_step op ex = (b, ex1)" by force
  obtain bs1 ex2 where rest: "run_calls ops ex1 = (bs1, ex2)" by force
  have eq: "bs = b # bs1" "ex2 = ex'" using Cons.prems(3) step rest by simp_all
  note wf = call_step_wf [OF Cons.prems(1) step]
  have c: "tool_call_count ex1 t = tool_call_count ex t + admitted t [op] [b]"
    by (rule call_step_counts [OF Cons.prems(1,2) step]) (use Cons.prems(4) in simp)
  have "tool_call_count ex1 t \<le> q"
  proof (cases "admitted t [op] [b] = 0")
    case True
    then show ?thesis using c Cons.prems(5) by simp
  next
    case False
    then have "op = Admit t" "b" by (auto simp: admitted_def split: if_splits)
    then obtain r where "admit t ex = (r, ex1)" "is_ok r"
      using step by (cases "admit t ex") (auto simp: call_step_def)
    then show ?thesis using admit_counts [OF Cons.prems(1,2)] by blast
  qed
  then have "tool_call_count ex' t = tool_call_count ex1 t + admitted t ops bs1 \<and> tool_call_count ex' t \<le> q"
    using Cons.IH [of ex1 bs1] wf Cons.prems(2,4) rest eq by simp
  moreover have "admitted t (op # ops) bs = admitted t [op] [b] + admitted t ops bs1"
    by (simp add: admitted_def eq)
  ultimately show ?case using c by simp
qed

text \<open>Without a quota the counters are a capped table, and the oldest counter gives way.\<close>

definition count_call :: "string \<Rightarrow> unit \<Rightarrow> executor \<Rightarrow> executor" where
  "count_call t u ex = snd (admit t (ex\<lparr>ex_quota := None\<rparr>))"

lemma count_call_eq:
  "count_call t u ex = ex\<lparr>ex_quota := None, ex_counts := AList.update t (tool_call_count ex t + 1)
    (if table_has (ex_counts ex) t then ex_counts ex else make_room (ex_cap ex) (ex_counts ex))\<rparr>"
  by (auto simp: count_call_def admit_def record_tool_call_def Let_def tool_call_count_def)

lemma make_room_keys:
  assumes "distinct (table_keys t)" and "length t \<le> max 1 cap"
  shows "make_room cap t = (if max 1 cap \<le> length t then tl t else t)"
proof (cases "cap = 0")
  case True
  then show ?thesis
  proof (cases t)
    case (Cons x r)
    then have "r = []" using assms True by simp
    then show ?thesis using Cons True by (cases x) (simp add: make_room.simps)
  qed (simp add: make_room.simps)
next
  case False
  then show ?thesis using make_room_wf [of t cap] assms by (simp add: wf_table_def max_def)
qed

lemma keys_count_call:
  assumes "distinct (table_keys (ex_counts ex))" and "length (table_keys (ex_counts ex)) \<le> max 1 (ex_cap ex)"
  shows "table_keys (ex_counts (count_call t u ex)) = capped_keys (max 1 (ex_cap ex)) t (table_keys (ex_counts ex))"
proof (cases "table_has (ex_counts ex) t")
  case True
  then show ?thesis by (simp add: count_call_eq keys_update capped_keys_def)
next
  case False
  let ?c = "ex_counts ex"
  have "t \<notin> fst ` set (tl ?c)" "t \<notin> fst ` set ?c" using False by (cases ?c; auto)+
  then show ?thesis
    using assms by (simp add: count_call_eq keys_update capped_keys_def make_room_keys map_tl)
qed

interpretation counters: capped_map "\<lambda>ex. max 1 (ex_cap ex)" "\<lambda>ex. table_keys (ex_counts ex)"
  "\<lambda>_. True" count_call
proof
  fix k x s
  show "max 1 (ex_cap (count_call k x s)) = max 1 (ex_cap s)" by (simp add: count_call_eq)
qed (auto simp: keys_count_call)

section \<open>execute\<close>

record 'b call_state =
  cs_executor :: executor
  cs_rest :: 'b

type_synonym 'b world = "'b call_state policy_world"

record call_context =
  cx_runtime :: string
  cx_task :: string
  cx_agent_id :: "string option"
  cx_legacy_id :: "string option"

text \<open>
  What surrounds the executor: the event bus, the clock, the tools, and the context object of the call.
  A tool may throw or reject, and may change anything. The context is writable, and whoever holds it may
  reassign its fields, so every read of it is a read of the world at that moment.
\<close>

record 'b surroundings =
  su_emit :: "runtime_event \<Rightarrow> 'b world \<Rightarrow> 'b world"
  su_now :: "'b world \<Rightarrow> string"
  su_tool :: "nat \<Rightarrow> jsval \<Rightarrow> call_context \<Rightarrow> 'b world \<Rightarrow> jsval res \<times> 'b world"
  su_context :: "'b world \<Rightarrow> call_context"

definition request_of :: "string \<Rightarrow> jsval \<Rightarrow> call_context \<Rightarrow> policy_request" where
  "request_of name payload cx = \<lparr>rq_tool = name, rq_payload = payload, rq_runtime = cx_runtime cx,
    rq_task = cx_task cx, rq_agent_id = cx_agent_id cx, rq_legacy_id = cx_legacy_id cx\<rparr>"

definition context_agent :: "call_context \<Rightarrow> string" where
  "context_agent cx = resolve_agent_id (request_of [] JUndefined cx)"

text \<open>The error is made after the listeners of the event have run.\<close>

definition deny_tool :: "'b surroundings \<Rightarrow> string \<Rightarrow> string \<Rightarrow> 'b world \<Rightarrow> 'x res \<times> 'b world" where
  "deny_tool su name reason w =
    (let cx = su_context su w;
         w' = su_emit su (ToolDenied (cx_runtime cx) (cx_task cx) (context_agent cx) name reason (su_now su w)) w
     in (Inl (RuntimeError TOOL_POLICY_DENIED reason
          (Some [(''toolName'', JStr name), (''taskId'', JStr (cx_task (su_context su w'))), (''reason'', JStr reason)])), w'))"

text \<open>
  The verdict on an answer: \<open>None\<close> lets the call through, \<open>Some r\<close> denies it for the reason \<open>r\<close>. A throw
  of the policy, or of a property of its answer, is the fixed reason and nothing else.
\<close>

definition failed_reason :: "string \<Rightarrow> string" where
  "failed_reason name = ''Tool '' @ quoted name @ '' denied because policy evaluation failed.''"

definition verdict :: "string \<Rightarrow> policy_answer res \<Rightarrow> string option" where
  "verdict name r =
    (let standard = ''Tool '' @ quoted name @ '' is denied by runtime policy.'' in
     case r of
       Inl _ \<Rightarrow> Some (failed_reason name)
     | Inr (ABool b) \<Rightarrow> if b then None else Some standard
     | Inr (AOther _) \<Rightarrow> Some standard
     | Inr (AObject al why) \<Rightarrow>
         (case al of
            Inl _ \<Rightarrow> Some (failed_reason name)
          | Inr v \<Rightarrow>
              if v = JBool True then None
              else (case why of
                  Inl _ \<Rightarrow> Some (failed_reason name)
                | Inr (JStr m) \<Rightarrow> Some m
                | Inr _ \<Rightarrow> Some standard)))"

definition assert_tool_allowed ::
  "'b surroundings \<Rightarrow> 'b call_state policy option \<Rightarrow> string \<Rightarrow> jsval \<Rightarrow> 'b world \<Rightarrow> unit res \<times> 'b world" where
  "assert_tool_allowed su policy name payload w =
    (case policy of
       None \<Rightarrow> (Inr (), w)
     | Some p \<Rightarrow>
         (case p (request_of name payload (su_context su w)) w of
            (r, w') \<Rightarrow>
              (case verdict name r of
                 None \<Rightarrow> (Inr (), w')
               | Some reason \<Rightarrow> deny_tool su name reason w')))"

definition admit_world :: "string \<Rightarrow> 'b world \<Rightarrow> unit res \<times> 'b world" where
  "admit_world t w =
    (case admit t (cs_executor (pw_rest w)) of
       (r, ex) \<Rightarrow> (r, w\<lparr>pw_rest := (pw_rest w)\<lparr>cs_executor := ex\<rparr>\<rparr>))"

text \<open>A logger failure after the tool finished is swallowed, so logging leaves no trace here.\<close>

definition invoked_event :: "'b surroundings \<Rightarrow> string \<Rightarrow> 'b world \<Rightarrow> runtime_event" where
  "invoked_event su name w =
    (let cx = su_context su w in ToolInvoked (cx_runtime cx) (cx_task cx) (context_agent cx) name (su_now su w))"

definition execute ::
  "'b surroundings \<Rightarrow> 'b call_state policy option \<Rightarrow> tool_registry \<Rightarrow> string \<Rightarrow> jsval \<Rightarrow> 'b world
    \<Rightarrow> jsval res \<times> 'b world" where
  "execute su policy reg name payload w =
    (case get_tool reg name of
       Inl e \<Rightarrow> (Inl e, w)
     | Inr tool \<Rightarrow>
         (case assert_tool_allowed su policy name payload w of
            (Inl e, w) \<Rightarrow> (Inl e, w)
          | (Inr _, w) \<Rightarrow>
              (case admit_world (cx_task (su_context su w)) w of
                 (Inl e, w) \<Rightarrow> (Inl e, w)
               | (Inr _, w) \<Rightarrow>
                   let w = su_emit su (invoked_event su name w) w
                   in su_tool su (tool_run tool) payload (su_context su w) w)))"

lemma verdict_None: "verdict name r = None \<longleftrightarrow> permits r"
  by (auto simp: verdict_def permits_def decision_allows_def Let_def and_then_def
    split: sum.splits policy_answer.splits if_splits jsval.splits)

text \<open>
  The tool runs at most once, and only for a registered tool, a permitted request and an admitted call;
  in every other case the call is an error and no tool has run.
\<close>

lemma execute_cases:
  assumes "execute su policy reg name payload w = (r, w')"
  obtains (unknown) e where "get_tool reg name = Inl e" "r = Inl e" "w' = w"
  | (denied) tool p reason wp where "get_tool reg name = Inr tool" "policy = Some p"
      "snd (p (request_of name payload (su_context su w)) w) = wp"
      "\<not> permits (fst (p (request_of name payload (su_context su w)) w))"
      "verdict name (fst (p (request_of name payload (su_context su w)) w)) = Some reason"
      "(r, w') = deny_tool su name reason wp"
  | (exhausted) tool wp e where "get_tool reg name = Inr tool"
      "assert_tool_allowed su policy name payload w = (Inr (), wp)"
      "admit (cx_task (su_context su wp)) (cs_executor (pw_rest wp)) = (Inl e, cs_executor (pw_rest w'))" "r = Inl e"
  | (ran) tool wp wa we where "get_tool reg name = Inr tool"
      "case policy of None \<Rightarrow> wp = w | Some p \<Rightarrow> permits (fst (p (request_of name payload (su_context su w)) w)) \<and>
        wp = snd (p (request_of name payload (su_context su w)) w)"
      "admit_world (cx_task (su_context su wp)) wp = (Inr (), wa)" "we = su_emit su (invoked_event su name wa) wa"
      "(r, w') = su_tool su (tool_run tool) payload (su_context su we) we"
proof (cases "get_tool reg name")
  case (Inl e)
  with assms unknown show ?thesis by (simp add: execute_def)
next
  case (Inr tool)
  note tool = this
  let ?q = "request_of name payload (su_context su w)"
  obtain a wp where a: "assert_tool_allowed su policy name payload w = (a, wp)" by force
  show ?thesis
  proof (cases a)
    case (Inl e)
    then obtain p where p: "policy = Some p" using a by (auto simp: assert_tool_allowed_def split: option.splits)
    obtain ans wq where q: "p ?q w = (ans, wq)" by force
    obtain reason where v: "verdict name ans = Some reason"
      using a Inl p q by (cases "verdict name ans") (auto simp: assert_tool_allowed_def)
    have "(r, w') = deny_tool su name reason wq"
      using assms tool a Inl p q v by (auto simp: execute_def assert_tool_allowed_def deny_tool_def Let_def)
    moreover have "\<not> permits ans" using v verdict_None [of name ans] by simp
    ultimately show ?thesis using denied [OF tool p, of wq reason] q v by simp
  next
    case (Inr u)
    have pol: "case policy of None \<Rightarrow> wp = w | Some p \<Rightarrow> permits (fst (p ?q w)) \<and> wp = snd (p ?q w)"
    proof (cases policy)
      case None
      then show ?thesis using a by (simp add: assert_tool_allowed_def)
    next
      case (Some p)
      obtain ans wq where q: "p ?q w = (ans, wq)" by force
      have "verdict name ans = None" "wq = wp"
        using a Inr Some q by (cases "verdict name ans", simp_all add: assert_tool_allowed_def deny_tool_def Let_def)+
      then show ?thesis using Some q verdict_None [of name ans] by simp
    qed
    obtain b wa where b: "admit_world (cx_task (su_context su wp)) wp = (b, wa)" by force
    show ?thesis
    proof (cases b)
      case (Inl e)
      then have "admit (cx_task (su_context su wp)) (cs_executor (pw_rest wp)) = (Inl e, cs_executor (pw_rest wa))"
        using b by (auto simp: admit_world_def split: prod.splits)
      with exhausted [OF tool, of wp e] assms tool a \<open>a = Inr u\<close> b Inl show ?thesis by (auto simp: execute_def)
    next
      case (Inr v)
      with ran [OF tool pol] assms tool a \<open>a = Inr u\<close> b show ?thesis by (auto simp: execute_def Let_def)
    qed
  qed
qed

end
