(* ===== verification/Claim_Store.thy ===== *)
theory Claim_Store
  imports Runtime_Guards File_Lock
begin

text \<open>
  Task claims (\<open>src/tasks/task-claim-store.ts\<close>): the in-memory store, the JSON-file store's
  operations on the parsed document, and the interface both implement.

  The locale \<open>claim_authority\<close> states the interface \<open>TaskClaimStore\<close> over an abstract view
  \<open>gens\<close>: which task ids are claimed, and with which generation (\<open>None\<close> for a legacy record that
  carries none). Both stores are interpretations of it. Current time and \<open>randomUUID\<close> are arguments.
\<close>

record claim_snapshot =
  sn_task :: string
  sn_at :: string
  sn_id :: string

section \<open>The in-memory store\<close>

type_synonym claim_table = "(string, claim_snapshot) table"

definition mem_claim :: "string \<Rightarrow> string \<Rightarrow> string \<Rightarrow> claim_table \<Rightarrow> bool res \<times> claim_table" where
  "mem_claim t now uuid st =
    (if table_has st t then (Inr False, st)
     else (Inr True, AList.update t \<lparr>sn_task = t, sn_at = now, sn_id = uuid\<rparr> st))"

definition mem_release :: "string \<Rightarrow> claim_table \<Rightarrow> unit res \<times> claim_table" where
  "mem_release t st = (Inr (), AList.delete t st)"

definition mem_has :: "string \<Rightarrow> claim_table \<Rightarrow> bool res \<times> claim_table" where
  "mem_has t st = (Inr (table_has st t), st)"

definition mem_inspect :: "string \<Rightarrow> claim_table \<Rightarrow> claim_snapshot option res \<times> claim_table" where
  "mem_inspect t st = (Inr (map_of st t), st)"

definition mem_release_if_matches ::
  "claim_snapshot \<Rightarrow> claim_table \<Rightarrow> bool res \<times> claim_table" where
  "mem_release_if_matches c st =
    (if map_option sn_id (map_of st (sn_task c)) \<noteq> Some (sn_id c) then (Inr False, st)
     else (Inr True, AList.delete (sn_task c) st))"

section \<open>The JSON-file store\<close>

definition is_claim_record :: "json \<Rightarrow> bool" where
  "is_claim_record j \<longleftrightarrow> is_json_object j \<and>
    nonempty_str_field j ''taskId'' \<and> nonempty_str_field j ''claimedAt'' \<and>
    (json_field j ''claimId'' = None \<or> nonempty_str_field j ''claimId'')"

definition load_claims :: "string \<Rightarrow> storage_file \<Rightarrow> json list res" where
  "load_claims path f = load_array \<lparr>as_path = path, as_what = ''task claim'', as_items = ''claims'',
    as_element = ''claim'', as_index = ''claimIndex'', as_type = False\<rparr> is_claim_record f"

definition json_of_claim :: "claim_snapshot \<Rightarrow> json" where
  "json_of_claim c = JsObj [(''taskId'', JsStr (sn_task c)), (''claimedAt'', JsStr (sn_at c)),
     (''claimId'', JsStr (sn_id c))]"

definition claims_task :: "string \<Rightarrow> json \<Rightarrow> bool" where
  "claims_task t j \<longleftrightarrow> json_field j ''taskId'' = Some (JsStr t)"

definition str_of :: "json \<Rightarrow> string \<Rightarrow> string" where
  "str_of j k = (case json_field j k of Some (JsStr s) \<Rightarrow> s | _ \<Rightarrow> [])"

definition as_snapshot :: "json option \<Rightarrow> claim_snapshot option" where
  "as_snapshot c =
    (case c of None \<Rightarrow> None
     | Some j \<Rightarrow> (case json_field j ''claimId'' of
         Some (JsStr g) \<Rightarrow> Some \<lparr>sn_task = str_of j ''taskId'', sn_at = str_of j ''claimedAt'', sn_id = g\<rparr>
       | _ \<Rightarrow> None))"

definition new_file_claims :: "string \<Rightarrow> jsnum option \<Rightarrow> jsnum option \<Rightarrow> (nat \<times> nat) res" where
  "new_file_claims path timeout_opt retry_opt =
    (if blank path then Inl (TypeErr ''task claim storage path must be a non-empty string.'')
     else
       let timeout = (case timeout_opt of None \<Rightarrow> Fin 5 3 | Some v \<Rightarrow> v);
           retry = (case retry_opt of None \<Rightarrow> Fin 1 1 | Some v \<Rightarrow> v) in
       and_then (timer_option timeout ''lockTimeoutMs'' 0) (\<lambda>_.
       and_then (timer_option retry ''lockRetryDelayMs'' 1) (\<lambda>_.
       Inr (nat (num_int timeout), nat (num_int retry)))))"

definition file_claim :: "string \<Rightarrow> string \<Rightarrow> string \<Rightarrow> string \<Rightarrow> bool file_op" where
  "file_claim path t now uuid f =
    (case load_claims path f of
       Inl e \<Rightarrow> (Inl e, None)
     | Inr claims \<Rightarrow>
         if list_ex (claims_task t) claims then (Inr False, None)
         else (Inr True, Some (JsArr (claims @
           [json_of_claim \<lparr>sn_task = t, sn_at = now, sn_id = uuid\<rparr>]))))"

definition file_release :: "string \<Rightarrow> string \<Rightarrow> unit file_op" where
  "file_release path t f =
    (case load_claims path f of
       Inl e \<Rightarrow> (Inl e, None)
     | Inr claims \<Rightarrow>
         let remaining = filter (\<lambda>c. \<not> claims_task t c) claims in
         if length remaining = length claims then (Inr (), None)
         else (Inr (), Some (JsArr remaining)))"

definition file_has :: "string \<Rightarrow> string \<Rightarrow> bool file_op" where
  "file_has path t f =
    (case load_claims path f of
       Inl e \<Rightarrow> (Inl e, None)
     | Inr claims \<Rightarrow> (Inr (list_ex (claims_task t) claims), None))"

definition file_inspect :: "string \<Rightarrow> string \<Rightarrow> claim_snapshot option file_op" where
  "file_inspect path t f =
    (case load_claims path f of
       Inl e \<Rightarrow> (Inl e, None)
     | Inr claims \<Rightarrow> (Inr (as_snapshot (find (claims_task t) claims)), None))"

definition claim_matches :: "claim_snapshot \<Rightarrow> json \<Rightarrow> bool" where
  "claim_matches c j \<longleftrightarrow> claims_task (sn_task c) j \<and>
    json_field j ''claimId'' = Some (JsStr (sn_id c))"

definition file_release_if_matches :: "string \<Rightarrow> claim_snapshot \<Rightarrow> bool file_op" where
  "file_release_if_matches path c f =
    (case load_claims path f of
       Inl e \<Rightarrow> (Inl e, None)
     | Inr claims \<Rightarrow>
         if \<not> list_ex (claim_matches c) claims then (Inr False, None)
         else (Inr True, Some (JsArr (remove_first (claim_matches c) claims))))"

section \<open>The interface\<close>

datatype claim_op =
    OpClaim string string string
  | OpRelease string
  | OpHas string
  | OpInspect string
  | OpReleaseIfMatches claim_snapshot

datatype claim_result = RFlag bool | RDone | RSnapshot "claim_snapshot option"

locale claim_authority =
  fixes ok :: "'s \<Rightarrow> bool"
    and gens :: "'s \<Rightarrow> string \<Rightarrow> string option option"
    and claim :: "string \<Rightarrow> string \<Rightarrow> string \<Rightarrow> 's \<Rightarrow> bool res \<times> 's"
    and release :: "string \<Rightarrow> 's \<Rightarrow> unit res \<times> 's"
    and has :: "string \<Rightarrow> 's \<Rightarrow> bool res \<times> 's"
    and inspect :: "string \<Rightarrow> 's \<Rightarrow> claim_snapshot option res \<times> 's"
    and release_if_matches :: "claim_snapshot \<Rightarrow> 's \<Rightarrow> bool res \<times> 's"
  assumes claim_spec: "\<lbrakk> ok s; t \<noteq> []; now \<noteq> []; g \<noteq> []; claim t now g s = (r, s') \<rbrakk> \<Longrightarrow>
      ok s' \<and> r = Inr (gens s t = None) \<and>
      gens s' = (if gens s t = None then (gens s)(t \<mapsto> Some g) else gens s)"
    and release_spec: "\<lbrakk> ok s; release t s = (u, s') \<rbrakk> \<Longrightarrow>
      ok s' \<and> u = Inr () \<and> gens s' = (gens s)(t := None)"
    and has_spec: "\<lbrakk> ok s; has t s = (r, s') \<rbrakk> \<Longrightarrow> s' = s \<and> r = Inr (gens s t \<noteq> None)"
    and inspect_spec: "\<lbrakk> ok s; inspect t s = (sr, s') \<rbrakk> \<Longrightarrow> s' = s \<and>
      (\<exists>c. sr = Inr c \<and> (case c of
         None \<Rightarrow> gens s t = None \<or> gens s t = Some None
       | Some sn \<Rightarrow> sn_task sn = t \<and> gens s t = Some (Some (sn_id sn))))"
    and release_if_matches_spec: "\<lbrakk> ok s; release_if_matches sn s = (r, s') \<rbrakk> \<Longrightarrow>
      ok s' \<and> r = Inr (gens s (sn_task sn) = Some (Some (sn_id sn))) \<and>
      gens s' = (if gens s (sn_task sn) = Some (Some (sn_id sn))
                 then (gens s)(sn_task sn := None) else gens s)"
begin

definition exec :: "claim_op \<Rightarrow> 's \<Rightarrow> claim_result res \<times> 's" where
  "exec c s =
    (case c of
       OpClaim t now g \<Rightarrow> map_prod (map_sum id RFlag) id (claim t now g s)
     | OpRelease t \<Rightarrow> map_prod (map_sum id (\<lambda>_. RDone)) id (release t s)
     | OpHas t \<Rightarrow> map_prod (map_sum id RFlag) id (has t s)
     | OpInspect t \<Rightarrow> map_prod (map_sum id RSnapshot) id (inspect t s)
     | OpReleaseIfMatches sn \<Rightarrow> map_prod (map_sum id RFlag) id (release_if_matches sn s))"

fun exec_all :: "claim_op list \<Rightarrow> 's \<Rightarrow> claim_result res list \<times> 's" where
  "exec_all [] s = ([], s)"
| "exec_all (c # cs) s =
    (let (r, s1) = exec c s; (rs, s2) = exec_all cs s1 in (r # rs, s2))"

definition well_formed_op :: "claim_op \<Rightarrow> bool" where
  "well_formed_op c = (case c of OpClaim t now g \<Rightarrow> t \<noteq> [] \<and> now \<noteq> [] \<and> g \<noteq> [] | _ \<Rightarrow> True)"

text \<open>The operations that may free a task id.\<close>

definition frees :: "string \<Rightarrow> claim_op \<Rightarrow> bool" where
  "frees t c = (case c of OpRelease u \<Rightarrow> u = t | OpReleaseIfMatches sn \<Rightarrow> sn_task sn = t | _ \<Rightarrow> False)"

lemma exec_cases:
  assumes "ok s" and "well_formed_op c" and "exec c s = (r, s')"
  shows "ok s'"
    and "\<not> frees t c \<Longrightarrow> gens s t \<noteq> None \<Longrightarrow> gens s' t = gens s t"
    and "c = OpClaim t now g \<Longrightarrow> r = Inr (RFlag (gens s t = None)) \<and> gens s' t \<noteq> None"
proof -
  have "ok s' \<and> (\<not> frees t c \<longrightarrow> gens s t \<noteq> None \<longrightarrow> gens s' t = gens s t) \<and>
    (c = OpClaim t now g \<longrightarrow> r = Inr (RFlag (gens s t = None)) \<and> gens s' t \<noteq> None)"
  proof (cases c)
    case (OpClaim u n h)
    obtain r1 s1 where c: "claim u n h s = (r1, s1)" by force
    with claim_spec [OF assms(1) _ _ _ c] assms OpClaim show ?thesis
      by (auto simp: exec_def well_formed_op_def split: if_splits)
  next
    case (OpRelease u)
    obtain r1 s1 where c: "release u s = (r1, s1)" by force
    with release_spec [OF assms(1) c] assms OpRelease show ?thesis
      by (auto simp: exec_def frees_def)
  next
    case (OpHas u)
    obtain r1 s1 where c: "has u s = (r1, s1)" by force
    with has_spec [OF assms(1) c] assms OpHas show ?thesis
      by (auto simp: exec_def)
  next
    case (OpInspect u)
    obtain r1 s1 where c: "inspect u s = (r1, s1)" by force
    with inspect_spec [OF assms(1) c] assms OpInspect show ?thesis
      by (auto simp: exec_def)
  next
    case (OpReleaseIfMatches sn)
    obtain r1 s1 where c: "release_if_matches sn s = (r1, s1)" by force
    with release_if_matches_spec [OF assms(1) c] assms OpReleaseIfMatches show ?thesis
      by (auto simp: exec_def frees_def split: if_splits)
  qed
  then show "ok s'" "\<not> frees t c \<Longrightarrow> gens s t \<noteq> None \<Longrightarrow> gens s' t = gens s t"
    "c = OpClaim t now g \<Longrightarrow> r = Inr (RFlag (gens s t = None)) \<and> gens s' t \<noteq> None"
    by auto
qed

lemma exec_all_ok:
  "ok s \<Longrightarrow> list_all well_formed_op cs \<Longrightarrow> exec_all cs s = (rs, s') \<Longrightarrow> ok s' \<and> length rs = length cs"
proof (induction cs arbitrary: s rs s')
  case Nil
  then show ?case by simp
next
  case (Cons c cs)
  obtain r s1 where c: "exec c s = (r, s1)" by force
  obtain rs1 s2 where cs: "exec_all cs s1 = (rs1, s2)" by force
  have "ok s1" using exec_cases(1) [OF Cons.prems(1) _ c] Cons.prems(2) by simp
  with Cons.IH [OF this _ cs] Cons.prems c cs show ?case by auto
qed

text \<open>A claimed id stays claimed, and every further claim of it fails, until something frees it.\<close>

lemma claimed_stays:
  "\<lbrakk> ok s; list_all well_formed_op cs; gens s t \<noteq> None; \<not> list_ex (frees t) cs;
     exec_all cs s = (rs, s') \<rbrakk> \<Longrightarrow>
    gens s' t = gens s t \<and>
    (\<forall>i now g. i < length cs \<and> cs ! i = OpClaim t now g \<longrightarrow> rs ! i = Inr (RFlag False))"
proof (induction cs arbitrary: s rs s')
  case Nil
  then show ?case by simp
next
  case (Cons c cs)
  obtain r s1 where c: "exec c s = (r, s1)" by force
  obtain rs1 s2 where cs: "exec_all cs s1 = (rs1, s2)" by force
  from Cons.prems(2,4) have wf: "well_formed_op c" "list_all well_formed_op cs"
    and nf: "\<not> frees t c" "\<not> list_ex (frees t) cs" by auto
  note step = exec_cases [OF Cons.prems(1) wf(1) c]
  have gen: "gens s1 t = gens s t" using step(2) [OF nf(1) Cons.prems(3)] .
  have IH: "gens s2 t = gens s1 t \<and>
      (\<forall>i now g. i < length cs \<and> cs ! i = OpClaim t now g \<longrightarrow> rs1 ! i = Inr (RFlag False))"
    by (rule Cons.IH [OF step(1) wf(2) _ nf(2) cs]) (simp add: gen Cons.prems(3))
  have eq: "rs = r # rs1" "s' = s2" using Cons.prems(5) c cs by auto
  have "rs ! i = Inr (RFlag False)" if "i < length (c # cs)" "(c # cs) ! i = OpClaim t now g" for i now g
  proof (cases i)
    case 0
    with that step(3) [of t now g] Cons.prems(3) show ?thesis by (simp add: eq)
  next
    case (Suc j)
    with that IH show ?thesis by (simp add: eq)
  qed
  with IH gen show ?case by (simp add: eq)
qed

lemma exec_all_append:
  "exec_all (xs @ ys) s = (let (rs, s1) = exec_all xs s; (qs, s2) = exec_all ys s1 in (rs @ qs, s2))"
  by (induction xs arbitrary: s) (auto simp: Let_def split: prod.splits)

text \<open>Two successful claims of one id have an operation that frees it between them.\<close>

lemma claim_exclusive:
  assumes ok: "ok s" and wf: "list_all well_formed_op cs" and run: "exec_all cs s = (rs, s')"
    and ij: "i < j" "j < length cs"
    and ci: "cs ! i = OpClaim t n g" "rs ! i = Inr (RFlag True)"
    and cj: "cs ! j = OpClaim t n' g'" "rs ! j = Inr (RFlag True)"
  shows "\<exists>k. i < k \<and> k < j \<and> frees t (cs ! k)"
proof (rule ccontr)
  assume none: "\<not> (\<exists>k. i < k \<and> k < j \<and> frees t (cs ! k))"
  define pre mid where "pre = take i cs" and "mid = drop (Suc i) (take j cs)"
  have split: "cs = pre @ cs ! i # mid @ cs ! j # drop (Suc j) cs"
  proof -
    have "take j cs = take i (take j cs) @ take j cs ! i # drop (Suc i) (take j cs)"
      using ij by (intro id_take_nth_drop) simp
    then have "take j cs = pre @ cs ! i # mid"
      using ij by (simp add: pre_def mid_def min_def)
    moreover have "cs = take j cs @ cs ! j # drop (Suc j) cs"
      using ij by (intro id_take_nth_drop) simp
    ultimately show ?thesis by simp
  qed
  have lens: "length pre = i" "length mid = j - Suc i" using ij by (simp_all add: pre_def mid_def)
  have mid: "\<not> list_ex (frees t) mid"
  proof
    assume "list_ex (frees t) mid"
    then obtain k where "k < length mid" "frees t (mid ! k)" by (auto simp: list_ex_length)
    then have "frees t (cs ! (Suc i + k))" "Suc i + k < j" using ij by (auto simp: mid_def)
    with none show False by (metis add_Suc less_add_Suc1)
  qed
  obtain r0 s0 where r0: "exec_all pre s = (r0, s0)" by force
  obtain ri s1 where ri: "exec (cs ! i) s0 = (ri, s1)" by force
  let ?rest = "mid @ [cs ! j]"
  obtain r1 s2 where r1: "exec_all ?rest s1 = (r1, s2)" by force
  obtain r2 s3 where r2: "exec_all (drop (Suc j) cs) s2 = (r2, s3)" by force
  define post where "post = drop (Suc j) cs"
  have r2': "exec_all post s2 = (r2, s3)" using r2 by (simp only: post_def)
  have tail: "exec_all (?rest @ post) s1 = (r1 @ r2, s3)"
    by (simp add: exec_all_append [of ?rest] r1 r2' del: append_assoc)
  have "exec_all (cs ! i # ?rest @ post) s0 = (ri # r1 @ r2, s3)"
    by (simp add: ri tail del: append_assoc)
  then have "exec_all (pre @ cs ! i # ?rest @ post) s = (r0 @ ri # r1 @ r2, s3)"
    by (simp add: exec_all_append [of pre] r0 del: append_assoc)
  moreover have "pre @ cs ! i # ?rest @ post = cs"
  proof -
    have "pre @ cs ! i # ?rest @ post = pre @ cs ! i # mid @ cs ! j # drop (Suc j) cs"
      by (simp add: post_def)
    also have "\<dots> = cs" by (rule split [symmetric])
    finally show ?thesis .
  qed
  ultimately have rs: "rs = r0 @ ri # r1 @ r2" using run by (simp only: prod.inject)
  have wfs: "list_all well_formed_op pre" "well_formed_op (cs ! i)" "list_all well_formed_op ?rest"
    using wf ij unfolding pre_def mid_def by (auto simp: list_all_iff dest!: in_set_dropD in_set_takeD)
  have ok0: "ok s0" and l0: "length r0 = i" using exec_all_ok [OF ok wfs(1) r0] lens by auto
  have ok1: "ok s1" by (rule exec_cases(1) [OF ok0 wfs(2) ri])
  have held: "gens s1 t \<noteq> None" using exec_cases(3) [OF ok0 wfs(2) ri ci(1)] by simp
  have nofree: "\<not> list_ex (frees t) ?rest" using mid cj(1) by (simp add: frees_def)
  have l1: "length r1 = length ?rest" using exec_all_ok [OF ok1 wfs(3) r1] by simp
  have "?rest ! length mid = OpClaim t n' g'" by (simp add: cj(1))
  with claimed_stays [OF ok1 wfs(3) held nofree r1] have "r1 ! length mid = Inr (RFlag False)"
    by (metis length_append_singleton lessI)
  moreover have "rs ! j = r1 ! length mid"
    using lens l0 l1 ij by (simp add: rs nth_append)
  ultimately show False using cj(2) by simp
qed

text \<open>A snapshot of an older generation can neither match nor remove a newer one.\<close>

lemma stale_snapshot:
  "\<lbrakk> ok s; gens s (sn_task sn) = Some (Some g); g \<noteq> sn_id sn; release_if_matches sn s = (r, s') \<rbrakk>
    \<Longrightarrow> r = Inr False \<and> gens s' = gens s"
  using release_if_matches_spec by fastforce

end

section \<open>Both stores are claim authorities\<close>

definition mem_gens :: "claim_table \<Rightarrow> string \<Rightarrow> string option option" where
  "mem_gens st t = map_option (\<lambda>c. Some (sn_id c)) (map_of st t)"

definition wf_claims :: "claim_table \<Rightarrow> bool" where
  "wf_claims st \<longleftrightarrow> wf_table st \<and> (\<forall>(t, c) \<in> set st. sn_task c = t)"

interpretation mem_claims: claim_authority wf_claims mem_gens mem_claim mem_release mem_has
  mem_inspect mem_release_if_matches
proof
  fix s t now g r s'
  assume ok: "wf_claims s"
  show "t \<noteq> [] \<Longrightarrow> now \<noteq> [] \<Longrightarrow> g \<noteq> [] \<Longrightarrow> mem_claim t now g s = (r, s') \<Longrightarrow>
      wf_claims s' \<and> r = Inr (mem_gens s t = None) \<and>
      mem_gens s' = (if mem_gens s t = None then (mem_gens s)(t \<mapsto> Some g) else mem_gens s)"
    using ok by (auto simp: mem_claim_def mem_gens_def wf_claims_def fun_eq_iff map_of_eq_None_iff
        keys_update_absent map_of_snoc wf_table_snoc split: if_splits)
next
  fix s t and r :: "unit res" and s'
  assume "wf_claims s" "mem_release t s = (r, s')"
  then show "wf_claims s' \<and> r = Inr () \<and> mem_gens s' = (mem_gens s)(t := None)"
    by (auto simp: mem_release_def mem_gens_def wf_claims_def fun_eq_iff delete_conv' in_delete)
next
  fix s t r s'
  assume "wf_claims s" "mem_has t s = (r, s')"
  then show "s' = s \<and> r = Inr (mem_gens s t \<noteq> None)"
    by (auto simp: mem_has_def mem_gens_def map_of_eq_None_iff)
next
  fix s t r s'
  assume ok: "wf_claims s" and run: "mem_inspect t s = (r, s')"
  show "s' = s \<and> (\<exists>c. r = Inr c \<and> (case c of None \<Rightarrow> mem_gens s t = None \<or> mem_gens s t = Some None
      | Some sn \<Rightarrow> sn_task sn = t \<and> mem_gens s t = Some (Some (sn_id sn))))"
  proof (cases "map_of s t")
    case None
    with run show ?thesis by (auto simp: mem_inspect_def mem_gens_def)
  next
    case (Some c)
    then have "sn_task c = t" using ok by (auto simp: wf_claims_def dest: map_of_SomeD)
    with run Some show ?thesis by (auto simp: mem_inspect_def mem_gens_def)
  qed
next
  fix s sn r s'
  assume "wf_claims s" "mem_release_if_matches sn s = (r, s')"
  then show "wf_claims s' \<and> r = Inr (mem_gens s (sn_task sn) = Some (Some (sn_id sn))) \<and>
      mem_gens s' = (if mem_gens s (sn_task sn) = Some (Some (sn_id sn))
        then (mem_gens s)(sn_task sn := None) else mem_gens s)"
    by (auto simp: mem_release_if_matches_def mem_gens_def wf_claims_def fun_eq_iff delete_conv'
        in_delete split: if_splits)
qed

subsection \<open>The file store\<close>

definition claim_task :: "json \<Rightarrow> string" where
  "claim_task j = str_of j ''taskId''"

definition claim_gen :: "json \<Rightarrow> string option" where
  "claim_gen j = (case json_field j ''claimId'' of Some (JsStr g) \<Rightarrow> Some g | _ \<Rightarrow> None)"

definition claim_view :: "json list \<Rightarrow> (string, string option) table" where
  "claim_view cs = map (\<lambda>j. (claim_task j, claim_gen j)) cs"

definition file_gens :: "string \<Rightarrow> storage_file \<Rightarrow> string \<Rightarrow> string option option" where
  "file_gens path f = (case load_claims path f of Inl _ \<Rightarrow> (\<lambda>_. None) | Inr cs \<Rightarrow> map_of (claim_view cs))"

definition file_claims_ok :: "string \<Rightarrow> storage_file \<Rightarrow> bool" where
  "file_claims_ok path f = (case load_claims path f of Inl _ \<Rightarrow> False | Inr cs \<Rightarrow> wf_table (claim_view cs))"

lemma claims_task_iff: "is_claim_record j \<Longrightarrow> claims_task t j \<longleftrightarrow> claim_task j = t"
  by (auto simp: is_claim_record_def nonempty_str_field_def claims_task_def claim_task_def str_of_def
      split: option.splits json.splits)

lemma claim_matches_iff:
  "is_claim_record j \<Longrightarrow> claim_matches c j \<longleftrightarrow> claim_task j = sn_task c \<and> claim_gen j = Some (sn_id c)"
  by (auto simp: claim_matches_def claims_task_iff claim_gen_def split: option.splits json.splits)

lemma view_simps [simp]:
  "claim_view [] = []" "claim_view (j # cs) = (claim_task j, claim_gen j) # claim_view cs"
  "claim_view (xs @ ys) = claim_view xs @ claim_view ys"
  by (simp_all add: claim_view_def)

lemma view_list_ex:
  "list_all is_claim_record cs \<Longrightarrow> list_ex (claims_task t) cs \<longleftrightarrow> map_of (claim_view cs) t \<noteq> None"
  by (induction cs) (auto simp: claims_task_iff)

lemma view_release:
  "list_all is_claim_record cs \<Longrightarrow>
    claim_view (filter (\<lambda>c. \<not> claims_task t c) cs) = AList.delete t (claim_view cs)"
  by (induction cs) (auto simp: claims_task_iff)

lemma view_find:
  "list_all is_claim_record cs \<Longrightarrow>
    (case find (claims_task t) cs of
       None \<Rightarrow> map_of (claim_view cs) t = None
     | Some j \<Rightarrow> claim_task j = t \<and> map_of (claim_view cs) t = Some (claim_gen j))"
  by (induction cs) (auto simp: claims_task_iff split: option.splits)

lemma view_matches:
  "list_all is_claim_record cs \<Longrightarrow> wf_table (claim_view cs) \<Longrightarrow>
    (list_ex (claim_matches c) cs \<longleftrightarrow> map_of (claim_view cs) (sn_task c) = Some (Some (sn_id c))) \<and>
    (list_ex (claim_matches c) cs \<longrightarrow>
      claim_view (remove_first (claim_matches c) cs) = AList.delete (sn_task c) (claim_view cs))"
proof (induction cs)
  case Nil
  then show ?case by simp
next
  case (Cons j cs)
  then have IH: "(list_ex (claim_matches c) cs \<longleftrightarrow>
        map_of (claim_view cs) (sn_task c) = Some (Some (sn_id c))) \<and>
      (list_ex (claim_matches c) cs \<longrightarrow>
        claim_view (remove_first (claim_matches c) cs) = AList.delete (sn_task c) (claim_view cs))"
    and new: "claim_task j \<notin> fst ` set (claim_view cs)"
    by (simp_all add: wf_table_def)
  show ?case
  proof (cases "claim_task j = sn_task c")
    case True
    then have "map_of (claim_view cs) (sn_task c) = None" using new by (simp add: map_of_eq_None_iff)
    moreover have "AList.delete (sn_task c) (claim_view cs) = claim_view cs"
      using new True by (simp add: delete_absent)
    ultimately show ?thesis using IH Cons.prems True by (auto simp: claim_matches_iff)
  next
    case False
    then show ?thesis using IH Cons.prems by (auto simp: claim_matches_iff)
  qed
qed

lemma list_all_remove_first: "list_all p xs \<Longrightarrow> list_all p (remove_first q xs)"
  by (induction xs) auto

lemma list_all_filter_same: "list_all p xs \<Longrightarrow> list_all p (filter q xs)"
  by (induction xs) auto

lemma load_claims_valid: "load_claims path f = Inr cs \<Longrightarrow> list_all is_claim_record cs"
  by (auto simp: load_claims_def load_array_Inr)

lemma file_claims_loaded:
  "file_claims_ok path f \<Longrightarrow> \<exists>cs. load_claims path f = Inr cs \<and> list_all is_claim_record cs \<and>
    wf_table (claim_view cs) \<and> file_gens path f = map_of (claim_view cs)"
  unfolding file_claims_ok_def file_gens_def
  by (cases "load_claims path f") (auto dest: load_claims_valid)

lemma document_claims:
  "list_all is_claim_record cs \<Longrightarrow> load_claims path (Document (JsArr cs)) = Inr cs"
  by (simp add: load_claims_def load_array_document)

lemma document_ok:
  "list_all is_claim_record cs \<Longrightarrow> wf_table (claim_view cs) \<Longrightarrow>
    file_claims_ok path (Document (JsArr cs)) \<and> file_gens path (Document (JsArr cs)) = map_of (claim_view cs)"
  by (simp add: file_claims_ok_def file_gens_def document_claims)

lemma json_of_claim_record:
  "t \<noteq> [] \<Longrightarrow> n \<noteq> [] \<Longrightarrow> g \<noteq> [] \<Longrightarrow>
    is_claim_record (json_of_claim \<lparr>sn_task = t, sn_at = n, sn_id = g\<rparr>)"
  "claim_task (json_of_claim c) = sn_task c" "claim_gen (json_of_claim c) = Some (sn_id c)"
  by (simp_all add: is_claim_record_def json_of_claim_def nonempty_str_field_def claim_task_def
      str_of_def claim_gen_def)

lemma filter_same_length: "length (filter p xs) = length xs \<longleftrightarrow> filter p xs = xs"
  by (metis length_filter_less filter_True order_less_irrefl)

interpretation file_claims: claim_authority "file_claims_ok path" "file_gens path"
  "\<lambda>t now g. run_op (file_claim path t now g)" "\<lambda>t. run_op (file_release path t)" "\<lambda>t. run_op (file_has path t)"
  "\<lambda>t. run_op (file_inspect path t)" "\<lambda>c. run_op (file_release_if_matches path c)" for path
proof
  fix s t now g r s'
  assume ok: "file_claims_ok path s" and ne: "t \<noteq> []" "now \<noteq> []" "g \<noteq> []"
    and run: "run_op (file_claim path t now g) s = (r, s')"
  obtain cs where cs: "load_claims path s = Inr cs" "list_all is_claim_record cs"
    "wf_table (claim_view cs)" "file_gens path s = map_of (claim_view cs)"
    using file_claims_loaded [OF ok] by auto
  let ?new = "json_of_claim \<lparr>sn_task = t, sn_at = now, sn_id = g\<rparr>"
  show "file_claims_ok path s' \<and> r = Inr (file_gens path s t = None) \<and>
      file_gens path s' = (if file_gens path s t = None then (file_gens path s)(t \<mapsto> Some g) else file_gens path s)"
  proof (cases "map_of (claim_view cs) t")
    case None
    then have "t \<notin> fst ` set (claim_view cs)" by (simp add: map_of_eq_None_iff)
    then have "wf_table (claim_view (cs @ [?new]))"
      "map_of (claim_view (cs @ [?new])) = (map_of (claim_view cs))(t \<mapsto> Some g)"
      using cs(3) by (simp_all add: json_of_claim_record wf_table_snoc map_of_snoc)
    with document_ok [of "cs @ [?new]"] None run cs ne show ?thesis
      by (auto simp: run_op_def file_claim_def view_list_ex json_of_claim_record)
  next
    case (Some x)
    with run cs ok show ?thesis by (auto simp: run_op_def file_claim_def view_list_ex)
  qed
next
  fix s t and u :: "unit res" and s'
  assume ok: "file_claims_ok path s" and run: "run_op (file_release path t) s = (u, s')"
  obtain cs where cs: "load_claims path s = Inr cs" "list_all is_claim_record cs"
    "wf_table (claim_view cs)" "file_gens path s = map_of (claim_view cs)"
    using file_claims_loaded [OF ok] by auto
  let ?rest = "filter (\<lambda>c. \<not> claims_task t c) cs"
  have view: "claim_view ?rest = AList.delete t (claim_view cs)" by (rule view_release [OF cs(2)])
  show "file_claims_ok path s' \<and> u = Inr () \<and> file_gens path s' = (file_gens path s)(t := None)"
  proof (cases "length ?rest = length cs")
    case True
    then have "?rest = cs" by (simp add: filter_same_length)
    then have "map_of (claim_view cs) = (map_of (claim_view cs))(t := None)"
      using view by (metis delete_conv')
    with True run cs ok show ?thesis by (simp add: run_op_def file_release_def Let_def)
  next
    case False
    with document_ok [of ?rest] run cs view show ?thesis
      by (auto simp: run_op_def file_release_def Let_def list_all_filter_same delete_conv')
  qed
next
  fix s t r s'
  assume ok: "file_claims_ok path s" and run: "run_op (file_has path t) s = (r, s')"
  from file_claims_loaded [OF ok] run show "s' = s \<and> r = Inr (file_gens path s t \<noteq> None)"
    by (auto simp: run_op_def file_has_def view_list_ex)
next
  fix s t r s'
  assume ok: "file_claims_ok path s" and run: "run_op (file_inspect path t) s = (r, s')"
  obtain cs where cs: "load_claims path s = Inr cs" "list_all is_claim_record cs"
    "file_gens path s = map_of (claim_view cs)"
    using file_claims_loaded [OF ok] by auto
  show "s' = s \<and> (\<exists>c. r = Inr c \<and> (case c of
      None \<Rightarrow> file_gens path s t = None \<or> file_gens path s t = Some None
    | Some sn \<Rightarrow> sn_task sn = t \<and> file_gens path s t = Some (Some (sn_id sn))))"
  proof (cases "find (claims_task t) cs")
    case None
    with view_find [OF cs(2), of t] run cs show ?thesis
      by (auto simp: run_op_def file_inspect_def as_snapshot_def)
  next
    case (Some j)
    with view_find [OF cs(2), of t] run cs show ?thesis
      by (auto simp: run_op_def file_inspect_def as_snapshot_def claim_gen_def claim_task_def
          split: option.splits json.splits)
  qed
next
  fix s sn r s'
  assume ok: "file_claims_ok path s" and run: "run_op (file_release_if_matches path sn) s = (r, s')"
  obtain cs where cs: "load_claims path s = Inr cs" "list_all is_claim_record cs"
    "wf_table (claim_view cs)" "file_gens path s = map_of (claim_view cs)"
    using file_claims_loaded [OF ok] by auto
  note m = view_matches [OF cs(2,3), of sn]
  show "file_claims_ok path s' \<and> r = Inr (file_gens path s (sn_task sn) = Some (Some (sn_id sn))) \<and>
      file_gens path s' = (if file_gens path s (sn_task sn) = Some (Some (sn_id sn))
        then (file_gens path s)(sn_task sn := None) else file_gens path s)"
  proof (cases "list_ex (claim_matches sn) cs")
    case True
    with document_ok [of "remove_first (claim_matches sn) cs"] m run cs show ?thesis
      by (auto simp: run_op_def file_release_if_matches_def list_all_remove_first delete_conv')
  next
    case False
    with m run cs ok show ?thesis by (simp add: run_op_def file_release_if_matches_def)
  qed
qed

text \<open>The five operations as one type of \<open>file_op\<close>, for processes that share the file.\<close>

definition claim_file_op :: "string \<Rightarrow> claim_op \<Rightarrow> claim_result file_op" where
  "claim_file_op path c f =
    (case c of
       OpClaim t now g \<Rightarrow> map_prod (map_sum id RFlag) id (file_claim path t now g f)
     | OpRelease t \<Rightarrow> map_prod (map_sum id (\<lambda>_. RDone)) id (file_release path t f)
     | OpHas t \<Rightarrow> map_prod (map_sum id RFlag) id (file_has path t f)
     | OpInspect t \<Rightarrow> map_prod (map_sum id RSnapshot) id (file_inspect path t f)
     | OpReleaseIfMatches sn \<Rightarrow> map_prod (map_sum id RFlag) id (file_release_if_matches path sn f))"

lemma claim_file_op_exec: "run_op (claim_file_op path c) f = file_claims.exec path c f"
  by (cases c) (auto simp: run_op_def claim_file_op_def file_claims.exec_def split: prod.splits)

lemma outcomes_exec_all:
  "outcomes f (map (claim_file_op path) cs) = fst (file_claims.exec_all path cs f) \<and>
   replay f (map (claim_file_op path) cs) = snd (file_claims.exec_all path cs f)"
  by (induction cs arbitrary: f) (auto simp: claim_file_op_exec Let_def split: prod.splits)

end
