(* ===== verification/Task_Runner.thy ===== *)
theory Task_Runner
  imports Action_Executor Claim_Store Memory_Store
begin

text \<open>
  \<open>TaskRunner\<close> of \<open>src/tasks/task-runner.ts\<close>. The body of \<open>run\<close> is cut at its awaits: every piece between two
  of them is a definition from the local state of the runner and the answer that arrived to the local
  state and the next thing awaited. \<open>Task_Safety\<close> puts the pieces of any number of calls, runners and
  processes together.

  \<open>reconcileUnknownOutcome\<close> is one definition over the operations of the claim store and the authority.
\<close>

section \<open>Tasks and results\<close>

record runtime_task =
  ta_task :: string
  ta_agent :: string
  ta_tool :: string
  ta_input :: string
  ta_payload :: jsval

record task_result =
  tr_task :: string
  tr_agent :: string
  tr_tool :: string
  tr_output :: jsval
  tr_started :: string
  tr_completed :: string
  tr_duration :: int

definition assert_task_fields :: "runtime_task \<Rightarrow> unit res" where
  "assert_task_fields t =
    and_then (assert_non_empty_value (JStr (ta_task t)) ''taskId'' INVALID_TASK) (\<lambda>_.
    and_then (assert_non_empty_value (JStr (ta_agent t)) ''agentId'' INVALID_TASK) (\<lambda>_.
    and_then (assert_non_empty_value (JStr (ta_tool t)) ''toolName'' INVALID_TASK) (\<lambda>_.
    assert_non_empty_value (JStr (ta_input t)) ''input'' INVALID_TASK)))"

text \<open>The context names a task and, if it has an agent with an id, an agent.\<close>

definition assert_task_context :: "runtime_task \<Rightarrow> string \<Rightarrow> string option \<Rightarrow> unit res" where
  "assert_task_context t task_of_context agent_of_context =
    (if ta_task t \<noteq> task_of_context
     then Inl (RuntimeError INVALID_TASK ''task.taskId must match context.taskId.''
       (Some [(''taskId'', JStr (ta_task t)), (''contextTaskId'', JStr task_of_context)]))
     else if Some (ta_agent t) \<noteq> agent_of_context
     then Inl (RuntimeError INVALID_TASK ''task.agentId must match context.agent.agentId.''
       (Some [(''agentId'', JStr (ta_agent t)),
         (''contextAgentId'', case agent_of_context of Some a \<Rightarrow> JStr a | None \<Rightarrow> JUndefined)]))
     else Inr ())"

definition unknown_outcome_error :: "string \<Rightarrow> js_error" where
  "unknown_outcome_error t = RuntimeError TASK_OUTCOME_UNKNOWN
    (''Task '' @ quoted t @ '' cannot be retried safely because its durable outcome is unknown after a previous execution.'')
    (Some [(''taskId'', JStr t)])"

section \<open>The pieces of run\<close>

text \<open>
  \<open>ru_unknown\<close> is \<open>unknownOutcomeTaskIds\<close>; \<open>ru_active\<close> is \<open>activeExecutions\<close> with the identity of the
  promise, here the call that started it.
\<close>

record runner =
  ru_timeout :: "nat option"
  ru_unknown :: "string list"
  ru_active :: "(string, nat) table"

definition new_runner :: "jsnum option \<Rightarrow> runner res" where
  "new_runner timeout =
    (case timeout of
       None \<Rightarrow> Inr \<lparr>ru_timeout = None, ru_unknown = [], ru_active = []\<rparr>
     | Some v \<Rightarrow>
         if integer_within 0 MAX_TIMER_DELAY_MS v
         then Inr \<lparr>ru_timeout = Some (nat (num_int v)), ru_unknown = [], ru_active = []\<rparr>
         else Inl (RangeErr ''TaskRunner timeoutMs must be an integer between 0 and 2147483647.''))"

datatype awaiting =
    AwaitHas
  | AwaitClaim
  | AwaitExecution
  | AwaitAppend task_result
  | AwaitRelease "task_result res"
  | Finished "task_result res"

definition mark_unknown :: "string \<Rightarrow> runner \<Rightarrow> runner" where
  "mark_unknown t r = r\<lparr>ru_unknown := set_add t (ru_unknown r)\<rparr>"

definition forget_unknown :: "string \<Rightarrow> runner \<Rightarrow> runner" where
  "forget_unknown t r = r\<lparr>ru_unknown := set_del t (ru_unknown r)\<rparr>"

definition run_begin :: "runtime_task \<Rightarrow> string \<Rightarrow> string option \<Rightarrow> runner \<Rightarrow> awaiting" where
  "run_begin t task_of_context agent_of_context r =
    (case and_then (assert_task_fields t) (\<lambda>_. assert_task_context t task_of_context agent_of_context) of
       Inl e \<Rightarrow> Finished (Inl e)
     | Inr _ \<Rightarrow> if ta_task t \<in> set (ru_unknown r) then AwaitHas else AwaitClaim)"

definition after_has :: "runtime_task \<Rightarrow> bool res \<Rightarrow> runner \<Rightarrow> awaiting \<times> runner" where
  "after_has t answer r =
    (case answer of
       Inl e \<Rightarrow> (Finished (Inl e), r)
     | Inr True \<Rightarrow> (Finished (Inl (unknown_outcome_error (ta_task t))), r)
     | Inr False \<Rightarrow> (AwaitClaim, forget_unknown (ta_task t) r))"

text \<open>\<open>x\<close> is the call: its execution becomes the active one of the task.\<close>

definition after_claim :: "nat \<Rightarrow> runtime_task \<Rightarrow> bool res \<Rightarrow> runner \<Rightarrow> awaiting \<times> runner" where
  "after_claim x t answer r =
    (case answer of
       Inl e \<Rightarrow> (Finished (Inl e), r)
     | Inr False \<Rightarrow> (Finished (Inl (unknown_outcome_error (ta_task t))), mark_unknown (ta_task t) r)
     | Inr True \<Rightarrow> (AwaitExecution, r\<lparr>ru_active := AList.update (ta_task t) x (ru_active r)\<rparr>))"

text \<open>The callback on the settlement of the execution, and the callback of the timer.\<close>

definition execution_settled :: "nat \<Rightarrow> runtime_task \<Rightarrow> runner \<Rightarrow> runner" where
  "execution_settled x t r =
    (if map_of (ru_active r) (ta_task t) = Some x
     then r\<lparr>ru_active := AList.delete (ta_task t) (ru_active r)\<rparr> else r)"

definition timed_out_error :: "nat \<Rightarrow> js_error" where
  "timed_out_error ms = RuntimeError EXECUTION_FAILED
    (''Task execution timed out after '' @ nat_str ms @ ''ms.'') (Some [(''timeoutMs'', JNum (num_of_nat ms))])"

definition timer_fires :: "nat \<Rightarrow> runtime_task \<Rightarrow> runner \<Rightarrow> jsval res \<times> runner" where
  "timer_fires ms t r = (Inl (timed_out_error ms), mark_unknown (ta_task t) r)"

definition build_result :: "runtime_task \<Rightarrow> jsval \<Rightarrow> string \<Rightarrow> string \<Rightarrow> int \<Rightarrow> task_result" where
  "build_result t output started completed elapsed =
    \<lparr>tr_task = ta_task t, tr_agent = ta_agent t, tr_tool = ta_tool t, tr_output = output,
     tr_started = started, tr_completed = completed, tr_duration = max 0 elapsed\<rparr>"

definition after_execution ::
  "runtime_task \<Rightarrow> jsval res \<Rightarrow> string \<Rightarrow> string \<Rightarrow> int \<Rightarrow> runner \<Rightarrow> awaiting" where
  "after_execution t answer started completed elapsed r =
    (case answer of
       Inl e \<Rightarrow> if ta_task t \<notin> set (ru_unknown r) then AwaitRelease (Inl e) else Finished (Inl e)
     | Inr output \<Rightarrow> AwaitAppend (build_result t output started completed elapsed))"

definition append_failed_error :: "js_error \<Rightarrow> js_error" where
  "append_failed_error e = RuntimeError EXECUTION_FAILED
    (case error_message e of Some m \<Rightarrow> m | None \<Rightarrow> ''Task execution failed.'')
    (case error_message e of Some m \<Rightarrow> Some [(''cause'', JStr m)] | None \<Rightarrow> None)"

definition entry_of :: "runtime_task \<Rightarrow> task_result \<Rightarrow> jsval memory_entry" where
  "entry_of t res = \<lparr>me_agent = ta_agent t, me_task = ta_task t, me_input = ta_input t,
    me_output = tr_output res, me_recorded = tr_completed res\<rparr>"

definition after_append :: "runtime_task \<Rightarrow> task_result \<Rightarrow> unit res \<Rightarrow> runner \<Rightarrow> awaiting \<times> runner" where
  "after_append t res answer r =
    (case answer of
       Inl e \<Rightarrow> (Finished (Inl (append_failed_error e)), mark_unknown (ta_task t) r)
     | Inr _ \<Rightarrow> (AwaitRelease (Inr res), r))"

text \<open>\<open>releaseClaimSafely\<close> and what follows it: a failed release only leaves the marker.\<close>

definition after_release :: "runtime_task \<Rightarrow> task_result res \<Rightarrow> unit res \<Rightarrow> runner \<Rightarrow> awaiting \<times> runner" where
  "after_release t outcome answer r =
    (Finished outcome,
     (case answer of Inr _ \<Rightarrow> forget_unknown (ta_task t) r | Inl _ \<Rightarrow> mark_unknown (ta_task t) r))"

section \<open>Reconciliation\<close>

text \<open>What the authority answered: the properties the code reads, or no object at all.\<close>

datatype raw_decision = RawOther | RawObject "string \<Rightarrow> jsval"

definition safe_reference :: "string \<Rightarrow> bool" where
  "safe_reference s \<longleftrightarrow> s \<noteq> [] \<and> length s \<le> 512 \<and>
    list_all (\<lambda>c. 0x20 \<le> (of_char c :: nat) \<and> (of_char c :: nat) \<le> 0x7e) s"

definition parse_decision :: "raw_decision \<Rightarrow> (string \<times> string) option" where
  "parse_decision raw =
    (case raw of
       RawOther \<Rightarrow> None
     | RawObject get \<Rightarrow>
         (case (get ''confirmedNotApplied'', get ''confirmedQuiescent'', get ''authorityReference'',
             get ''evidenceSha256'') of
            (JBool True, JBool True, JStr reference, JStr evidence) \<Rightarrow>
              if safe_reference reference \<and> \<not> blank reference \<and> is_sha256_hex evidence
              then Some (js_trim reference, evidence) else None
          | _ \<Rightarrow> None))"

record 's reconcile_env =
  rv_authority :: "(claim_snapshot \<Rightarrow> 's \<Rightarrow> raw_decision res \<times> 's) option"
  rv_inspect :: "(string \<Rightarrow> 's \<Rightarrow> claim_snapshot option res \<times> 's) option"
  rv_release_if :: "(claim_snapshot \<Rightarrow> 's \<Rightarrow> bool res \<times> 's) option"
  rv_has :: "string \<Rightarrow> 's \<Rightarrow> bool res \<times> 's"
  rv_active :: "string \<Rightarrow> 's \<Rightarrow> bool"
  rv_forget :: "string \<Rightarrow> 's \<Rightarrow> 's"
  rv_now :: "'s \<Rightarrow> string"

definition reconcile_error :: "error_code \<Rightarrow> string \<Rightarrow> string \<Rightarrow> js_error" where
  "reconcile_error c m t = RuntimeError c m (Some [(''taskId'', JStr t)])"

definition reconcile_claim_error :: "error_code \<Rightarrow> string \<Rightarrow> string \<Rightarrow> string \<Rightarrow> js_error" where
  "reconcile_claim_error c m t g = RuntimeError c m (Some [(''taskId'', JStr t), (''claimId'', JStr g)])"

text \<open>The part after the claim was found.\<close>

definition reconcile_claim ::
  "'s reconcile_env \<Rightarrow> (claim_snapshot \<Rightarrow> 's \<Rightarrow> raw_decision res \<times> 's) \<Rightarrow>
    (claim_snapshot \<Rightarrow> 's \<Rightarrow> bool res \<times> 's) \<Rightarrow> string \<Rightarrow> claim_snapshot \<Rightarrow> 's \<Rightarrow> receipt res \<times> 's" where
  "reconcile_claim env verify release_if t claim s =
    (case verify claim s of
       (Inl _, s) \<Rightarrow> (Inl (reconcile_claim_error TASK_RECONCILIATION_REJECTED
         (''The reconciliation authority could not verify task '' @ quoted t @ ''.'') t (sn_id claim)), s)
     | (Inr raw, s) \<Rightarrow>
         (case parse_decision raw of
            None \<Rightarrow> (Inl (reconcile_claim_error TASK_RECONCILIATION_REJECTED
              (''The reconciliation authority did not provide complete fail-closed proof for task '' @
                quoted t @ ''.'') t (sn_id claim)), s)
          | Some (reference, evidence) \<Rightarrow>
              if rv_active env t s
              then (Inl (reconcile_claim_error TASK_RECONCILIATION_CONFLICT
                (''Task '' @ quoted t @ '' became locally active during reconciliation.'') t (sn_id claim)), s)
              else
                (case release_if claim s of
                   (Inl e, s) \<Rightarrow> (Inl e, s)
                 | (Inr False, s) \<Rightarrow> (Inl (reconcile_claim_error TASK_RECONCILIATION_CONFLICT
                     (''Task '' @ quoted t @ '' claim generation changed before reconciliation could commit.'')
                     t (sn_id claim)), s)
                 | (Inr True, s) \<Rightarrow>
                     (Inr \<lparr>rc_task = t, rc_claim = sn_id claim, rc_claimed_at = sn_at claim,
                        rc_reconciled_at = rv_now env s, rc_reference = reference, rc_evidence = evidence\<rparr>,
                      rv_forget env t s))))"

definition reconcile :: "'s reconcile_env \<Rightarrow> string \<Rightarrow> 's \<Rightarrow> receipt res \<times> 's" where
  "reconcile env t s =
    (case assert_non_empty_value (JStr t) ''taskId'' INVALID_TASK of
       Inl e \<Rightarrow> (Inl e, s)
     | Inr _ \<Rightarrow>
       if rv_active env t s
       then (Inl (reconcile_error TASK_RECONCILIATION_CONFLICT
         (''Task '' @ quoted t @ '' still has an active local execution and cannot be reconciled.'') t), s)
       else
       (case rv_authority env of
          None \<Rightarrow> (Inl (reconcile_error TASK_RECONCILIATION_UNAVAILABLE
            ''No task outcome reconciliation authority is configured.'' t), s)
        | Some verify \<Rightarrow>
          (case (rv_inspect env, rv_release_if env) of
             (Some inspect, Some release_if) \<Rightarrow>
               (case inspect t s of
                  (Inl e, s) \<Rightarrow> (Inl e, s)
                | (Inr (Some claim), s) \<Rightarrow> reconcile_claim env verify release_if t claim s
                | (Inr None, s) \<Rightarrow>
                    (case rv_has env t s of
                       (Inl e, s) \<Rightarrow> (Inl e, s)
                     | (Inr True, s) \<Rightarrow> (Inl (reconcile_error TASK_RECONCILIATION_UNAVAILABLE
                         (''Task '' @ quoted t @ '' has a legacy claim without a reconciliation generation.'') t), s)
                     | (Inr False, s) \<Rightarrow> (Inl (reconcile_error TASK_RECONCILIATION_REJECTED
                         (''Task '' @ quoted t @ '' has no durable unknown-outcome claim to reconcile.'') t), s)))
           | _ \<Rightarrow> (Inl (reconcile_error TASK_RECONCILIATION_UNAVAILABLE
               ''The configured task claim store does not support generation-bound reconciliation.'' t), s))))"

text \<open>A receipt means complete proof for the very generation that was removed.\<close>

lemma parse_decision_Some:
  "parse_decision raw = Some (reference, evidence) \<Longrightarrow>
    \<exists>get r. raw = RawObject get \<and> get ''confirmedNotApplied'' = JBool True \<and>
      get ''confirmedQuiescent'' = JBool True \<and> get ''authorityReference'' = JStr r \<and> safe_reference r \<and>
      \<not> blank r \<and> reference = js_trim r \<and> get ''evidenceSha256'' = JStr evidence \<and> is_sha256_hex evidence"
  by (auto simp: parse_decision_def split: raw_decision.splits jsval.splits bool.splits if_splits)

lemma reconcile_claim_receipt:
  assumes "reconcile_claim env verify release_if t claim s = (Inr r, s')"
  shows "\<exists>raw s1 s2. verify claim s = (Inr raw, s1) \<and> parse_decision raw = Some (rc_reference r, rc_evidence r) \<and>
    \<not> rv_active env t s1 \<and> release_if claim s1 = (Inr True, s2) \<and> s' = rv_forget env t s2 \<and>
    rc_task r = t \<and> rc_claim r = sn_id claim \<and> rc_claimed_at r = sn_at claim"
  using assms
  by (auto simp: reconcile_claim_def split: prod.splits sum.splits option.splits if_splits bool.splits)

lemma reconcile_receipt:
  assumes "reconcile env t s = (Inr r, s')"
  obtains verify inspect release_if claim raw s0 s1 s2 where "rv_authority env = Some verify"
    "rv_inspect env = Some inspect" "rv_release_if env = Some release_if" "\<not> rv_active env t s"
    "inspect t s = (Inr (Some claim), s0)" "verify claim s0 = (Inr raw, s1)"
    "parse_decision raw = Some (rc_reference r, rc_evidence r)" "\<not> rv_active env t s1"
    "release_if claim s1 = (Inr True, s2)" "s' = rv_forget env t s2" "rc_task r = t" "rc_claim r = sn_id claim"
proof -
  from assms obtain verify inspect release_if claim s0 where
    *: "rv_authority env = Some verify" "rv_inspect env = Some inspect" "rv_release_if env = Some release_if"
      "\<not> rv_active env t s" "inspect t s = (Inr (Some claim), s0)"
    and c: "reconcile_claim env verify release_if t claim s0 = (Inr r, s')"
    by (auto simp: reconcile_def split: sum.splits if_splits option.splits prod.splits bool.splits)
  from reconcile_claim_receipt [OF c] show ?thesis using that * by blast
qed

end
