(* ===== verification/Task_Safety.thy ===== *)
theory Task_Safety
  imports Task_Runner
begin

text \<open>
  Any number of runners (each in its own process, or several in one) that share one claim authority
  and run any number of calls. A step is one piece of one call, one operation of the claim or memory
  store, the settlement of a tool, a timer, a crash of a process, or a committed reconciliation.

  The claim authority is what \<open>claim_authority\<close> proves of both claim stores: an id is claimed by at
  most one generation, here the call that made the claim. A failed store operation has no effect.
  A timer is a later task of the event loop than any promise callback, so it fires only when no call
  of its runner has an answer waiting. The reconciliation authority is trusted in what it confirms:
  the call whose generation it releases has ended and its tool has settled.
\<close>

datatype answer =
    AnswerFlag "bool res"
  | AnswerDone "unit res"
  | AnswerOutput "jsval res"

record call =
  ca_runner :: nat
  ca_task :: runtime_task
  ca_wait :: awaiting
  ca_answer :: "answer option"
  ca_invoked :: bool
  ca_live :: bool

text \<open>How the outcome of an execution became known, if it did.\<close>

datatype resolution = ToolFailed | ResultRecorded | Reconciled

record system =
  sy_claims :: "string \<Rightarrow> nat option"
  sy_calls :: "nat \<Rightarrow> call option"
  sy_runners :: "nat \<Rightarrow> runner"
  sy_recorded :: "nat list"
  sy_resolved :: "nat \<Rightarrow> resolution option"

abbreviation task_id :: "call \<Rightarrow> string" where
  "task_id c \<equiv> ta_task (ca_task c)"

text \<open>One call after its answer arrived, with its runner.\<close>

definition resume :: "nat \<Rightarrow> string \<Rightarrow> string \<Rightarrow> int \<Rightarrow> call \<Rightarrow> runner \<Rightarrow> (awaiting \<times> runner) option" where
  "resume x started completed elapsed c r =
    (case (ca_wait c, ca_answer c) of
       (AwaitHas, Some (AnswerFlag a)) \<Rightarrow> Some (after_has (ca_task c) a r)
     | (AwaitClaim, Some (AnswerFlag a)) \<Rightarrow> Some (after_claim x (ca_task c) a r)
     | (AwaitExecution, Some (AnswerOutput out)) \<Rightarrow>
         Some (after_execution (ca_task c) out started completed elapsed r, r)
     | (AwaitAppend res, Some (AnswerDone a)) \<Rightarrow> Some (after_append (ca_task c) res a r)
     | (AwaitRelease outcome, Some (AnswerDone a)) \<Rightarrow> Some (after_release (ca_task c) outcome a r)
     | _ \<Rightarrow> None)"

definition starts :: "call \<Rightarrow> bool" where
  "starts c \<longleftrightarrow> ca_wait c = AwaitClaim \<and> ca_answer c = Some (AnswerFlag (Inr True))"

definition resumed :: "awaiting \<Rightarrow> call \<Rightarrow> call" where
  "resumed w c = c\<lparr>ca_wait := w, ca_answer := None, ca_invoked := ca_invoked c \<or> starts c,
    ca_live := ca_live c \<or> starts c\<rparr>"

definition finished :: "call \<Rightarrow> bool" where
  "finished c = (case ca_wait c of Finished _ \<Rightarrow> True | _ \<Rightarrow> False)"

definition with_call :: "nat \<Rightarrow> call \<Rightarrow> system \<Rightarrow> system" where
  "with_call x c s = s\<lparr>sy_calls := (sy_calls s)(x \<mapsto> c)\<rparr>"

definition with_runner :: "nat \<Rightarrow> runner \<Rightarrow> system \<Rightarrow> system" where
  "with_runner p r s = s\<lparr>sy_runners := (sy_runners s)(p := r)\<rparr>"

definition answered :: "answer \<Rightarrow> call \<Rightarrow> call" where
  "answered a c = c\<lparr>ca_answer := Some a\<rparr>"

definition crashed_call :: "call \<Rightarrow> call" where
  "crashed_call c = c\<lparr>ca_wait := Finished (Inl (PlainErr ''process ended'')), ca_answer := None, ca_live := False\<rparr>"

definition restarted :: "runner \<Rightarrow> runner" where
  "restarted r = r\<lparr>ru_unknown := [], ru_active := []\<rparr>"

inductive system_step :: "system \<Rightarrow> system \<Rightarrow> bool" where
  submit: "sy_calls s x = None \<Longrightarrow>
    system_step s (with_call x \<lparr>ca_runner = p, ca_task = t, ca_wait = run_begin t ct ag (sy_runners s p),
      ca_answer = None, ca_invoked = False, ca_live = False\<rparr> s)"
| store_has: "sy_calls s x = Some c \<Longrightarrow> ca_wait c = AwaitHas \<Longrightarrow> ca_answer c = None \<Longrightarrow>
    a = Inr (sy_claims s (task_id c) \<noteq> None) \<or> a = Inl e \<Longrightarrow>
    system_step s (with_call x (answered (AnswerFlag a) c) s)"
| store_claim: "sy_calls s x = Some c \<Longrightarrow> ca_wait c = AwaitClaim \<Longrightarrow> ca_answer c = None \<Longrightarrow>
    sy_claims s (task_id c) = None \<Longrightarrow>
    system_step s (with_call x (answered (AnswerFlag (Inr True)) c)
      (s\<lparr>sy_claims := (sy_claims s)(task_id c \<mapsto> x)\<rparr>))"
| store_refuse: "sy_calls s x = Some c \<Longrightarrow> ca_wait c = AwaitClaim \<Longrightarrow> ca_answer c = None \<Longrightarrow>
    sy_claims s (task_id c) \<noteq> None \<and> a = Inr False \<or> a = Inl e \<Longrightarrow>
    system_step s (with_call x (answered (AnswerFlag a) c) s)"
| tool_settles: "sy_calls s x = Some c \<Longrightarrow> ca_live c \<Longrightarrow>
    system_step s (with_runner (ca_runner c) (execution_settled x (ca_task c) (sy_runners s (ca_runner c)))
      (with_call x (c\<lparr>ca_live := False, ca_answer :=
        if ca_wait c = AwaitExecution \<and> ca_answer c = None then Some (AnswerOutput out) else ca_answer c\<rparr>) s))"
| timer: "sy_calls s x = Some c \<Longrightarrow> ca_wait c = AwaitExecution \<Longrightarrow> ca_answer c = None \<Longrightarrow> ca_live c \<Longrightarrow>
    ru_timeout (sy_runners s (ca_runner c)) = Some ms \<Longrightarrow>
    (\<And>y d. sy_calls s y = Some d \<Longrightarrow> ca_runner d = ca_runner c \<Longrightarrow> ca_answer d = None) \<Longrightarrow>
    timer_fires ms (ca_task c) (sy_runners s (ca_runner c)) = (out, r) \<Longrightarrow>
    system_step s (with_runner (ca_runner c) r (with_call x (answered (AnswerOutput out) c) s))"
| append: "sy_calls s x = Some c \<Longrightarrow> ca_wait c = AwaitAppend res \<Longrightarrow> ca_answer c = None \<Longrightarrow>
    system_step s (with_call x (answered (AnswerDone (Inr ())) c) (s\<lparr>sy_recorded := sy_recorded s @ [x]\<rparr>))"
| append_fails: "sy_calls s x = Some c \<Longrightarrow> ca_wait c = AwaitAppend res \<Longrightarrow> ca_answer c = None \<Longrightarrow>
    system_step s (with_call x (answered (AnswerDone (Inl e)) c) s)"
| store_release: "sy_calls s x = Some c \<Longrightarrow> ca_wait c = AwaitRelease outcome \<Longrightarrow> ca_answer c = None \<Longrightarrow>
    system_step s (with_call x (answered (AnswerDone (Inr ())) c)
      (s\<lparr>sy_claims := (sy_claims s)(task_id c := None),
         sy_resolved := (sy_resolved s)(x \<mapsto> (case outcome of Inl _ \<Rightarrow> ToolFailed | Inr _ \<Rightarrow> ResultRecorded))\<rparr>))"
| release_fails: "sy_calls s x = Some c \<Longrightarrow> ca_wait c = AwaitRelease outcome \<Longrightarrow> ca_answer c = None \<Longrightarrow>
    system_step s (with_call x (answered (AnswerDone (Inl e)) c) s)"
| resume: "sy_calls s x = Some c \<Longrightarrow>
    resume x started completed elapsed c (sy_runners s (ca_runner c)) = Some (w, r) \<Longrightarrow>
    system_step s (with_runner (ca_runner c) r (with_call x (resumed w c) s))"
| crash: "system_step s (with_runner p (restarted (sy_runners s p))
    (s\<lparr>sy_calls := (\<lambda>x. map_option (\<lambda>c. if ca_runner c = p then crashed_call c else c) (sy_calls s x))\<rparr>))"
| reconcile: "sy_claims s t = Some x \<Longrightarrow> sy_calls s x = Some c \<Longrightarrow> finished c \<Longrightarrow> \<not> ca_live c \<Longrightarrow>
    map_of (ru_active (sy_runners s p)) t = None \<Longrightarrow>
    system_step s (with_runner p (forget_unknown t (sy_runners s p))
      (s\<lparr>sy_claims := (sy_claims s)(t := None), sy_resolved := (sy_resolved s)(x \<mapsto> Reconciled)\<rparr>))"

abbreviation system_steps :: "system \<Rightarrow> system \<Rightarrow> bool" where
  "system_steps \<equiv> rtranclp system_step"

definition fresh_system :: "(nat \<Rightarrow> nat option) \<Rightarrow> system" where
  "fresh_system timeouts = \<lparr>sy_claims = (\<lambda>_. None), sy_calls = (\<lambda>_. None),
    sy_runners = (\<lambda>p. \<lparr>ru_timeout = timeouts p, ru_unknown = [], ru_active = []\<rparr>),
    sy_recorded = [], sy_resolved = (\<lambda>_. None)\<rparr>"

section \<open>The invariant\<close>

text \<open>The phases in which a call must still own the claim of its task.\<close>

definition holding :: "call \<Rightarrow> bool" where
  "holding c =
    (case ca_wait c of
       AwaitClaim \<Rightarrow> ca_answer c = Some (AnswerFlag (Inr True))
     | AwaitExecution \<Rightarrow> True
     | AwaitAppend _ \<Rightarrow> True
     | AwaitRelease _ \<Rightarrow> ca_answer c \<noteq> Some (AnswerDone (Inr ()))
     | _ \<Rightarrow> False)"

definition waits_invoked :: "awaiting \<Rightarrow> bool option" where
  "waits_invoked w =
    (case w of
       AwaitHas \<Rightarrow> Some False | AwaitClaim \<Rightarrow> Some False
     | AwaitExecution \<Rightarrow> Some True | AwaitAppend _ \<Rightarrow> Some True | AwaitRelease _ \<Rightarrow> Some True
     | Finished _ \<Rightarrow> None)"

definition call_ok :: "system \<Rightarrow> nat \<Rightarrow> call \<Rightarrow> bool" where
  "call_ok s x c \<longleftrightarrow>
    (holding c \<or> ca_invoked c \<and> sy_resolved s x = None \<longrightarrow> sy_claims s (task_id c) = Some x) \<and>
    (holding c \<longrightarrow> sy_resolved s x = None) \<and>
    (ca_live c \<longrightarrow> ca_invoked c \<and> sy_resolved s x = None) \<and>
    (\<not> ca_invoked c \<and> \<not> finished c \<longrightarrow> sy_resolved s x = None) \<and>
    (\<forall>b. waits_invoked (ca_wait c) = Some b \<longrightarrow> ca_invoked c = b) \<and>
    (\<forall>res. ca_wait c = AwaitAppend res \<and> ca_answer c = Some (AnswerDone (Inr ())) \<longrightarrow> x \<in> set (sy_recorded s)) \<and>
    (\<forall>res. ca_wait c = AwaitRelease (Inr res) \<longrightarrow> x \<in> set (sy_recorded s)) \<and>
    (\<forall>o'. (\<exists>res. ca_wait c = AwaitAppend res) \<or> ca_wait c = AwaitRelease o' \<longrightarrow> \<not> ca_live c) \<and>
    (sy_resolved s x = Some ResultRecorded \<longrightarrow> x \<in> set (sy_recorded s))"

text \<open>
  A call that timed out while its tool runs, and has not been told yet: the marker is set, and no
  other call of the runner is about to remove it.
\<close>

definition ambiguous :: "call \<Rightarrow> bool" where
  "ambiguous c \<longleftrightarrow> ca_wait c = AwaitExecution \<and> ca_live c \<and> ca_answer c \<noteq> None"

definition forgets :: "call \<Rightarrow> bool" where
  "forgets d \<longleftrightarrow> ca_wait d = AwaitHas \<and> ca_answer d = Some (AnswerFlag (Inr False)) \<or>
    (\<exists>out. ca_wait d = AwaitRelease out) \<and> ca_answer d = Some (AnswerDone (Inr ()))"

definition marked :: "system \<Rightarrow> call \<Rightarrow> bool" where
  "marked s c \<longleftrightarrow>
    (\<exists>e. ca_answer c = Some (AnswerOutput (Inl e))) \<and>
    task_id c \<in> set (ru_unknown (sy_runners s (ca_runner c))) \<and>
    (\<forall>y d. sy_calls s y = Some d \<and> ca_runner d = ca_runner c \<and> task_id d = task_id c \<longrightarrow> \<not> forgets d)"

definition safe :: "system \<Rightarrow> bool" where
  "safe s \<longleftrightarrow>
    (\<forall>x c. sy_calls s x = Some c \<longrightarrow> call_ok s x c \<and> (ambiguous c \<longrightarrow> marked s c)) \<and>
    (\<forall>t x. sy_claims s t = Some x \<longrightarrow> (\<exists>c. sy_calls s x = Some c \<and> task_id c = t)) \<and>
    (\<forall>x. sy_calls s x = None \<longrightarrow> sy_resolved s x = None)"

lemma safe_fresh: "safe (fresh_system ts)"
  by (simp add: safe_def fresh_system_def)

lemma safe_call:
  assumes "safe s" and "sy_calls s x = Some c"
  shows "call_ok s x c" and "ambiguous c \<Longrightarrow> marked s c"
  using assms by (auto simp: safe_def)

lemma safe_owner:
  assumes "safe s" and "sy_claims s t = Some z"
  obtains c where "sy_calls s z = Some c" "task_id c = t"
  using assms unfolding safe_def by blast

lemma call_ok_owner:
  "call_ok s x c \<Longrightarrow> holding c \<or> ca_live c \<Longrightarrow> sy_claims s (task_id c) = Some x"
  by (auto simp: call_ok_def)

lemma ambiguous_owner: "safe s \<Longrightarrow> sy_calls s y = Some d \<Longrightarrow> ambiguous d \<Longrightarrow> sy_claims s (task_id d) = Some y"
  using safe_call(1) [of s y d] by (auto simp: call_ok_def ambiguous_def)

lemma call_ok_frame:
  assumes "call_ok s y d" and "sy_claims s (task_id d) = Some y \<Longrightarrow> sy_claims s' (task_id d) = Some y"
    and "sy_resolved s' y = sy_resolved s y" and "set (sy_recorded s) \<subseteq> set (sy_recorded s')"
  shows "call_ok s' y d"
proof -
  have "holding d \<or> ca_invoked d \<and> sy_resolved s y = None \<longrightarrow> sy_claims s' (task_id d) = Some y"
    using assms(1,2) unfolding call_ok_def by blast
  then show ?thesis
    using assms(1,4) unfolding call_ok_def assms(3) by blast
qed

text \<open>One call changes; the rest of the system only in ways that leave the other calls as they are.\<close>

lemma safe_update:
  assumes safe: "safe s" and x: "sy_calls s x = Some c"
    and calls: "sy_calls s' = (sy_calls s)(x \<mapsto> c')"
    and same: "ca_task c' = ca_task c" "ca_runner c' = ca_runner c"
    and ok: "call_ok s' x c'" and amb: "ambiguous c' \<Longrightarrow> marked s' c'"
    and claims: "\<And>y d. y \<noteq> x \<Longrightarrow> sy_calls s y = Some d \<Longrightarrow> sy_claims s (task_id d) = Some y \<Longrightarrow> sy_claims s' (task_id d) = Some y"
    and owners: "\<And>t z. sy_claims s' t = Some z \<Longrightarrow> sy_claims s t = Some z \<or> z = x \<and> t = task_id c"
    and resolved: "\<And>y. y \<noteq> x \<Longrightarrow> sy_resolved s' y = sy_resolved s y"
    and recorded: "set (sy_recorded s) \<subseteq> set (sy_recorded s')"
    and unknown: "\<And>y d. y \<noteq> x \<Longrightarrow> sy_calls s y = Some d \<Longrightarrow> ambiguous d \<Longrightarrow> marked s d \<Longrightarrow>
      task_id d \<in> set (ru_unknown (sy_runners s' (ca_runner d)))"
    and forget: "\<And>y d. forgets c' \<Longrightarrow> y \<noteq> x \<Longrightarrow> sy_calls s y = Some d \<Longrightarrow> ambiguous d \<Longrightarrow> marked s d \<Longrightarrow>
      task_id d = task_id c \<Longrightarrow> ca_runner d \<noteq> ca_runner c"
  shows "safe s'"
  unfolding safe_def
proof (intro conjI allI impI)
  fix y d assume y: "sy_calls s' y = Some d"
  show "call_ok s' y d"
  proof (cases "y = x")
    case True
    then show ?thesis using y calls ok by simp
  next
    case False
    then have d: "sy_calls s y = Some d" using y calls by simp
    show ?thesis
      by (rule call_ok_frame [OF safe_call(1) [OF safe d]]) (use False d claims resolved recorded in auto)
  qed
next
  fix y d assume y: "sy_calls s' y = Some d" and a: "ambiguous d"
  show "marked s' d"
  proof (cases "y = x")
    case True
    then show ?thesis using y calls amb a by simp
  next
    case False
    then have d: "sy_calls s y = Some d" using y calls by simp
    note m = safe_call(2) [OF safe d a]
    have "\<not> forgets e" if "sy_calls s' z = Some e" "ca_runner e = ca_runner d" "task_id e = task_id d" for z e
    proof (cases "z = x")
      case True
      then have "e = c'" using that(1) calls by simp
      then show ?thesis using forget [of y d] False d a m that same by auto
    next
      case False
      then show ?thesis using m that calls by (auto simp: marked_def)
    qed
    then show ?thesis using m unknown [OF False d a m] by (auto simp: marked_def)
  qed
next
  fix t z assume "sy_claims s' t = Some z"
  from owners [OF this] show "\<exists>c. sy_calls s' z = Some c \<and> task_id c = t"
  proof
    assume "sy_claims s t = Some z"
    then obtain e where "sy_calls s z = Some e" "task_id e = t" by (rule safe_owner [OF safe])
    then show ?thesis using x calls same by (cases "z = x") auto
  qed (use calls same in simp)
next
  fix y assume "sy_calls s' y = None"
  then show "sy_resolved s' y = None" using safe calls resolved by (auto simp: safe_def split: if_splits)
qed

lemma with_simps [simp]:
  "sy_calls (with_call x c s) = (sy_calls s)(x \<mapsto> c)" "sy_claims (with_call x c s) = sy_claims s"
  "sy_runners (with_call x c s) = sy_runners s" "sy_recorded (with_call x c s) = sy_recorded s"
  "sy_resolved (with_call x c s) = sy_resolved s"
  "sy_calls (with_runner p r s) = sy_calls s" "sy_claims (with_runner p r s) = sy_claims s"
  "sy_runners (with_runner p r s) = (sy_runners s)(p := r)" "sy_recorded (with_runner p r s) = sy_recorded s"
  "sy_resolved (with_runner p r s) = sy_resolved s"
  by (simp_all add: with_call_def with_runner_def)

lemma answered_simps [simp]:
  "ca_runner (answered a c) = ca_runner c" "ca_task (answered a c) = ca_task c" "ca_wait (answered a c) = ca_wait c"
  "ca_answer (answered a c) = Some a" "ca_invoked (answered a c) = ca_invoked c" "ca_live (answered a c) = ca_live c"
  by (simp_all add: answered_def)

lemma resumed_simps [simp]:
  "ca_runner (resumed w c) = ca_runner c" "ca_task (resumed w c) = ca_task c" "ca_wait (resumed w c) = w"
  "ca_answer (resumed w c) = None" "ca_invoked (resumed w c) = (ca_invoked c \<or> starts c)"
  "ca_live (resumed w c) = (ca_live c \<or> starts c)"
  by (simp_all add: resumed_def)

lemma runner_simps [simp]:
  "ru_unknown (mark_unknown t r) = set_add t (ru_unknown r)" "ru_unknown (forget_unknown t r) = set_del t (ru_unknown r)"
  "ru_unknown (execution_settled x tk r) = ru_unknown r" "ru_unknown (restarted r) = []"
  by (simp_all add: mark_unknown_def forget_unknown_def execution_settled_def restarted_def)

lemma not_forgets [simp]: "ca_answer d = None \<Longrightarrow> \<not> forgets d" "ca_answer d = None \<Longrightarrow> \<not> ambiguous d"
  by (auto simp: forgets_def ambiguous_def)

subsection \<open>Every step keeps it\<close>

lemma run_begin_wait:
  "run_begin t ct ag r = AwaitHas \<or> run_begin t ct ag r = AwaitClaim \<or> (\<exists>e. run_begin t ct ag r = Finished e)"
  by (auto simp: run_begin_def split: sum.splits)

lemma safe_submit:
  assumes safe: "safe s" and new: "sy_calls s x = None"
  shows "safe (with_call x \<lparr>ca_runner = p, ca_task = t, ca_wait = run_begin t ct ag (sy_runners s p),
      ca_answer = None, ca_invoked = False, ca_live = False\<rparr> s)" (is "safe (with_call x ?c s)")
  unfolding safe_def
proof (intro conjI allI impI)
  have "sy_resolved s x = None" using safe new by (auto simp: safe_def)
  then have okx: "call_ok (with_call x ?c s) x ?c"
    using run_begin_wait [of t ct ag "sy_runners s p"]
    by (auto simp: call_ok_def finished_def holding_def waits_invoked_def split: awaiting.splits)
  fix y d assume y: "sy_calls (with_call x ?c s) y = Some d"
  show "call_ok (with_call x ?c s) y d"
  proof (cases "y = x")
    case True
    then show ?thesis using y okx by simp
  next
    case False
    then have "sy_calls s y = Some d" using y by simp
    from safe_call(1) [OF safe this] show ?thesis by (rule call_ok_frame) auto
  qed
  assume a: "ambiguous d"
  then have "y \<noteq> x" using y by (auto simp: ambiguous_def)
  then have "sy_calls s y = Some d" using y by simp
  from safe_call(2) [OF safe this a] show "marked (with_call x ?c s) d"
    by (auto simp: marked_def)
next
  fix u z assume "sy_claims (with_call x ?c s) u = Some z"
  then obtain c where "sy_calls s z = Some c" "task_id c = u" using safe_owner [OF safe] by auto
  then show "\<exists>c. sy_calls (with_call x ?c s) z = Some c \<and> task_id c = u" using new by auto
next
  fix y assume "sy_calls (with_call x ?c s) y = None"
  then show "sy_resolved (with_call x ?c s) y = None" using safe by (auto simp: safe_def split: if_splits)
qed

text \<open>An answer that is neither a claim, a release nor an outcome of the execution.\<close>

lemma safe_plain_answer:
  assumes safe: "safe s" and x: "sy_calls s x = Some c" and none: "ca_answer c = None"
    and wait: "ca_wait c \<noteq> AwaitExecution" and a: "a \<noteq> AnswerFlag (Inr True) \<or> ca_wait c \<noteq> AwaitClaim"
    and d: "a = AnswerDone (Inr ()) \<Longrightarrow> (\<forall>out. ca_wait c \<noteq> AwaitRelease out) \<and>
      ((\<exists>res. ca_wait c = AwaitAppend res) \<longrightarrow> x \<in> set (sy_recorded s))"
    and f: "a = AnswerFlag (Inr False) \<Longrightarrow> ca_wait c = AwaitHas \<Longrightarrow> sy_claims s (task_id c) = None"
  shows "safe (with_call x (answered a c) s)"
proof (rule safe_update [OF safe x])
  show "call_ok (with_call x (answered a c) s) x (answered a c)"
    using safe_call(1) [OF safe x] none wait a d unfolding call_ok_def finished_def holding_def
    by (cases "ca_wait c") auto
next
  fix y d assume "forgets (answered a c)" "y \<noteq> x" "sy_calls s y = Some d" "ambiguous d" "task_id d = task_id c"
  then show "ca_runner d \<noteq> ca_runner c"
    using ambiguous_owner [OF safe, of y d] d f by (auto simp: forgets_def)
qed (use wait in \<open>auto simp: marked_def ambiguous_def\<close>)

lemma safe_store_claim:
  assumes safe: "safe s" and x: "sy_calls s x = Some c" and wait: "ca_wait c = AwaitClaim" "ca_answer c = None"
    and free: "sy_claims s (task_id c) = None"
  shows "safe (with_call x (answered (AnswerFlag (Inr True)) c) (s\<lparr>sy_claims := (sy_claims s)(task_id c \<mapsto> x)\<rparr>))"
proof (rule safe_update [OF safe x])
  show "call_ok (with_call x (answered (AnswerFlag (Inr True)) c) (s\<lparr>sy_claims := (sy_claims s)(task_id c \<mapsto> x)\<rparr>))
      x (answered (AnswerFlag (Inr True)) c)"
    using safe_call(1) [OF safe x] wait by (auto simp: call_ok_def finished_def holding_def waits_invoked_def)
qed (use wait free in \<open>auto simp: marked_def ambiguous_def forgets_def split: if_splits\<close>)

lemma safe_append:
  assumes safe: "safe s" and x: "sy_calls s x = Some c" and wait: "ca_wait c = AwaitAppend res" "ca_answer c = None"
  shows "safe (with_call x (answered (AnswerDone (Inr ())) c) (s\<lparr>sy_recorded := sy_recorded s @ [x]\<rparr>))"
proof (rule safe_update [OF safe x])
  show "call_ok (with_call x (answered (AnswerDone (Inr ())) c) (s\<lparr>sy_recorded := sy_recorded s @ [x]\<rparr>))
      x (answered (AnswerDone (Inr ())) c)"
    using safe_call(1) [OF safe x] wait by (auto simp: call_ok_def finished_def holding_def waits_invoked_def)
qed (use wait in \<open>auto simp: marked_def ambiguous_def forgets_def\<close>)

lemma safe_store_release:
  assumes safe: "safe s" and x: "sy_calls s x = Some c" and wait: "ca_wait c = AwaitRelease outcome" "ca_answer c = None"
  shows "safe (with_call x (answered (AnswerDone (Inr ())) c)
      (s\<lparr>sy_claims := (sy_claims s)(task_id c := None),
         sy_resolved := (sy_resolved s)(x \<mapsto> (case outcome of Inl _ \<Rightarrow> ToolFailed | Inr _ \<Rightarrow> ResultRecorded))\<rparr>))"
    (is "safe ?t")
proof -
  note ok = safe_call(1) [OF safe x]
  have "holding c" using wait by (simp add: holding_def)
  then have own: "sy_claims s (task_id c) = Some x" using call_ok_owner [OF ok] by simp
  show ?thesis
  proof (rule safe_update [OF safe x])
    show "call_ok ?t x (answered (AnswerDone (Inr ())) c)"
      using ok wait by (auto simp: call_ok_def finished_def holding_def waits_invoked_def split: sum.splits)
  next
    fix y d assume "y \<noteq> x" "sy_calls s y = Some d" "ambiguous d" "task_id d = task_id c"
    then show "ca_runner d \<noteq> ca_runner c" using ambiguous_owner [OF safe, of y d] own by simp
  qed (use wait own in \<open>auto simp: marked_def ambiguous_def split: if_splits\<close>)
qed

lemma safe_tool_settles:
  assumes safe: "safe s" and x: "sy_calls s x = Some c" and live: "ca_live c"
  shows "safe (with_runner (ca_runner c) (execution_settled x (ca_task c) (sy_runners s (ca_runner c)))
      (with_call x (c\<lparr>ca_live := False, ca_answer :=
        if ca_wait c = AwaitExecution \<and> ca_answer c = None then Some (AnswerOutput out) else ca_answer c\<rparr>) s))"
    (is "safe ?t")
proof -
  let ?c = "c\<lparr>ca_live := False, ca_answer :=
        if ca_wait c = AwaitExecution \<and> ca_answer c = None then Some (AnswerOutput out) else ca_answer c\<rparr>"
  note ok = safe_call(1) [OF safe x]
  have "ca_wait c = AwaitExecution \<or> (\<exists>o'. ca_wait c = Finished o')"
    using ok live by (cases "ca_wait c") (auto simp: call_ok_def waits_invoked_def)
  then have waits: "\<not> forgets ?c" "holding ?c \<longleftrightarrow> holding c"
    by (auto simp: forgets_def holding_def)
  show ?thesis
  proof (rule safe_update [OF safe x])
    show "call_ok ?t x ?c"
      using \<open>ca_wait c = AwaitExecution \<or> _\<close>
    proof (elim disjE exE)
      assume "ca_wait c = AwaitExecution"
      then show ?thesis using ok live by (simp add: call_ok_def waits_invoked_def finished_def holding_def)
    next
      fix o' assume "ca_wait c = Finished o'"
      then show ?thesis using ok live by (simp add: call_ok_def waits_invoked_def finished_def holding_def)
    qed
  qed (use waits in \<open>auto simp: marked_def ambiguous_def\<close>)
qed

lemma safe_timer:
  assumes safe: "safe s" and x: "sy_calls s x = Some c" and wait: "ca_wait c = AwaitExecution" "ca_answer c = None"
    and quiet: "\<And>y d. sy_calls s y = Some d \<Longrightarrow> ca_runner d = ca_runner c \<Longrightarrow> ca_answer d = None"
    and fires: "timer_fires ms (ca_task c) (sy_runners s (ca_runner c)) = (out, r)"
  shows "safe (with_runner (ca_runner c) r (with_call x (answered (AnswerOutput out) c) s))" (is "safe ?t")
proof -
  have r: "r = mark_unknown (task_id c) (sy_runners s (ca_runner c))" and out: "out = Inl (timed_out_error ms)"
    using fires by (auto simp: timer_fires_def)
  have nf: "\<not> forgets (answered (AnswerOutput out) c)" by (simp add: forgets_def wait)
  show ?thesis
  proof (rule safe_update [OF safe x])
    show "call_ok ?t x (answered (AnswerOutput out) c)"
      using safe_call(1) [OF safe x] wait by (auto simp: call_ok_def finished_def holding_def waits_invoked_def)
  next
    show "marked ?t (answered (AnswerOutput out) c)"
      using quiet nf by (auto simp: marked_def out r dest: not_forgets(1))
  qed (use nf in \<open>auto simp: marked_def r\<close>)
qed

text \<open>The piece of a call after its answer.\<close>

lemma resume_cases:
  assumes "resume x st co el c r = Some (w, r')"
  obtains (has) a where "ca_wait c = AwaitHas" "ca_answer c = Some (AnswerFlag a)" "after_has (ca_task c) a r = (w, r')"
  | (claim) a where "ca_wait c = AwaitClaim" "ca_answer c = Some (AnswerFlag a)" "after_claim x (ca_task c) a r = (w, r')"
  | (execution) out where "ca_wait c = AwaitExecution" "ca_answer c = Some (AnswerOutput out)"
      "w = after_execution (ca_task c) out st co el r" "r' = r"
  | (append) res a where "ca_wait c = AwaitAppend res" "ca_answer c = Some (AnswerDone a)"
      "after_append (ca_task c) res a r = (w, r')"
  | (release) o' a where "ca_wait c = AwaitRelease o'" "ca_answer c = Some (AnswerDone a)"
      "after_release (ca_task c) o' a r = (w, r')"
proof -
  obtain a where a: "ca_answer c = Some a"
    using assms by (cases "ca_answer c"; cases "ca_wait c") (simp_all add: resume_def)
  show thesis
  proof (cases "ca_wait c")
    case AwaitHas
    then show thesis using assms a has by (cases a) (simp_all add: resume_def)
  next
    case AwaitClaim
    then show thesis using assms a claim by (cases a) (simp_all add: resume_def)
  next
    case AwaitExecution
    with assms a obtain out where "a = AnswerOutput out"
      by (cases a) (simp_all add: resume_def)
    with assms a AwaitExecution show thesis
      by (intro execution [of out]) (auto simp: resume_def)
  next
    case (AwaitAppend res)
    then show thesis using assms a append by (cases a) (simp_all add: resume_def)
  next
    case (AwaitRelease o')
    then show thesis using assms a release by (cases a) (simp_all add: resume_def)
  qed (use assms a in \<open>simp add: resume_def\<close>)
qed

text \<open>Removing the marker of a task is harmless to every call whose time-out is pending.\<close>

lemma resume_unknown:
  assumes "resume x st co el c r = Some (w, r')" and "t \<in> set (ru_unknown r)"
  shows "t \<in> set (ru_unknown r') \<or> forgets c \<and> t = task_id c"
  using assms(1)
proof (cases rule: resume_cases)
  case (has a)
  then show ?thesis using assms(2) by (auto simp: after_has_def forgets_def split: sum.splits bool.splits)
next
  case (claim a)
  then show ?thesis using assms(2) by (auto simp: after_claim_def split: sum.splits bool.splits)
next
  case (append res a)
  then show ?thesis using assms(2) by (auto simp: after_append_def split: sum.splits)
next
  case (release o' a)
  then show ?thesis using assms(2) by (auto simp: after_release_def forgets_def split: sum.splits)
qed (use assms in auto)

lemma safe_resume:
  assumes safe: "safe s" and x: "sy_calls s x = Some c"
    and res: "resume x st co el c (sy_runners s (ca_runner c)) = Some (w, r)"
  shows "safe (with_runner (ca_runner c) r (with_call x (resumed w c) s))" (is "safe ?t")
proof (rule safe_update [OF safe x])
  note ok = safe_call(1) [OF safe x]
  show "call_ok ?t x (resumed w c)"
    using res
  proof (cases rule: resume_cases)
    case (has a)
    then show ?thesis using ok
      by (auto simp: call_ok_def finished_def after_has_def holding_def waits_invoked_def starts_def split: sum.splits bool.splits)
  next
    case (claim a)
    then show ?thesis using ok
      by (auto simp: call_ok_def finished_def after_claim_def holding_def waits_invoked_def starts_def split: sum.splits bool.splits)
  next
    case (execution out)
    have "\<not> ca_live c" if "\<exists>v. out = Inr v \<or> task_id c \<notin> set (ru_unknown (sy_runners s (ca_runner c)))"
      using safe_call(2) [OF safe x] execution that by (auto simp: ambiguous_def marked_def)
    with execution ok show ?thesis
      by (auto simp: call_ok_def finished_def after_execution_def holding_def waits_invoked_def starts_def split: sum.splits if_splits)
  next
    case (append res' a)
    then show ?thesis using ok
      by (auto simp: call_ok_def finished_def after_append_def holding_def waits_invoked_def starts_def split: sum.splits)
  next
    case (release o' a)
    then show ?thesis using ok
      by (auto simp: call_ok_def finished_def after_release_def holding_def waits_invoked_def starts_def split: sum.splits)
  qed
next
  fix y d assume y: "y \<noteq> x" "sy_calls s y = Some d" "ambiguous d" "marked s d"
  show "task_id d \<in> set (ru_unknown (sy_runners ?t (ca_runner d)))"
  proof (cases "ca_runner d = ca_runner c")
    case True
    moreover have "\<not> (forgets c \<and> task_id d = task_id c)" using y x True by (auto simp: marked_def)
    ultimately show ?thesis using resume_unknown [OF res, of "task_id d"] y(4) by (auto simp: marked_def)
  qed (use y in \<open>simp add: marked_def\<close>)
qed (auto simp: marked_def)

lemma crashed_simps [simp]:
  "\<not> ambiguous (crashed_call c)" "\<not> forgets (crashed_call c)" "ca_task (crashed_call c) = ca_task c"
  "ca_runner (crashed_call c) = ca_runner c"
  by (simp_all add: crashed_call_def ambiguous_def forgets_def)

lemma safe_crash:
  assumes safe: "safe s"
  shows "safe (with_runner p (restarted (sy_runners s p))
    (s\<lparr>sy_calls := (\<lambda>x. map_option (\<lambda>c. if ca_runner c = p then crashed_call c else c) (sy_calls s x))\<rparr>))"
    (is "safe ?t")
  unfolding safe_def
proof (intro conjI allI impI)
  fix y d assume "sy_calls ?t y = Some d"
  then obtain c where c: "sy_calls s y = Some c" "d = (if ca_runner c = p then crashed_call c else c)" by auto
  note ok = safe_call(1) [OF safe c(1)]
  show "call_ok ?t y d"
    using ok c(2) by (auto simp: call_ok_def finished_def crashed_call_def holding_def waits_invoked_def)
  assume a: "ambiguous d"
  then have d: "ca_runner c \<noteq> p" "d = c" using c(2) by (auto split: if_splits)
  have "\<not> forgets e" if e: "sy_calls ?t z = Some e" "ca_runner e = ca_runner d" "task_id e = task_id d" for z e
    using e safe_call(2) [OF safe c(1)] a d by (auto simp: marked_def split: if_splits)
  then show "marked ?t d" using safe_call(2) [OF safe c(1)] a d by (auto simp: marked_def)
next
  fix t z assume "sy_claims ?t t = Some z"
  then obtain c where "sy_calls s z = Some c" "task_id c = t" using safe_owner [OF safe] by auto
  then show "\<exists>c. sy_calls ?t z = Some c \<and> task_id c = t" by auto
next
  fix y assume "sy_calls ?t y = None"
  then show "sy_resolved ?t y = None" using safe by (auto simp: safe_def)
qed

lemma safe_reconcile:
  assumes safe: "safe s" and own: "sy_claims s t = Some x" and x: "sy_calls s x = Some c"
    and fin: "finished c" "\<not> ca_live c"
  shows "safe (with_runner p (forget_unknown t (sy_runners s p))
      (s\<lparr>sy_claims := (sy_claims s)(t := None), sy_resolved := (sy_resolved s)(x \<mapsto> Reconciled)\<rparr>))"
    (is "safe ?t")
  unfolding safe_def
proof (intro conjI allI impI)
  have t: "task_id c = t" using safe_owner [OF safe own] x by auto
  fix y d assume y: "sy_calls ?t y = Some d"
  then have y': "sy_calls s y = Some d" by simp
  note ok = safe_call(1) [OF safe y']
  show "call_ok ?t y d"
  proof (cases "y = x")
    case True
    then have "d = c" using y' x by simp
    then show ?thesis
      using ok fin True unfolding call_ok_def
      by (cases "ca_wait c") (auto simp: holding_def finished_def waits_invoked_def)
  next
    case False
    then show ?thesis by (intro call_ok_frame [OF ok]) (use own False in auto)
  qed
  assume a: "ambiguous d"
  have "y \<noteq> x" using a y' x fin by (auto simp: ambiguous_def)
  moreover have "sy_claims s (task_id d) = Some y" using ambiguous_owner [OF safe y' a] .
  ultimately have "task_id d \<noteq> t" using own by auto
  then show "marked ?t d" using safe_call(2) [OF safe y' a] by (auto simp: marked_def)
next
  fix u z assume "sy_claims ?t u = Some z"
  then obtain c where "sy_calls s z = Some c" "task_id c = u"
    using safe_owner [OF safe] by (auto split: if_splits)
  then show "\<exists>c. sy_calls ?t z = Some c \<and> task_id c = u" by simp
next
  fix y assume "sy_calls ?t y = None"
  then show "sy_resolved ?t y = None" using safe x by (auto simp: safe_def split: if_splits)
qed

lemma safe_step: "system_step s s' \<Longrightarrow> safe s \<Longrightarrow> safe s'"
proof (induction rule: system_step.induct)
  case (submit s x p t ct ag)
  then show ?case by (intro safe_submit)
next
  case (store_has s x c a e)
  then show ?case by (intro safe_plain_answer) auto
next
  case (store_claim s x c)
  then show ?case by (intro safe_store_claim)
next
  case (store_refuse s x c a e)
  then show ?case by (intro safe_plain_answer) auto
next
  case (tool_settles s x c out)
  then show ?case by (intro safe_tool_settles)
next
  case (timer s x c ms out r)
  then show ?case by (intro safe_timer) auto
next
  case (append s x c res)
  then show ?case by (intro safe_append)
next
  case (append_fails s x c res e)
  then show ?case by (intro safe_plain_answer) auto
next
  case (store_release s x c outcome)
  then show ?case by (intro safe_store_release)
next
  case (release_fails s x c outcome e)
  then show ?case by (intro safe_plain_answer) auto
next
  case (resume s x c st co el w r)
  then show ?case by (intro safe_resume)
next
  case (crash s p)
  then show ?case by (intro safe_crash)
next
  case (reconcile s t x c p)
  then show ?case by (intro safe_reconcile)
qed

lemma reachable_safe: "system_steps (fresh_system ts) s \<Longrightarrow> safe s"
  by (induction rule: rtranclp_induct) (auto intro: safe_fresh safe_step)

lemma safe_invoked_owner:
  assumes "safe s" "sy_calls s x = Some c" "ca_invoked c" "sy_resolved s x = None"
  shows "sy_claims s (task_id c) = Some x"
  using safe_call(1) [OF assms(1,2)] assms(3,4) by (simp add: call_ok_def)

lemma safe_unique_invocation:
  assumes "safe s" "sy_calls s x = Some c" "sy_calls s y = Some d" "task_id c = task_id d"
    and "ca_invoked c" "sy_resolved s x = None" "ca_invoked d" "sy_resolved s y = None"
  shows "x = y"
  using safe_invoked_owner [of s x c] safe_invoked_owner [of s y d] assms by simp

lemma safe_live: "safe s \<Longrightarrow> sy_calls s x = Some c \<Longrightarrow> ca_live c \<Longrightarrow> ca_invoked c \<and> sy_resolved s x = None"
  using safe_call(1) [of s x c] by (simp add: call_ok_def)

lemma safe_resolved_recorded:
  "safe s \<Longrightarrow> sy_calls s x = Some c \<Longrightarrow> sy_resolved s x = Some ResultRecorded \<Longrightarrow> x \<in> set (sy_recorded s)"
  using safe_call(1) [of s x c] by (simp add: call_ok_def)

section \<open>A run\<close>

text \<open>
  One runner without a time limit: a call claims its task and invokes its tool; a second call of the
  same task is refused; then the tool of the first call throws.
\<close>

definition demo_task :: runtime_task where
  "demo_task = \<lparr>ta_task = ''t1'', ta_agent = ''a'', ta_tool = ''pay'', ta_input = ''go'', ta_payload = JNull\<rparr>"

definition demo_call :: "awaiting \<Rightarrow> answer option \<Rightarrow> bool \<Rightarrow> bool \<Rightarrow> call" where
  "demo_call w a i l = \<lparr>ca_runner = 0, ca_task = demo_task, ca_wait = w, ca_answer = a, ca_invoked = i, ca_live = l\<rparr>"

definition demo_state :: "(nat \<Rightarrow> call option) \<Rightarrow> nat option \<Rightarrow> string list \<Rightarrow> (string, nat) table \<Rightarrow> system" where
  "demo_state calls owner unknown active = \<lparr>sy_claims = (\<lambda>t. if t = ''t1'' then owner else None), sy_calls = calls,
    sy_runners = (\<lambda>p. if p = 0 then \<lparr>ru_timeout = None, ru_unknown = unknown, ru_active = active\<rparr>
      else \<lparr>ru_timeout = None, ru_unknown = [], ru_active = []\<rparr>),
    sy_recorded = [], sy_resolved = (\<lambda>_. None)\<rparr>"

lemma demo_begin: "ta_task demo_task \<notin> set (ru_unknown r) \<Longrightarrow> run_begin demo_task ''t1'' (Some ''a'') r = AwaitClaim"
  by (simp add: run_begin_def demo_task_def assert_task_fields_def assert_task_context_def
    assert_non_empty_value_def blank_def js_trim_def Let_def strip_ws.simps ws_seqs_def)

lemma demo_submit:
  assumes "calls x = None" and "''t1'' \<notin> set unknown"
  shows "system_step (demo_state calls owner unknown active)
    (demo_state (calls(x \<mapsto> demo_call AwaitClaim None False False)) owner unknown active)"
proof -
  let ?s = "demo_state calls owner unknown active"
  have b: "run_begin demo_task ''t1'' (Some ''a'') (sy_runners ?s 0) = AwaitClaim"
    by (rule demo_begin) (use assms in \<open>simp add: demo_state_def demo_task_def\<close>)
  have "system_step ?s (with_call x \<lparr>ca_runner = 0, ca_task = demo_task,
      ca_wait = run_begin demo_task ''t1'' (Some ''a'') (sy_runners ?s 0),
      ca_answer = None, ca_invoked = False, ca_live = False\<rparr> ?s)"
    by (rule system_step.submit) (simp add: demo_state_def assms)
  then show ?thesis unfolding b by (simp add: demo_state_def with_call_def demo_call_def)
qed

lemma demo_invoked:
  "system_steps (demo_state [0 \<mapsto> demo_call AwaitClaim None False False] None [] [])
    (demo_state [0 \<mapsto> demo_call AwaitExecution None True True] (Some 0) [] [(''t1'', 0)])"
    (is "system_steps ?s1 ?s3")
proof -
  let ?s2 = "demo_state [0 \<mapsto> demo_call AwaitClaim (Some (AnswerFlag (Inr True))) False False] (Some 0) [] []"
  have "system_step ?s1 ?s2"
    using system_step.store_claim [of ?s1 0 "demo_call AwaitClaim None False False"]
    by (simp add: demo_state_def demo_call_def demo_task_def answered_def with_call_def fun_upd_def if_distrib cong: if_cong)
  moreover have "system_step ?s2 ?s3"
    using system_step.resume [of ?s2 0 "demo_call AwaitClaim (Some (AnswerFlag (Inr True))) False False"
      "[]" "[]" 0 AwaitExecution "\<lparr>ru_timeout = None, ru_unknown = [], ru_active = [(''t1'', 0)]\<rparr>"]
    by (simp add: demo_state_def demo_call_def demo_task_def with_call_def with_runner_def resumed_def starts_def
      resume_def after_claim_def fun_upd_def if_distrib cong: if_cong)
  ultimately show ?thesis by (meson rtranclp.rtrancl_into_rtrancl rtranclp.rtrancl_refl)
qed

lemma demo_fresh: "fresh_system (\<lambda>_. None) = demo_state Map.empty None [] []"
  by (auto simp: demo_state_def fresh_system_def)

lemma demo_running:
  "system_steps (fresh_system (\<lambda>_. None))
    (demo_state [0 \<mapsto> demo_call AwaitExecution None True True] (Some 0) [] [(''t1'', 0)])"
proof -
  have "system_step (fresh_system (\<lambda>_. None)) (demo_state [0 \<mapsto> demo_call AwaitClaim None False False] None [] [])"
    unfolding demo_fresh by (rule demo_submit) simp_all
  then show ?thesis using demo_invoked by (rule converse_rtranclp_into_rtranclp)
qed

lemma demo_state_simps:
  "with_call x c (demo_state calls owner unknown active) = demo_state (calls(x \<mapsto> c)) owner unknown active"
  "with_runner 0 \<lparr>ru_timeout = None, ru_unknown = u, ru_active = a\<rparr> (demo_state calls owner unknown active) =
    demo_state calls owner u a"
  "sy_calls (demo_state calls owner unknown active) = calls"
  "sy_runners (demo_state calls owner unknown active) 0 = \<lparr>ru_timeout = None, ru_unknown = unknown, ru_active = active\<rparr>"
  "sy_claims (demo_state calls owner unknown active) ''t1'' = owner"
  by (auto simp: demo_state_def with_call_def with_runner_def)

lemma demo_call_simps:
  "ca_task (demo_call w a i l) = demo_task" "ca_runner (demo_call w a i l) = 0" "ta_task demo_task = ''t1''"
  "ca_wait (demo_call w a i l) = w" "ca_answer (demo_call w a i l) = a" "ca_live (demo_call w a i l) = l"
  "ca_invoked (demo_call w a i l) = i"
  "answered b (demo_call w a i l) = demo_call w (Some b) i l"
  "starts (demo_call w a i l) \<longleftrightarrow> w = AwaitClaim \<and> a = Some (AnswerFlag (Inr True))"
  "resumed v (demo_call w a i l) = demo_call v None (i \<or> starts (demo_call w a i l)) (l \<or> starts (demo_call w a i l))"
  "(demo_call w a i l)\<lparr>ca_live := l', ca_answer := a'\<rparr> = demo_call w a' i l'"
  by (simp_all add: demo_call_def demo_task_def answered_def resumed_def starts_def)

lemma demo_duplicate:
  "system_steps (fresh_system (\<lambda>_. None))
    (demo_state [0 \<mapsto> demo_call (Finished (Inl (PlainErr ''boom''))) None True False,
      1 \<mapsto> demo_call (Finished (Inl (unknown_outcome_error ''t1''))) None False False] (Some 0) [''t1''] [])"
    (is "system_steps _ ?s5")
proof -
  let ?running = "demo_call AwaitExecution None True True"
  let ?s0 = "demo_state [0 \<mapsto> ?running] (Some 0) [] [(''t1'', 0)]"
  let ?s1 = "demo_state [0 \<mapsto> ?running, 1 \<mapsto> demo_call AwaitClaim None False False] (Some 0) [] [(''t1'', 0)]"
  let ?s2 = "demo_state [0 \<mapsto> ?running,
    1 \<mapsto> demo_call AwaitClaim (Some (AnswerFlag (Inr False))) False False] (Some 0) [] [(''t1'', 0)]"
  let ?s3 = "demo_state [0 \<mapsto> ?running,
    1 \<mapsto> demo_call (Finished (Inl (unknown_outcome_error ''t1''))) None False False] (Some 0) [''t1''] [(''t1'', 0)]"
  let ?s4 = "demo_state [0 \<mapsto> demo_call AwaitExecution (Some (AnswerOutput (Inl (PlainErr ''boom'')))) True False,
    1 \<mapsto> demo_call (Finished (Inl (unknown_outcome_error ''t1''))) None False False] (Some 0) [''t1''] []"
  note evals = demo_state_simps demo_call_simps resume_def
  have "system_step ?s0 ?s1" by (rule demo_submit) simp_all
  moreover have "system_step ?s1 ?s2"
    using system_step.store_refuse [of ?s1 1 "demo_call AwaitClaim None False False" "Inr False" "PlainErr []"]
    by (simp add: evals)
  moreover have "system_step ?s2 ?s3"
    using system_step.resume [of ?s2 1 "demo_call AwaitClaim (Some (AnswerFlag (Inr False))) False False"
      "[]" "[]" 0 "Finished (Inl (unknown_outcome_error ''t1''))"
      "\<lparr>ru_timeout = None, ru_unknown = [''t1''], ru_active = [(''t1'', 0)]\<rparr>"]
    by (simp add: evals after_claim_def mark_unknown_def set_add_def)
  moreover have "system_step ?s3 ?s4"
    using system_step.tool_settles [of ?s3 0 ?running "Inl (PlainErr ''boom'')"]
    by (simp add: evals execution_settled_def fun_upd_twist)
  moreover have "system_step ?s4 ?s5"
    using system_step.resume [of ?s4 0 "demo_call AwaitExecution (Some (AnswerOutput (Inl (PlainErr ''boom'')))) True False"
      "[]" "[]" 0 "Finished (Inl (PlainErr ''boom''))" "\<lparr>ru_timeout = None, ru_unknown = [''t1''], ru_active = []\<rparr>"]
    by (simp add: evals after_execution_def fun_upd_twist)
  ultimately have "system_steps ?s0 ?s5"
    by (elim rtranclp.rtrancl_into_rtrancl [OF rtranclp.rtrancl_into_rtrancl [OF rtranclp.rtrancl_into_rtrancl
      [OF rtranclp.rtrancl_into_rtrancl [OF r_into_rtranclp]]]])
  with demo_running show ?thesis by (rule rtranclp_trans)
qed

end
