(* ===== verification/Js_Double.thy ===== *)
theory Js_Double
  imports Js_Values
begin

text \<open>
  The double-precision arithmetic the code does on fractional numbers. A number is named by its
  shortest decimal (\<open>Js_Values\<close>); the double it names is the one nearest to that decimal, ties to the
  even mantissa. A positive double is \<open>(m, k)\<close>, standing for \<open>m * 2 ^ k\<close> with \<open>k\<close> at least -1074.
  Overflow to infinity is left out: the code multiplies and reads back only numbers far below it.
\<close>

section \<open>Shortest decimals\<close>

text \<open>The trailing zeros of the mantissa move to the exponent: one representation per decimal.\<close>

function strip_zeros_of :: "nat \<Rightarrow> int \<Rightarrow> nat \<times> int" where
  "strip_zeros_of m e = (if m \<noteq> 0 \<and> 10 dvd m then strip_zeros_of (m div 10) (e + 1) else (m, e))"
  by pat_completeness auto
termination
  by (relation "measure (\<lambda>(m, e). m)") auto

declare strip_zeros_of.simps [simp del]

fun shortest :: "jsnum \<Rightarrow> jsnum" where
  "shortest (Fin m e) =
    (if m = 0 then Fin 0 0
     else case strip_zeros_of (nat \<bar>m\<bar>) e of (m', e') \<Rightarrow> Fin (sgn m * int m') e')"
| "shortest v = v"

text \<open>\<open>===\<close>: numbers are equal when they are the same double, zeros of either sign are equal, NaN is
  not equal to itself.\<close>

fun strict_equal :: "jsval \<Rightarrow> jsval \<Rightarrow> bool" where
  "strict_equal (JNum a) (JNum b) =
    (a \<noteq> NaN \<and> (let zero = (\<lambda>v. if v = NegZero then Fin 0 0 else v) in
       shortest (zero a) = shortest (zero b)))"
| "strict_equal v w = (v = w)"

lemma strip_zeros_of_value:
  "strip_zeros_of m e = (m', e') \<Longrightarrow> \<exists>z. m = m' * 10 ^ z \<and> e' = e + int z"
proof (induction m e rule: strip_zeros_of.induct)
  case (1 m e)
  show ?case
  proof (cases "m \<noteq> 0 \<and> 10 dvd m")
    case True
    then obtain z where "m div 10 = m' * 10 ^ z" "e' = e + 1 + int z"
      using 1 by (auto simp: strip_zeros_of.simps [of m e])
    then show ?thesis using True by (intro exI [of _ "Suc z"]) auto
  next
    case False
    then show ?thesis using 1 by (intro exI [of _ 0]) (auto simp: strip_zeros_of.simps [of m e])
  qed
qed

lemma strict_equal_str [simp]:
  "strict_equal (JStr s) v \<longleftrightarrow> v = JStr s" "strict_equal v (JStr s) \<longleftrightarrow> v = JStr s"
  "strict_equal JUndefined v \<longleftrightarrow> v = JUndefined" "strict_equal v JUndefined \<longleftrightarrow> v = JUndefined"
  by (cases v; auto)+

section \<open>Doubles\<close>

type_synonym double = "nat \<times> int"

function bit_len :: "nat \<Rightarrow> nat" where
  "bit_len n = (if n = 0 then 0 else Suc (bit_len (n div 2)))"
  by pat_completeness auto
termination
  by (relation "measure id") auto

declare bit_len.simps [simp del]

definition round_half_even :: "nat \<Rightarrow> nat \<Rightarrow> nat" where
  "round_half_even p q =
    (let f = p div q; r = p mod q in
     if 2 * r < q \<or> 2 * r = q \<and> even f then f else f + 1)"

text \<open>The ratio \<open>p / q\<close> divided by \<open>2 ^ k\<close>.\<close>

definition scale_down :: "nat \<Rightarrow> nat \<Rightarrow> int \<Rightarrow> nat \<times> nat" where
  "scale_down p q k = (if 0 \<le> k then (p, q * 2 ^ nat k) else (p * 2 ^ nat (- k), q))"

text \<open>The double nearest to \<open>p / q\<close>: the exponent that leaves a mantissa of 53 bits, then rounding.\<close>

definition nearest_double :: "nat \<Rightarrow> nat \<Rightarrow> double" where
  "nearest_double p q =
    (if p = 0 then (0, 0)
     else
       (let k0 = int (bit_len p) - int (bit_len q) - 53;
            small = (case scale_down p q k0 of (a, b) \<Rightarrow> a < b * 2 ^ 53);
            k = max (- 1074) (if small then k0 else k0 + 1) in
        case scale_down p q k of (a, b) \<Rightarrow> (round_half_even a b, k)))"

definition double_ratio :: "double \<Rightarrow> nat \<times> nat" where
  "double_ratio x = (case x of (m, k) \<Rightarrow> if 0 \<le> k then (m * 2 ^ nat k, 1) else (m, 2 ^ nat (- k)))"

definition same_double :: "double \<Rightarrow> double \<Rightarrow> bool" where
  "same_double x y = (case (double_ratio x, double_ratio y) of ((p, q), (p', q')) \<Rightarrow> p * q' = p' * q)"

definition decimal_double :: "nat \<Rightarrow> int \<Rightarrow> double" where
  "decimal_double m e = (if 0 \<le> e then nearest_double (m * 10 ^ nat e) 1 else nearest_double m (10 ^ nat (- e)))"

definition times_double :: "double \<Rightarrow> nat \<Rightarrow> double" where
  "times_double x n = (case double_ratio x of (p, q) \<Rightarrow> nearest_double (p * n) q)"

definition double_is_safe_integer :: "double \<Rightarrow> bool" where
  "double_is_safe_integer x = (case double_ratio x of (p, q) \<Rightarrow> q dvd p \<and> p div q \<le> 9007199254740991)"

text \<open>
  \<open>toFixed(7)\<close> below \<open>10 ^ 21\<close>: the integer nearest to \<open>x * 10 ^ 7\<close>, the larger one on a tie, with a
  decimal point before its last seven digits.
\<close>

definition fixed_units :: "double \<Rightarrow> nat" where
  "fixed_units x = (case double_ratio x of (p, q) \<Rightarrow> (2 * p * 10 ^ 7 + q) div (2 * q))"

definition fixed_str :: "nat \<Rightarrow> string" where
  "fixed_str n =
    (let ds = nat_str n; ds' = replicate (8 - length ds) (CHR ''0'') @ ds; w = length ds' - 7 in
     take w ds' @ ''.'' @ drop w ds')"

text \<open>\<open>s.replace(/\.?(?:0+)$/, "")\<close>: trailing zeros go, with a point that stands right before them.\<close>

definition drop_trailing_zeros :: "string \<Rightarrow> string" where
  "drop_trailing_zeros s =
    (case dropWhile (\<lambda>c. c = CHR ''0'') (rev s) of
       [] \<Rightarrow> []
     | c # r \<Rightarrow> if length (c # r) < length s \<and> c = CHR ''.'' then rev r else rev (c # r))"

lemma round_half_even_nearest:
  assumes "0 < q"
  shows "2 * \<bar>int (round_half_even p q) * int q - int p\<bar> \<le> int q"
proof -
  have "int p = int (p div q) * int q + int (p mod q)"
    by (metis div_mult_mod_eq of_nat_add of_nat_mult)
  moreover have "p mod q < q" using assms by simp
  ultimately show ?thesis
    by (auto simp: round_half_even_def Let_def algebra_simps)
qed

end
