(* ===== verification/Payment_Prep.thy ===== *)
theory Payment_Prep
  imports Payload_Digest Runtime_Guards Js_Double "HOL-Library.Word"
begin

unbundle bit_operations_syntax

text \<open>
  The payment preparation tool of \<open>src/actions/payment-prep-action.ts\<close>: it validates a payment payload
  (amount in stroops, asset, issuer account, memo) and derives the stub id that names the intent.

  The bit operations of the source work on 32-bit integers and are kept at that width. SHA-256 is the
  parameter \<open>H\<close>.
\<close>

section \<open>Amounts\<close>

definition STROOPS_PER_UNIT :: nat where
  "STROOPS_PER_UNIT = 10000000"

definition MAX_STELLAR_AMOUNT_STROOPS :: nat where
  "MAX_STELLAR_AMOUNT_STROOPS = 9223372036854775807"

definition invalid_amount :: "jsval \<Rightarrow> 'a res" where
  "invalid_amount v = Inl (RuntimeError INVALID_TASK
    ''amount must be a positive Stellar decimal with at most 7 fractional digits.'' (Some [(''amount'', v)]))"

text \<open>\<open>/^\d+(?:\.\d{1,7})?$/\<close> and \<open>split(".")\<close> of a string that matches.\<close>

definition whole_part :: "string \<Rightarrow> string" where
  "whole_part s = takeWhile (\<lambda>c. c \<noteq> CHR ''.'') s"

definition after_point :: "string \<Rightarrow> string option" where
  "after_point s = (case dropWhile (\<lambda>c. c \<noteq> CHR ''.'') s of [] \<Rightarrow> None | _ # f \<Rightarrow> Some f)"

definition decimal_amount_re :: "string \<Rightarrow> bool" where
  "decimal_amount_re s \<longleftrightarrow> whole_part s \<noteq> [] \<and> list_all is_digit (whole_part s) \<and>
    (case after_point s of None \<Rightarrow> True | Some f \<Rightarrow> f \<noteq> [] \<and> length f \<le> 7 \<and> list_all is_digit f)"

definition stroops_of :: "string \<Rightarrow> nat" where
  "stroops_of s =
    (let f = (case after_point s of None \<Rightarrow> [] | Some f \<Rightarrow> f) in
     digits_val (whole_part s) * STROOPS_PER_UNIT + digits_val (f @ replicate (7 - length f) (CHR ''0'')))"

definition normalize_numeric_amount :: "jsnum \<Rightarrow> string res" where
  "normalize_numeric_amount v =
    (case shortest v of
       Fin m e \<Rightarrow>
         if m \<le> 0 then invalid_amount (JNum v)
         else
           (let x = decimal_double (nat m) e in
            if \<not> num_is_integer (Fin m e) \<and> \<not> double_is_safe_integer (times_double x STROOPS_PER_UNIT)
            then invalid_amount (JNum v)
            else
              (let s = num_str (Fin m e) in
               if CHR ''e'' \<notin> set s \<and> CHR ''E'' \<notin> set s then Inr s
               else if num_is_integer (Fin m e) \<and> 10 ^ 21 \<le> num_int (Fin m e) then Inr (drop_trailing_zeros s)
               else if \<not> same_double (nearest_double (fixed_units x) (10 ^ 7)) x then invalid_amount (JNum v)
               else Inr (drop_trailing_zeros (fixed_str (fixed_units x)))))
     | _ \<Rightarrow> invalid_amount (JNum v))"

text \<open>The tool calls it with a string or a number only.\<close>

definition normalize_stellar_amount :: "jsval \<Rightarrow> (string \<times> nat) res" where
  "normalize_stellar_amount amount =
    and_then (case amount of
        JNum v \<Rightarrow> normalize_numeric_amount v
      | JStr s \<Rightarrow> Inr s
      | _ \<Rightarrow> invalid_amount amount) (\<lambda>s.
    if \<not> decimal_amount_re s then invalid_amount amount
    else if stroops_of s \<le> 0 \<or> MAX_STELLAR_AMOUNT_STROOPS < stroops_of s then invalid_amount amount
    else Inr (s, stroops_of s))"

section \<open>Account identities\<close>

definition BASE32_ALPHABET :: string where
  "BASE32_ALPHABET = ''ABCDEFGHIJKLMNOPQRSTUVWXYZ234567''"

text \<open>\<open>indexOf\<close>: the position of the first occurrence.\<close>

fun index_of :: "'a \<Rightarrow> 'a list \<Rightarrow> nat option" where
  "index_of x [] = None"
| "index_of x (y # ys) = (if x = y then Some 0 else map_option Suc (index_of x ys))"

text \<open>The inner loop: a byte leaves the buffer while there are eight bits in it.\<close>

function emit_bytes :: "nat \<Rightarrow> 32 word \<Rightarrow> nat list \<Rightarrow> nat \<times> 32 word \<times> nat list" where
  "emit_bytes bits buf out =
    (if 8 \<le> bits
     then emit_bytes (bits - 8) (if bits - 8 = 0 then 0 else buf AND (push_bit (bits - 8) 1 - 1))
       (out @ [unat (drop_bit (bits - 8) buf AND 0xff)])
     else (bits, buf, out))"
  by pat_completeness auto
termination
  by (relation "measure (\<lambda>(bits, _, _). bits)") auto

declare emit_bytes.simps [simp del]

fun base32_loop :: "string \<Rightarrow> nat \<times> 32 word \<times> nat list \<Rightarrow> (nat \<times> 32 word \<times> nat list) option" where
  "base32_loop [] s = Some s"
| "base32_loop (c # cs) (bits, buf, out) =
    (case index_of c BASE32_ALPHABET of
       None \<Rightarrow> None
     | Some d \<Rightarrow> base32_loop cs (emit_bytes (bits + 5) (push_bit 5 buf OR of_nat d) out))"

definition decode_base32 :: "string \<Rightarrow> nat list option" where
  "decode_base32 s =
    (case base32_loop s (0, 0, []) of
       None \<Rightarrow> None
     | Some (bits, buf, out) \<Rightarrow> if bits \<noteq> 0 \<and> buf \<noteq> 0 then None else Some out)"

definition crc_bit :: "32 word \<Rightarrow> 32 word" where
  "crc_bit c = (if c AND 0x8000 \<noteq> 0 then (push_bit 1 c XOR 0x1021) AND 0xffff else push_bit 1 c AND 0xffff)"

definition crc_byte :: "32 word \<Rightarrow> nat \<Rightarrow> 32 word" where
  "crc_byte c b = (crc_bit ^^ 8) (c XOR push_bit 8 (of_nat b))"

definition crc16_xmodem :: "nat list \<Rightarrow> 32 word" where
  "crc16_xmodem bs = foldl crc_byte 0 bs"

definition account_id_re :: "string \<Rightarrow> bool" where
  "account_id_re s \<longleftrightarrow> length s = 56 \<and> hd s = CHR ''G'' \<and> list_all (\<lambda>c. c \<in> set BASE32_ALPHABET) (tl s)"

definition is_valid_stellar_account_id :: "string \<Rightarrow> bool" where
  "is_valid_stellar_account_id s \<longleftrightarrow> account_id_re s \<and>
    (case decode_base32 s of
       None \<Rightarrow> False
     | Some bytes \<Rightarrow> length bytes = 35 \<and> bytes ! 0 = 48 \<and>
         crc16_xmodem (take 33 bytes) = of_nat (bytes ! 33) OR push_bit 8 (of_nat (bytes ! 34)))"

section \<open>The intent and its stub id\<close>

definition invalid_task :: "string \<Rightarrow> (string \<times> jsval) list \<Rightarrow> 'a res" where
  "invalid_task m d = Inl (RuntimeError INVALID_TASK m (Some d))"

definition MEMO_TEXT_MAX_BYTES :: nat where
  "MEMO_TEXT_MAX_BYTES = 28"

definition normalize_memo :: "jsval \<Rightarrow> string option res" where
  "normalize_memo memo =
    (case memo of
       JUndefined \<Rightarrow> Inr None
     | JStr s \<Rightarrow>
         if MEMO_TEXT_MAX_BYTES < length s
         then invalid_task (''memo must be at most 28 UTF-8 bytes.'') [(''fieldName'', JStr ''memo''),
           (''memoBytes'', JNum (num_of_nat (length s))), (''maxMemoBytes'', JNum (num_of_nat MEMO_TEXT_MAX_BYTES))]
         else Inr (Some s)
     | _ \<Rightarrow> invalid_task ''memo must be a string.'' [(''fieldName'', JStr ''memo'')])"

text \<open>\<open>JSON.stringify\<close> of an array of strings and nulls.\<close>

definition json_string_or_null :: "string option \<Rightarrow> string" where
  "json_string_or_null v = (case v of None \<Rightarrow> ''null'' | Some s \<Rightarrow> json_string s)"

definition canonical_intent ::
  "string \<Rightarrow> string \<Rightarrow> string option \<Rightarrow> string \<Rightarrow> string option \<Rightarrow> nat \<Rightarrow> string option \<Rightarrow> string" where
  "canonical_intent task wallet recipient asset issuer stroops memo =
    ''['' @ join '','' (map json_string_or_null
      ([Some task, Some wallet, recipient, Some asset, Some (nat_str stroops), memo] @
       (case issuer of None \<Rightarrow> [] | Some i \<Rightarrow> [Some i]))) @ '']''"

definition transaction_stub_id :: "(string \<Rightarrow> string)
    \<Rightarrow> string \<Rightarrow> string \<Rightarrow> string option \<Rightarrow> string \<Rightarrow> string option \<Rightarrow> nat \<Rightarrow> string option \<Rightarrow> string" where
  "transaction_stub_id H task wallet recipient asset issuer stroops memo =
    ''stellar-stub-'' @ task @ ''-'' @ wallet @ ''-'' @ H (canonical_intent task wallet recipient asset issuer stroops memo)"

section \<open>The tool\<close>

text \<open>What the property reads of the payload return, and the result.\<close>

record payment_payload =
  pp_wallet :: jsval
  pp_amount :: jsval
  pp_recipient :: jsval
  pp_asset :: jsval
  pp_issuer :: jsval
  pp_memo :: jsval
  pp_metadata :: jsval

record prepared_payment =
  pr_wallet :: string
  pr_amount :: string
  pr_recipient :: "string option"
  pr_asset :: string
  pr_issuer :: "string option"
  pr_memo :: "string option"
  pr_at :: string
  pr_stub :: string
  pr_metadata :: jsval

definition PAYMENT_PREP_TOOL_NAME :: string where
  "PAYMENT_PREP_TOOL_NAME = ''wallet.prepare_payment''"

fun str_of :: "jsval \<Rightarrow> string" where
  "str_of (JStr s) = s"
| "str_of _ = []"

definition required_text :: "string \<Rightarrow> jsval \<Rightarrow> string res" where
  "required_text field v = and_then (assert_non_empty_value v field INVALID_TASK) (\<lambda>_. Inr (str_of v))"

definition optional_text :: "string \<Rightarrow> jsval \<Rightarrow> string option res" where
  "optional_text field v =
    (if v = JUndefined then Inr None else and_then (required_text field v) (\<lambda>s. Inr (Some s)))"

text \<open>\<open>/^[A-Za-z0-9]{1,12}$/\<close>\<close>

definition is_alphanumeric :: "char \<Rightarrow> bool" where
  "is_alphanumeric c \<longleftrightarrow> (let n = (of_char c :: nat) in
    48 \<le> n \<and> n \<le> 57 \<or> 65 \<le> n \<and> n \<le> 90 \<or> 97 \<le> n \<and> n \<le> 122)"

definition asset_code_re :: "string \<Rightarrow> bool" where
  "asset_code_re s \<longleftrightarrow> 1 \<le> length s \<and> length s \<le> 12 \<and> list_all is_alphanumeric s"

definition prepared_asset :: "jsval \<Rightarrow> string res" where
  "prepared_asset v =
    and_then (required_text ''assetCode'' (if v = JUndefined \<or> v = JNull then JStr ''XLM'' else v)) (\<lambda>asset.
    if \<not> asset_code_re asset
    then invalid_task ''assetCode must contain 1 to 12 alphanumeric characters.''
      [(''fieldName'', JStr ''assetCode''), (''assetCode'', JStr asset)]
    else Inr asset)"

definition prepared_issuer :: "string \<Rightarrow> jsval \<Rightarrow> string option res" where
  "prepared_issuer asset v =
    (if v \<noteq> JUndefined then
       and_then (required_text ''assetIssuer'' v) (\<lambda>issuer.
       if issuer \<noteq> js_trim issuer
       then invalid_task ''assetIssuer must not contain leading or trailing whitespace.''
         [(''fieldName'', JStr ''assetIssuer'')]
       else if asset = ''XLM''
       then invalid_task ''assetIssuer must be omitted for native XLM.''
         [(''fieldName'', JStr ''assetIssuer''), (''assetCode'', JStr asset)]
       else if \<not> is_valid_stellar_account_id issuer
       then invalid_task ''assetIssuer must be a valid Stellar G-account ID.'' [(''fieldName'', JStr ''assetIssuer'')]
       else Inr (Some issuer))
     else if asset \<noteq> ''XLM''
     then invalid_task ''assetIssuer must be specified for issued Stellar assets.''
       [(''fieldName'', JStr ''assetIssuer''), (''assetCode'', JStr asset)]
     else Inr None)"

definition prepared_amount :: "jsval \<Rightarrow> (string \<times> nat) res" where
  "prepared_amount v =
    (if v = JUndefined \<or> v = JNull \<or> (case v of JStr s \<Rightarrow> blank s | _ \<Rightarrow> False)
     then invalid_task ''amount must be specified.'' [(''fieldName'', JStr ''amount'')]
     else (case v of
         JStr _ \<Rightarrow> normalize_stellar_amount v
       | JNum _ \<Rightarrow> normalize_stellar_amount v
       | _ \<Rightarrow> invalid_task ''amount must be a string or number.'' [(''fieldName'', JStr ''amount'')]))"

text \<open>\<open>at\<close> is \<open>context.now || new Date().toISOString()\<close>.\<close>

definition prepare_payment ::
  "(string \<Rightarrow> string) \<Rightarrow> string \<Rightarrow> string \<Rightarrow> payment_payload \<Rightarrow> prepared_payment res" where
  "prepare_payment H task at p =
    and_then (required_text ''walletId'' (pp_wallet p)) (\<lambda>wallet.
    and_then (optional_text ''recipientId'' (pp_recipient p)) (\<lambda>recipient.
    and_then (prepared_asset (pp_asset p)) (\<lambda>asset.
    and_then (prepared_issuer asset (pp_issuer p)) (\<lambda>issuer.
    and_then (normalize_memo (pp_memo p)) (\<lambda>memo.
    and_then (prepared_amount (pp_amount p)) (\<lambda>(amount, stroops).
    Inr \<lparr>pr_wallet = wallet, pr_amount = amount, pr_recipient = recipient, pr_asset = asset,
      pr_issuer = issuer, pr_memo = memo, pr_at = at,
      pr_stub = transaction_stub_id H task wallet recipient asset issuer stroops memo,
      pr_metadata = pp_metadata p\<rparr>))))))"

section \<open>What the tool accepts\<close>

lemma invalid_amount_code [simp]: "invalid_amount v = Inl e \<Longrightarrow> error_code_of e = Some INVALID_TASK"
  by (auto simp: invalid_amount_def)

lemma invalid_amount_no_value [simp]: "invalid_amount v \<noteq> Inr x"
  by (simp add: invalid_amount_def)

lemma invalid_task_code: "invalid_task m d = Inl e \<Longrightarrow> error_code_of e = Some INVALID_TASK"
  by (auto simp: invalid_task_def)

lemma invalid_task_no_value [simp]: "invalid_task m d \<noteq> Inr x"
  by (simp add: invalid_task_def)

lemma required_text_error: "required_text f v = Inl e \<Longrightarrow> error_code_of e = Some INVALID_TASK"
  by (auto simp: required_text_def and_then_Inl assert_non_empty_value_error)

lemma required_text_ok: "required_text f v = Inr s \<longleftrightarrow> v = JStr s \<and> \<not> blank s"
  by (auto simp: required_text_def and_then_Inr assert_non_empty_value_ok)

lemma optional_text_error: "optional_text f v = Inl e \<Longrightarrow> error_code_of e = Some INVALID_TASK"
  by (auto simp: optional_text_def and_then_Inl required_text_error split: if_splits)

lemma optional_text_ok:
  "optional_text f v = Inr r \<longleftrightarrow> (case r of None \<Rightarrow> v = JUndefined | Some s \<Rightarrow> v = JStr s \<and> \<not> blank s)"
  by (auto simp: optional_text_def and_then_Inr required_text_ok split: option.splits)

lemma prepared_asset_error: "prepared_asset v = Inl e \<Longrightarrow> error_code_of e = Some INVALID_TASK"
  by (auto simp: prepared_asset_def and_then_Inl required_text_error split: if_splits dest: invalid_task_code)

lemma prepared_issuer_error: "prepared_issuer a v = Inl e \<Longrightarrow> error_code_of e = Some INVALID_TASK"
  by (auto simp: prepared_issuer_def and_then_Inl required_text_error split: if_splits dest: invalid_task_code)

lemma normalize_memo_error: "normalize_memo v = Inl e \<Longrightarrow> error_code_of e = Some INVALID_TASK"
  by (auto simp: normalize_memo_def split: jsval.splits if_splits dest: invalid_task_code)

lemma normalize_numeric_error: "normalize_numeric_amount v = Inl e \<Longrightarrow> error_code_of e = Some INVALID_TASK"
  by (auto simp: normalize_numeric_amount_def Let_def split: jsnum.splits if_splits)

lemma normalize_stellar_error: "normalize_stellar_amount v = Inl e \<Longrightarrow> error_code_of e = Some INVALID_TASK"
  by (auto simp: normalize_stellar_amount_def and_then_Inl split: jsval.splits if_splits
    dest: normalize_numeric_error)

lemma prepared_amount_error: "prepared_amount v = Inl e \<Longrightarrow> error_code_of e = Some INVALID_TASK"
  by (auto simp: prepared_amount_def normalize_stellar_error split: jsval.splits if_splits dest: invalid_task_code)

lemma prepare_payment_error:
  "prepare_payment H task at p = Inl e \<Longrightarrow> error_code_of e = Some INVALID_TASK"
  by (auto simp: prepare_payment_def and_then_Inl required_text_error optional_text_error prepared_asset_error
    prepared_issuer_error normalize_memo_error prepared_amount_error)

text \<open>An amount the tool takes, and what an intent it prepares satisfies.\<close>

definition valid_amount :: "string \<Rightarrow> bool" where
  "valid_amount s \<longleftrightarrow> decimal_amount_re s \<and> 0 < stroops_of s \<and> stroops_of s \<le> MAX_STELLAR_AMOUNT_STROOPS"

definition valid_payment :: "prepared_payment \<Rightarrow> bool" where
  "valid_payment r \<longleftrightarrow> \<not> blank (pr_wallet r) \<and>
    (case pr_recipient r of None \<Rightarrow> True | Some s \<Rightarrow> \<not> blank s) \<and> asset_code_re (pr_asset r) \<and>
    (case pr_issuer r of None \<Rightarrow> pr_asset r = ''XLM''
     | Some i \<Rightarrow> pr_asset r \<noteq> ''XLM'' \<and> is_valid_stellar_account_id i) \<and>
    (case pr_memo r of None \<Rightarrow> True | Some m \<Rightarrow> length m \<le> MEMO_TEXT_MAX_BYTES) \<and> valid_amount (pr_amount r)"

lemma normalize_stellar_ok:
  "normalize_stellar_amount v = Inr (s, n) \<Longrightarrow> n = stroops_of s \<and> valid_amount s \<and>
    (case v of JStr t \<Rightarrow> s = t | JNum x \<Rightarrow> normalize_numeric_amount x = Inr s | _ \<Rightarrow> False)"
  by (auto simp: normalize_stellar_amount_def and_then_Inr valid_amount_def split: jsval.splits if_splits)

lemma prepared_amount_ok:
  "prepared_amount v = Inr (s, n) \<Longrightarrow> normalize_stellar_amount v = Inr (s, n)"
  by (auto simp: prepared_amount_def split: jsval.splits if_splits)

lemma prepared_issuer_ok:
  "prepared_issuer a v = Inr r \<Longrightarrow>
    (case r of None \<Rightarrow> a = ''XLM'' \<and> v = JUndefined
     | Some i \<Rightarrow> v = JStr i \<and> a \<noteq> ''XLM'' \<and> is_valid_stellar_account_id i)"
  by (auto simp: prepared_issuer_def and_then_Inr required_text_ok split: if_splits)

lemma normalize_memo_ok:
  "normalize_memo v = Inr r \<longleftrightarrow>
    (case r of None \<Rightarrow> v = JUndefined | Some m \<Rightarrow> v = JStr m \<and> length m \<le> MEMO_TEXT_MAX_BYTES)"
  by (auto simp: normalize_memo_def not_less split: jsval.splits if_splits option.splits)

lemma prepared_asset_ok:
  "prepared_asset v = Inr a \<longleftrightarrow> asset_code_re a \<and> \<not> blank a \<and>
    (v = JStr a \<or> (v = JUndefined \<or> v = JNull) \<and> a = ''XLM'')"
  by (auto simp: prepared_asset_def and_then_Inr required_text_ok)

lemma prepare_payment_fields:
  "prepare_payment H task at p = Inr r \<longleftrightarrow>
    (\<exists>stroops. required_text ''walletId'' (pp_wallet p) = Inr (pr_wallet r) \<and>
      optional_text ''recipientId'' (pp_recipient p) = Inr (pr_recipient r) \<and>
      prepared_asset (pp_asset p) = Inr (pr_asset r) \<and>
      prepared_issuer (pr_asset r) (pp_issuer p) = Inr (pr_issuer r) \<and>
      normalize_memo (pp_memo p) = Inr (pr_memo r) \<and>
      prepared_amount (pp_amount p) = Inr (pr_amount r, stroops) \<and> pr_at r = at \<and>
      pr_stub r = transaction_stub_id H task (pr_wallet r) (pr_recipient r) (pr_asset r) (pr_issuer r) stroops (pr_memo r) \<and>
      pr_metadata r = pp_metadata p)"
  by (cases r) (auto simp: prepare_payment_def and_then_Inr)

lemma prepared_is_valid: "prepare_payment H task at p = Inr r \<Longrightarrow> valid_payment r"
  unfolding prepare_payment_fields
  by (auto simp: valid_payment_def required_text_ok optional_text_ok prepared_asset_ok normalize_memo_ok
    dest!: prepared_issuer_ok prepared_amount_ok normalize_stellar_ok split: option.splits)

section \<open>The stub id names the intent\<close>

lemma json_string_or_null_prefix_free:
  "json_string_or_null v @ r = json_string_or_null v' @ r' \<longleftrightarrow> v = v' \<and> r = r'"
  by (cases v; cases v')
    (auto simp: json_string_or_null_def json_string_prefix_free, auto simp: json_string_def)

lemma json_string_or_null_inj [simp]: "json_string_or_null v = json_string_or_null v' \<longleftrightarrow> v = v'"
  using json_string_or_null_prefix_free [of v "[]" v' "[]"] by simp

lemma join_json_inj:
  assumes "join '','' (map json_string_or_null xs) @ '']'' = join '','' (map json_string_or_null ys) @ '']''"
    and "xs \<noteq> []" and "ys \<noteq> []"
  shows "xs = ys"
  using assms
proof (induction xs arbitrary: ys)
  case (Cons x xs)
  from Cons.prems(3) obtain y ys' where ys: "ys = y # ys'" by (cases ys) auto
  show ?case
  proof (cases xs; cases ys')
    fix a as b bs
    assume "xs = a # as" "ys' = b # bs"
    then show ?thesis using Cons.prems Cons.IH [of ys'] by (simp add: ys json_string_or_null_prefix_free)
  qed (use Cons.prems in \<open>auto simp: ys json_string_or_null_prefix_free\<close>)
qed simp

lemma canonical_intent_inj:
  "canonical_intent t w r a i n m = canonical_intent t' w' r' a' i' n' m' \<longleftrightarrow>
    t = t' \<and> w = w' \<and> r = r' \<and> a = a' \<and> i = i' \<and> n = n' \<and> m = m'"
proof
  assume "canonical_intent t w r a i n m = canonical_intent t' w' r' a' i' n' m'"
  then have "[Some t, Some w, r, Some a, Some (nat_str n), m] @ (case i of None \<Rightarrow> [] | Some i \<Rightarrow> [Some i]) =
    [Some t', Some w', r', Some a', Some (nat_str n'), m'] @ (case i' of None \<Rightarrow> [] | Some i \<Rightarrow> [Some i])"
    unfolding canonical_intent_def by (intro join_json_inj) simp_all
  then show "t = t' \<and> w = w' \<and> r = r' \<and> a = a' \<and> i = i' \<and> n = n' \<and> m = m'"
    by (auto simp: nat_str_inj split: option.splits)
qed simp

lemma stub_id_inj:
  assumes "\<And>s. length (H s) = k"
    and "H (canonical_intent t w r a i n m) = H (canonical_intent t' w' r' a' i' n' m') \<Longrightarrow>
      canonical_intent t w r a i n m = canonical_intent t' w' r' a' i' n' m'"
    and "transaction_stub_id H t w r a i n m = transaction_stub_id H t' w' r' a' i' n' m'"
  shows "t = t' \<and> w = w' \<and> r = r' \<and> a = a' \<and> i = i' \<and> n = n' \<and> m = m'"
proof -
  let ?c = "canonical_intent t w r a i n m" and ?c' = "canonical_intent t' w' r' a' i' n' m'"
  have "(''stellar-stub-'' @ t @ ''-'' @ w @ ''-'') @ H ?c = (''stellar-stub-'' @ t' @ ''-'' @ w' @ ''-'') @ H ?c'"
    using assms(3) by (simp add: transaction_stub_id_def)
  then have "H ?c = H ?c'" using assms(1) by (subst (asm) append_eq_append_conv) auto
  then show ?thesis using assms(2) by (simp add: canonical_intent_inj)
qed

text \<open>The text that names the intent of a prepared payment.\<close>

definition intent_of :: "string \<Rightarrow> prepared_payment \<Rightarrow> string" where
  "intent_of task r = canonical_intent task (pr_wallet r) (pr_recipient r) (pr_asset r) (pr_issuer r)
    (stroops_of (pr_amount r)) (pr_memo r)"

lemma prepared_stub:
  "prepare_payment H task at p = Inr r \<Longrightarrow>
    pr_stub r = transaction_stub_id H task (pr_wallet r) (pr_recipient r) (pr_asset r) (pr_issuer r)
      (stroops_of (pr_amount r)) (pr_memo r)"
  unfolding prepare_payment_fields by (auto dest!: prepared_amount_ok normalize_stellar_ok)

lemma prepared_rest: "prepare_payment H task at p = Inr r \<Longrightarrow> pr_at r = at \<and> pr_metadata r = pp_metadata p"
  unfolding prepare_payment_fields by blast

end
