(* ===== verification/Payment_Policy.thy ===== *)
theory Payment_Policy
  imports Payment_Prep Tool_Policies
begin

text \<open>
  \<open>StellarPaymentIntentPolicy\<close> of \<open>src/policies/payment-intent-policy.ts\<close>: the compilation of the
  wallet rules, the snapshot of a payment payload, the decision, and the binding of the authorised
  fields to the object that the tool will read.

  A configuration value whose type the code checks is a \<open>jsval\<close>; \<open>maxAmount\<close>, which it does not check,
  has its declared type. \<open>gap\<close> is what other code does while the policy awaits its simulated
  preparation.
\<close>

section \<open>Configuration\<close>

datatype 'r entry = NotAnObject | Entry 'r

record asset_entry =
  ae_code :: jsval
  ae_issuer :: jsval

datatype recipients_option = NoRecipients | PlainString string | RecipientIds "jsval list"

record wallet_entry =
  we_wallet :: jsval
  we_max :: "string option"
  we_recipients :: recipients_option
  we_assets :: "asset_entry entry list option"
  we_require_recipient :: jsval
  we_require_memo :: jsval

record wallet_rule =
  wr_max :: "nat option"
  wr_recipients :: "string list option"
  wr_assets :: "string list option"
  wr_require_recipient :: bool
  wr_require_memo :: bool

type_synonym wallet_rules = "(string, wallet_rule) table"

definition require_config_string :: "string \<Rightarrow> jsval \<Rightarrow> string res" where
  "require_config_string field v =
    (let failure = Inl (TypeErr (field @ '' must be a non-empty trimmed string.'')) in
     case v of
       JStr s \<Rightarrow> if length s = 0 \<or> js_trim s \<noteq> s then failure else Inr s
     | _ \<Rightarrow> failure)"

definition parse_exact_stroops :: "string \<Rightarrow> nat option" where
  "parse_exact_stroops s =
    (if \<not> decimal_amount_re s then None
     else if stroops_of s \<le> 0 \<or> MAX_STELLAR_AMOUNT_STROOPS < stroops_of s then None
     else Some (stroops_of s))"

definition parse_configured_max_amount :: "string option \<Rightarrow> nat option res" where
  "parse_configured_max_amount v =
    (case v of
       None \<Rightarrow> Inr None
     | Some s \<Rightarrow>
         (case parse_exact_stroops s of
            None \<Rightarrow> Inl (RangeErr ''maxAmount must be a positive Stellar decimal with at most 7 fractional digits.'')
          | Some n \<Rightarrow> Inr (Some n)))"

definition asset_identity :: "string \<Rightarrow> string option \<Rightarrow> string" where
  "asset_identity code issuer = code @ [CHR 0x00] @ (case issuer of None \<Rightarrow> [] | Some i \<Rightarrow> i)"

definition compile_asset :: "asset_entry entry \<Rightarrow> string res" where
  "compile_asset a =
    (case a of
       NotAnObject \<Rightarrow> Inl (TypeErr ''allowedAssets entries must be asset policy objects.'')
     | Entry e \<Rightarrow>
         and_then (require_config_string ''assetCode'' (ae_code e)) (\<lambda>code.
         if \<not> asset_code_re code
         then Inl (RangeErr ''assetCode must contain 1 to 12 alphanumeric characters.'')
         else and_then
           (if ae_issuer e = JUndefined then Inr None
            else and_then (require_config_string ''assetIssuer'' (ae_issuer e)) (\<lambda>issuer.
              if \<not> account_id_re issuer
              then Inl (RangeErr ''assetIssuer must have Stellar G-account ID syntax.'')
              else Inr (Some issuer))) (\<lambda>issuer.
         if code = ''XLM'' \<and> issuer \<noteq> None
         then Inl (RangeErr ''Native XLM policy entries must not specify an issuer.'')
         else if code \<noteq> ''XLM'' \<and> issuer = None
         then Inl (RangeErr ''Issued asset policy entries must specify an issuer.'')
         else Inr (asset_identity code issuer))))"

fun compile_set :: "('a \<Rightarrow> string res) \<Rightarrow> string list \<Rightarrow> 'a list \<Rightarrow> string list res" where
  "compile_set f acc [] = Inr acc"
| "compile_set f acc (x # xs) = and_then (f x) (\<lambda>s. compile_set f (set_add s acc) xs)"

definition compile_asset_allowlist :: "asset_entry entry list option \<Rightarrow> string list option res" where
  "compile_asset_allowlist assets =
    (case assets of
       None \<Rightarrow> Inr None
     | Some es \<Rightarrow> and_then (compile_set compile_asset [] es) (\<lambda>ss. Inr (Some ss)))"

definition compile_recipient_allowlist :: "recipients_option \<Rightarrow> string list option res" where
  "compile_recipient_allowlist recipients =
    (case recipients of
       NoRecipients \<Rightarrow> Inr None
     | PlainString _ \<Rightarrow> Inl (TypeErr ''allowedRecipientIds must be an iterable of recipient IDs, not a string.'')
     | RecipientIds ids \<Rightarrow>
         and_then (compile_set (require_config_string ''recipientId'') [] ids) (\<lambda>ss. Inr (Some ss)))"

text \<open>\<open>v !== undefined && typeof v !== "boolean"\<close> throws; \<open>v ?? false\<close> otherwise.\<close>

definition optional_flag :: "string \<Rightarrow> jsval \<Rightarrow> bool res" where
  "optional_flag name v =
    (case v of
       JUndefined \<Rightarrow> Inr False
     | JBool b \<Rightarrow> Inr b
     | _ \<Rightarrow> Inl (TypeErr (name @ '' must be a boolean when provided.'')))"

definition compile_wallet :: "wallet_entry \<Rightarrow> wallet_rules \<Rightarrow> wallet_rules res" where
  "compile_wallet e rules =
    and_then (require_config_string ''walletId'' (we_wallet e)) (\<lambda>wallet.
    if table_has rules wallet
    then Inl (RangeErr (''Duplicate payment policy for wallet '' @ quoted wallet @ ''.''))
    else
      and_then (optional_flag ''requireRecipient'' (we_require_recipient e)) (\<lambda>need_recipient.
      and_then (optional_flag ''requireMemo'' (we_require_memo e)) (\<lambda>need_memo.
      and_then (parse_configured_max_amount (we_max e)) (\<lambda>limit.
      and_then (compile_recipient_allowlist (we_recipients e)) (\<lambda>recipients.
      and_then (compile_asset_allowlist (we_assets e)) (\<lambda>assets.
      Inr (AList.update wallet \<lparr>wr_max = limit, wr_recipients = recipients, wr_assets = assets,
        wr_require_recipient = need_recipient, wr_require_memo = need_memo\<rparr> rules)))))))"

fun compile_wallets :: "wallet_entry entry list \<Rightarrow> wallet_rules \<Rightarrow> wallet_rules res" where
  "compile_wallets [] rules = Inr rules"
| "compile_wallets (NotAnObject # es) rules =
    Inl (TypeErr ''wallets entries must be wallet policy objects.'')"
| "compile_wallets (Entry e # es) rules = and_then (compile_wallet e rules) (compile_wallets es)"

definition new_payment_policy :: "wallet_entry entry list entry \<Rightarrow> wallet_rules res" where
  "new_payment_policy options =
    (case options of
       NotAnObject \<Rightarrow> Inl (TypeErr ''Payment policy options are required.'')
     | Entry wallets \<Rightarrow> compile_wallets wallets [])"

section \<open>Snapshot and binding\<close>

text \<open>\<open>readOwnDataField\<close>: \<open>None\<close> is \<open>ok: false\<close>.\<close>

definition read_own_data_field :: "heap \<Rightarrow> loc \<Rightarrow> string \<Rightarrow> jsval option" where
  "read_own_data_field h l k =
    (case own_property (heap_get h l) k of
       None \<Rightarrow> Some JUndefined
     | Some (Data _ v) \<Rightarrow> Some v
     | Some (Accessor _) \<Rightarrow> None)"

fun is_optional_string :: "jsval \<Rightarrow> bool" where
  "is_optional_string JUndefined = True"
| "is_optional_string (JStr _) = True"
| "is_optional_string _ = False"

fun is_string :: "jsval \<Rightarrow> bool" where
  "is_string (JStr _) = True"
| "is_string _ = False"

fun is_string_or_number :: "jsval \<Rightarrow> bool" where
  "is_string_or_number (JStr _) = True"
| "is_string_or_number (JNum _) = True"
| "is_string_or_number _ = False"

definition snapshot_payment_payload :: "heap \<Rightarrow> jsval \<Rightarrow> payment_payload option" where
  "snapshot_payment_payload h v =
    (case v of
       JRef l \<Rightarrow>
         let ob = heap_get h l; field = read_own_data_field h l in
         if ob_array ob \<or> ob_proxy ob then None
         else if ob_proto ob \<noteq> ObjectPrototype \<and> ob_proto ob \<noteq> NullPrototype then None
         else
           (case (field ''walletId'', field ''amount'', field ''recipientId'', field ''assetCode'',
               field ''assetIssuer'', field ''memo'', field ''metadata'') of
              (Some wallet, Some amount, Some recipient, Some asset, Some issuer, Some memo, Some _) \<Rightarrow>
                if is_string wallet \<and> is_string_or_number amount \<and> is_optional_string recipient \<and> is_optional_string asset \<and> is_optional_string issuer \<and>
                  is_optional_string memo
                then Some \<lparr>pp_wallet = wallet, pp_amount = amount, pp_recipient = recipient, pp_asset = asset,
                  pp_issuer = issuer, pp_memo = memo, pp_metadata = JUndefined\<rparr>
                else None
            | _ \<Rightarrow> None)
     | _ \<Rightarrow> None)"

text \<open>
  \<open>Object.defineProperty\<close> of a hidden undefined property: the new string key comes after the other
  string keys and before the symbols; on a frozen object it throws.
\<close>

definition hide_property :: "string \<Rightarrow> js_object \<Rightarrow> js_object" where
  "hide_property k ob =
    (let strings = \<lambda>(k, _). key_string k \<noteq> None in
     ob\<lparr>ob_props := takeWhile strings (ob_props ob) @ (KStr k, Data False JUndefined) #
       dropWhile strings (ob_props ob)\<rparr>)"

definition define_hidden :: "loc \<Rightarrow> string \<Rightarrow> heap \<Rightarrow> heap option" where
  "define_hidden l k h =
    (if ob_frozen (heap_get h l) then None
     else Some (AList.update l (hide_property k (heap_get h l)) h))"

definition shadow_field :: "loc \<Rightarrow> string \<Rightarrow> heap \<Rightarrow> bool \<times> heap" where
  "shadow_field l k h =
    (if own_property (heap_get h l) k = None
     then (case define_hidden l k h of None \<Rightarrow> (False, h) | Some h' \<Rightarrow> (True, h'))
     else (True, h))"

definition bind_field :: "loc \<Rightarrow> string \<Rightarrow> jsval \<Rightarrow> heap \<Rightarrow> bool \<times> heap" where
  "bind_field l k authorized h =
    (case read_own_data_field h l k of
       None \<Rightarrow> (False, h)
     | Some v \<Rightarrow> if \<not> strict_equal v authorized then (False, h) else shadow_field l k h)"

fun bind_fields :: "loc \<Rightarrow> (string \<times> jsval) list \<Rightarrow> heap \<Rightarrow> bool \<times> heap" where
  "bind_fields l [] h = (True, h)"
| "bind_fields l ((k, v) # fs) h =
    (case bind_field l k v h of (ok, h') \<Rightarrow> if ok then bind_fields l fs h' else (False, h'))"

definition authorized_fields :: "payment_payload \<Rightarrow> (string \<times> jsval) list" where
  "authorized_fields p =
    [(''walletId'', pp_wallet p), (''amount'', pp_amount p), (''recipientId'', pp_recipient p),
     (''assetCode'', pp_asset p), (''assetIssuer'', pp_issuer p), (''memo'', pp_memo p)]"

definition bind_authorized_payment :: "jsval \<Rightarrow> payment_payload \<Rightarrow> heap \<Rightarrow> bool \<times> heap" where
  "bind_authorized_payment original p h =
    (case original of
       JRef l \<Rightarrow>
         (case bind_fields l (authorized_fields p) h of
            (False, h) \<Rightarrow> (False, h)
          | (True, h) \<Rightarrow>
              (case shadow_field l ''metadata'' h of
                 (False, h) \<Rightarrow> (False, h)
               | (True, h) \<Rightarrow> (True, freeze_object l h)))
     | _ \<Rightarrow> (False, h))"

section \<open>The decision\<close>

text \<open>\<open>None\<close> when the rule lets the prepared payment through, else the reason of the denial.\<close>

definition payment_denial :: "wallet_rule \<Rightarrow> prepared_payment \<Rightarrow> string option" where
  "payment_denial rule r =
    (if wr_max rule \<noteq> None \<and> parse_exact_stroops (pr_amount r) = None
     then Some ''Payment amount cannot be evaluated safely by policy.''
     else if wr_max rule \<noteq> None \<and> the (wr_max rule) < the (parse_exact_stroops (pr_amount r))
     then Some ''Payment amount exceeds the wallet policy limit.''
     else if wr_require_recipient rule \<and> pr_recipient r = None
     then Some ''Payment policy requires an explicit recipient.''
     else if (case wr_recipients rule of None \<Rightarrow> False
        | Some ids \<Rightarrow> (case pr_recipient r of None \<Rightarrow> True | Some i \<Rightarrow> i \<notin> set ids))
     then Some ''Payment recipient is not authorized by wallet policy.''
     else if (case wr_assets rule of None \<Rightarrow> False
        | Some ids \<Rightarrow> asset_identity (pr_asset r) (pr_issuer r) \<notin> set ids)
     then Some ''Payment asset is not authorized by wallet policy.''
     else if wr_require_memo rule \<and> (case pr_memo r of None \<Rightarrow> True | Some m \<Rightarrow> m = [])
     then Some ''Payment policy requires a non-empty memo.''
     else None)"

definition evaluate_payment ::
  "(string \<Rightarrow> string) \<Rightarrow> string \<Rightarrow> ('a policy_world \<Rightarrow> 'a policy_world) \<Rightarrow> wallet_rules \<Rightarrow> 'a policy" where
  "evaluate_payment H at gap rules q w =
    (if rq_tool q \<noteq> PAYMENT_PREP_TOOL_NAME then (Inr allow, w)
     else
       (case snapshot_payment_payload (pw_heap w) (rq_payload q) of
          None \<Rightarrow> (Inr (deny ''Payment policy requires a plain data payload.''), w)
        | Some p \<Rightarrow>
            (case prepare_payment H (rq_task q) at p of
               Inl _ \<Rightarrow> (Inr (deny ''Payment intent is invalid.''), w)
             | Inr r \<Rightarrow>
                 let w = gap w in
                 (case map_of rules (pr_wallet r) of
                    None \<Rightarrow> (Inr (deny ''Wallet is not authorized for payment preparation.''), w)
                  | Some rule \<Rightarrow>
                      (case payment_denial rule r of
                         Some why \<Rightarrow> (Inr (deny why), w)
                       | None \<Rightarrow>
                           (case bind_authorized_payment (rq_payload q) p (pw_heap w) of
                              (ok, h) \<Rightarrow>
                                (Inr (if ok then allow else deny ''Payment payload changed during policy evaluation.''),
                                 w\<lparr>pw_heap := h\<rparr>)))))))"
section \<open>What the rules come from\<close>

text \<open>A prepared payment keeps to one wallet entry of the configuration.\<close>

definition honours :: "wallet_entry \<Rightarrow> prepared_payment \<Rightarrow> bool" where
  "honours e r \<longleftrightarrow> we_wallet e = JStr (pr_wallet r) \<and>
    (\<forall>s. we_max e = Some s \<longrightarrow> stroops_of (pr_amount r) \<le> stroops_of s) \<and>
    (\<forall>ids. we_recipients e = RecipientIds ids \<longrightarrow> (\<exists>i. pr_recipient r = Some i \<and> JStr i \<in> set ids)) \<and>
    (\<forall>as. we_assets e = Some as \<longrightarrow> (\<exists>a. Entry a \<in> set as \<and> ae_code a = JStr (pr_asset r) \<and>
      ae_issuer a = (case pr_issuer r of None \<Rightarrow> JUndefined | Some i \<Rightarrow> JStr i))) \<and>
    (we_require_recipient e = JBool True \<longrightarrow> pr_recipient r \<noteq> None) \<and>
    (we_require_memo e = JBool True \<longrightarrow> (\<exists>m. pr_memo r = Some m \<and> m \<noteq> []))"

text \<open>What a compiled rule says of the entry it was compiled from.\<close>

definition compiled_from :: "wallet_entry \<Rightarrow> wallet_rule \<Rightarrow> bool" where
  "compiled_from e rule \<longleftrightarrow> parse_configured_max_amount (we_max e) = Inr (wr_max rule) \<and>
    compile_recipient_allowlist (we_recipients e) = Inr (wr_recipients rule) \<and>
    compile_asset_allowlist (we_assets e) = Inr (wr_assets rule) \<and>
    optional_flag ''requireRecipient'' (we_require_recipient e) = Inr (wr_require_recipient rule) \<and>
    optional_flag ''requireMemo'' (we_require_memo e) = Inr (wr_require_memo rule)"

lemma require_config_string_ok:
  "require_config_string f v = Inr s \<longleftrightarrow> v = JStr s \<and> s \<noteq> [] \<and> js_trim s = s"
  by (cases v) (auto simp: require_config_string_def Let_def)

lemma compile_wallet_ok:
  assumes "compile_wallet e rules = Inr rules'"
  shows "\<exists>wallet rule. we_wallet e = JStr wallet \<and> \<not> table_has rules wallet \<and> compiled_from e rule \<and>
    rules' = AList.update wallet rule rules"
proof -
  obtain wallet need_recipient need_memo limit recipients assets where
    parts: "require_config_string ''walletId'' (we_wallet e) = Inr wallet" "\<not> table_has rules wallet"
      "optional_flag ''requireRecipient'' (we_require_recipient e) = Inr need_recipient"
      "optional_flag ''requireMemo'' (we_require_memo e) = Inr need_memo"
      "parse_configured_max_amount (we_max e) = Inr limit"
      "compile_recipient_allowlist (we_recipients e) = Inr recipients"
      "compile_asset_allowlist (we_assets e) = Inr assets"
    and "rules' = AList.update wallet \<lparr>wr_max = limit, wr_recipients = recipients, wr_assets = assets,
        wr_require_recipient = need_recipient, wr_require_memo = need_memo\<rparr> rules" (is "_ = AList.update _ ?rule _")
    using assms by (auto simp: compile_wallet_def and_then_Inr split: if_splits)
  moreover have "compiled_from e ?rule" using parts by (simp add: compiled_from_def)
  ultimately show ?thesis by (auto simp: require_config_string_ok)
qed

lemma compile_wallets_ok:
  assumes "compile_wallets es rules = Inr rules'" and "map_of rules' wallet = Some rule"
  shows "map_of rules wallet = Some rule \<or>
    (\<exists>e. Entry e \<in> set es \<and> we_wallet e = JStr wallet \<and> compiled_from e rule)"
  using assms
proof (induction es rules rule: compile_wallets.induct)
  case (3 e es rules)
  then obtain mid where mid: "compile_wallet e rules = Inr mid" "compile_wallets es mid = Inr rules'"
    by (auto simp: and_then_Inr)
  from compile_wallet_ok [OF mid(1)] obtain w r where
    w: "we_wallet e = JStr w" "compiled_from e r" "mid = AList.update w r rules" by blast
  from "3.IH" [OF mid(2) "3.prems"(2)] show ?case
    using w by (auto simp: update_conv' split: if_splits)
qed auto

lemma new_payment_policy_ok:
  assumes "new_payment_policy (Entry es) = Inr rules" and "map_of rules wallet = Some rule"
  shows "\<exists>e. Entry e \<in> set es \<and> we_wallet e = JStr wallet \<and> compiled_from e rule"
  using compile_wallets_ok [OF _ assms(2), of es "[]"] assms(1) by (auto simp: new_payment_policy_def)

lemma compile_set_members:
  "compile_set f acc xs = Inr ss \<Longrightarrow> s \<in> set ss \<Longrightarrow> s \<in> set acc \<or> (\<exists>x \<in> set xs. f x = Inr s)"
proof (induction xs arbitrary: acc)
  case (Cons x xs)
  then obtain t where t: "f x = Inr t" "compile_set f (set_add t acc) xs = Inr ss" by (auto simp: and_then_Inr)
  from Cons.IH [OF t(2) Cons.prems(2)] show ?case using t(1) by auto
qed simp

lemma alphanumeric_no_nul: "asset_code_re s \<Longrightarrow> CHR 0x00 \<notin> set s"
  by (auto simp: asset_code_re_def list_all_iff is_alphanumeric_def Let_def)

lemma append_nul_inj:
  assumes "xs @ CHR 0x00 # ys = xs' @ CHR 0x00 # ys'" and "CHR 0x00 \<notin> set xs" and "CHR 0x00 \<notin> set xs'"
  shows "xs = xs' \<and> ys = ys'"
proof -
  have "takeWhile (\<lambda>c. c \<noteq> CHR 0x00) (xs @ CHR 0x00 # ys) = xs" "takeWhile (\<lambda>c. c \<noteq> CHR 0x00) (xs' @ CHR 0x00 # ys') = xs'"
    using assms(2,3) by (auto simp: takeWhile_append)
  then have "xs = xs'" using assms(1) by metis
  then show ?thesis using assms(1) by simp
qed

lemma compile_asset_ok:
  assumes "compile_asset a = Inr (asset_identity code issuer)" and "asset_code_re code"
    and "\<And>i. issuer = Some i \<Longrightarrow> i \<noteq> []"
  shows "\<exists>e. a = Entry e \<and> ae_code e = JStr code \<and>
    ae_issuer e = (case issuer of None \<Rightarrow> JUndefined | Some i \<Rightarrow> JStr i)"
proof -
  have "\<exists>e c i. a = Entry e \<and> ae_code e = JStr c \<and> asset_code_re c \<and>
      ae_issuer e = (case i of None \<Rightarrow> JUndefined | Some i \<Rightarrow> JStr i) \<and> i \<noteq> Some [] \<and>
      asset_identity c i = asset_identity code issuer"
  proof (cases a)
    case (Entry e)
    then show ?thesis
      using assms(1) by (cases "ae_issuer e = JUndefined")
        (auto simp: compile_asset_def and_then_Inr require_config_string_ok split: if_splits
          intro: exI [of _ None] exI [of _ "Some _"])
  qed (use assms(1) in \<open>simp add: compile_asset_def\<close>)
  then obtain e c i where e: "a = Entry e" "ae_code e = JStr c" "asset_code_re c"
    "ae_issuer e = (case i of None \<Rightarrow> JUndefined | Some i \<Rightarrow> JStr i)" "i \<noteq> Some []"
    and id: "asset_identity c i = asset_identity code issuer" by blast
  have "c = code \<and> (case i of None \<Rightarrow> [] | Some i \<Rightarrow> i) = (case issuer of None \<Rightarrow> [] | Some i \<Rightarrow> i)"
    using id append_nul_inj [OF _ alphanumeric_no_nul [OF e(3)] alphanumeric_no_nul [OF assms(2)]]
    by (simp add: asset_identity_def)
  then have "c = code" "i = issuer" using e(5) assms(3) by (auto split: option.splits)
  then show ?thesis using e by blast
qed

lemma valid_account_id_nonempty: "is_valid_stellar_account_id i \<Longrightarrow> i \<noteq> []"
  by (auto simp: is_valid_stellar_account_id_def account_id_re_def)

lemma valid_amount_parses: "valid_amount s \<Longrightarrow> parse_exact_stroops s = Some (stroops_of s)"
  by (auto simp: valid_amount_def parse_exact_stroops_def)

lemma permitted_honours:
  assumes "compiled_from e rule" and "payment_denial rule r = None" and "valid_payment r"
    and "we_wallet e = JStr (pr_wallet r)"
  shows "honours e r"
  unfolding honours_def
proof (intro conjI allI impI)
  note c = assms(1) [unfolded compiled_from_def] and v = assms(3) [unfolded valid_payment_def]
  have ok: "(wr_max rule = None \<or> stroops_of (pr_amount r) \<le> the (wr_max rule)) \<and>
      (wr_require_recipient rule \<longrightarrow> pr_recipient r \<noteq> None) \<and>
      (\<forall>ids. wr_recipients rule = Some ids \<longrightarrow> (\<exists>i. pr_recipient r = Some i \<and> i \<in> set ids)) \<and>
      (\<forall>ids. wr_assets rule = Some ids \<longrightarrow> asset_identity (pr_asset r) (pr_issuer r) \<in> set ids) \<and>
      (wr_require_memo rule \<longrightarrow> (\<exists>m. pr_memo r = Some m \<and> m \<noteq> []))"
    using assms(2) v valid_amount_parses unfolding payment_denial_def
    by (auto split: if_splits option.splits)
  show "we_wallet e = JStr (pr_wallet r)" by fact
  show "stroops_of (pr_amount r) \<le> stroops_of s" if "we_max e = Some s" for s
  proof -
    have "wr_max rule = Some (stroops_of s)"
      using c that by (auto simp: parse_configured_max_amount_def parse_exact_stroops_def split: if_splits)
    then show ?thesis using ok by simp
  qed
  show "\<exists>i. pr_recipient r = Some i \<and> JStr i \<in> set ids" if given: "we_recipients e = RecipientIds ids" for ids
  proof -
    obtain ss where ss: "compile_set (require_config_string ''recipientId'') [] ids = Inr ss" "wr_recipients rule = Some ss"
      using c given by (auto simp: compile_recipient_allowlist_def and_then_Inr)
    then obtain i where "pr_recipient r = Some i" "i \<in> set ss" using ok by blast
    then show ?thesis using compile_set_members [OF ss(1), of i] by (auto simp: require_config_string_ok)
  qed
  show "\<exists>a. Entry a \<in> set as \<and> ae_code a = JStr (pr_asset r) \<and>
      ae_issuer a = (case pr_issuer r of None \<Rightarrow> JUndefined | Some i \<Rightarrow> JStr i)" if given: "we_assets e = Some as" for as
  proof -
    obtain ss where ss: "compile_set compile_asset [] as = Inr ss" "wr_assets rule = Some ss"
      using c given by (auto simp: compile_asset_allowlist_def and_then_Inr)
    then obtain a where a: "a \<in> set as" "compile_asset a = Inr (asset_identity (pr_asset r) (pr_issuer r))"
      using ok compile_set_members [OF ss(1)] by fastforce
    have "i \<noteq> []" if "pr_issuer r = Some i" for i
      using v that valid_account_id_nonempty by auto
    then show ?thesis using compile_asset_ok [OF a(2)] v a(1) by blast
  qed
  show "pr_recipient r \<noteq> None" if "we_require_recipient e = JBool True"
    using c ok that by (simp add: optional_flag_def)
  show "\<exists>m. pr_memo r = Some m \<and> m \<noteq> []" if "we_require_memo e = JBool True"
    using c ok that by (simp add: optional_flag_def)
qed
section \<open>What binding leaves in the object\<close>

lemma heap_get_update: "heap_get (AList.update l ob h) l' = (if l' = l then ob else heap_get h l')"
  by (simp add: heap_get_def update_conv')

lemma map_of_inserted:
  "k \<notin> fst ` set xs \<Longrightarrow> map_of (xs @ (k, v) # ys) k' = (if k' = k then Some v else map_of (xs @ ys) k')"
  by (induction xs) auto

lemma own_property_hidden:
  assumes "own_property ob k = None"
  shows "own_property (hide_property k ob) k' = (if k' = k then Some (Data False JUndefined) else own_property ob k')"
proof -
  let ?s = "\<lambda>(k, d :: descriptor). key_string k \<noteq> None" and ?p = "ob_props ob"
  have "KStr k \<notin> fst ` set ?p" using assms by (simp add: own_property_def map_of_eq_None_iff)
  then have none: "KStr k \<notin> fst ` set (takeWhile ?s ?p)" by (auto dest: set_takeWhileD)
  have "map_of (takeWhile ?s ?p @ (KStr k, Data False JUndefined) # dropWhile ?s ?p) (KStr k') =
      (if k' = k then Some (Data False JUndefined) else map_of ?p (KStr k'))"
    unfolding map_of_inserted [OF none] takeWhile_dropWhile_id by simp
  then show ?thesis by (simp add: own_property_def hide_property_def Let_def)
qed

text \<open>The object keeps the own properties it had, and any new one is hidden and undefined.\<close>

definition extends_object :: "loc \<Rightarrow> heap \<Rightarrow> heap \<Rightarrow> bool" where
  "extends_object l h h' \<longleftrightarrow>
    (\<forall>k. own_property (heap_get h' l) k = own_property (heap_get h l) k \<or>
      own_property (heap_get h l) k = None \<and> own_property (heap_get h' l) k = Some (Data False JUndefined))"

lemma extends_refl [simp]: "extends_object l h h"
  by (simp add: extends_object_def)

lemma extends_trans: "extends_object l h h' \<Longrightarrow> extends_object l h' h'' \<Longrightarrow> extends_object l h h''"
  unfolding extends_object_def by metis

lemma extends_some: "extends_object l h h' \<Longrightarrow> own_property (heap_get h l) k = Some d \<Longrightarrow>
    own_property (heap_get h' l) k = Some d"
  unfolding extends_object_def by (metis option.distinct(1))

lemma extends_none: "extends_object l h h' \<Longrightarrow> own_property (heap_get h l) k = None \<Longrightarrow>
    own_property (heap_get h' l) k \<noteq> None \<Longrightarrow> own_property (heap_get h' l) k = Some (Data False JUndefined)"
  unfolding extends_object_def by metis

lemma shadow_field_ok:
  assumes "shadow_field l k h = (True, h')"
  shows "extends_object l h h' \<and> own_property (heap_get h' l) k \<noteq> None"
proof (cases "own_property (heap_get h l) k")
  case None
  then have "h' = AList.update l (hide_property k (heap_get h l)) h"
    using assms by (auto simp: shadow_field_def define_hidden_def split: if_splits option.splits)
  then show ?thesis using own_property_hidden [OF None] None by (auto simp: extends_object_def heap_get_update)
next
  case (Some d)
  then have "h' = h" using assms by (simp add: shadow_field_def)
  then show ?thesis using Some by simp
qed

definition bound_to :: "loc \<Rightarrow> heap \<Rightarrow> string \<times> jsval \<Rightarrow> bool" where
  "bound_to l h f \<longleftrightarrow> (\<exists>b v. own_property (heap_get h l) (fst f) = Some (Data b v) \<and> strict_equal v (snd f))"

lemma bound_extends: "bound_to l h f \<Longrightarrow> extends_object l h h' \<Longrightarrow> bound_to l h' f"
  unfolding bound_to_def using extends_some by blast

lemma bind_field_ok:
  assumes "bind_field l k v h = (True, h')"
  shows "extends_object l h h' \<and> bound_to l h' (k, v)"
proof -
  obtain w where w: "read_own_data_field h l k = Some w" "strict_equal w v" "shadow_field l k h = (True, h')"
    using assms by (auto simp: bind_field_def split: option.splits if_splits)
  note s = shadow_field_ok [OF w(3)]
  show ?thesis
  proof (cases "own_property (heap_get h l) k")
    case None
    then have "w = JUndefined" using w(1) by (simp add: read_own_data_field_def)
    moreover have "own_property (heap_get h' l) k = Some (Data False JUndefined)"
      using s extends_none [OF _ None] by blast
    ultimately show ?thesis using s w(2) by (auto simp: bound_to_def)
  next
    case (Some d)
    then obtain b where "d = Data b w" using w(1) by (auto simp: read_own_data_field_def split: descriptor.splits)
    then show ?thesis using s w(2) extends_some [OF _ Some] by (auto simp: bound_to_def)
  qed
qed

lemma bind_fields_ok:
  assumes "bind_fields l fs h = (True, h')"
  shows "extends_object l h h' \<and> (\<forall>f \<in> set fs. bound_to l h' f)"
  using assms
proof (induction fs arbitrary: h)
  case (Cons f fs)
  obtain k v where f: "f = (k, v)" by force
  then obtain h1 where h1: "bind_field l k v h = (True, h1)" "bind_fields l fs h1 = (True, h')"
    using Cons.prems by (auto split: prod.splits if_splits)
  show ?case using bind_field_ok [OF h1(1)] Cons.IH [OF h1(2)] extends_trans bound_extends by (auto simp: f)
qed simp

lemma extends_freeze: "extends_object l h (freeze_object l h)"
  by (simp add: extends_object_def heap_get_freeze own_property_def)

lemma bind_authorized_ok:
  assumes "bind_authorized_payment v p h = (True, h')"
  shows "\<exists>l. v = JRef l \<and> ob_frozen (heap_get h' l) \<and> (\<forall>f \<in> set (authorized_fields p). bound_to l h' f) \<and>
    extends_object l h h' \<and> own_property (heap_get h' l) ''metadata'' \<noteq> None"
proof -
  obtain l h1 h2 where v: "v = JRef l" and h1: "bind_fields l (authorized_fields p) h = (True, h1)"
    and h2: "shadow_field l ''metadata'' h1 = (True, h2)" and h': "h' = freeze_object l h2"
    using assms by (auto simp: bind_authorized_payment_def split: jsval.splits prod.splits bool.splits)
  note b = bind_fields_ok [OF h1] and m = shadow_field_ok [OF h2] and f = extends_freeze [of l h2, folded h']
  have ext: "extends_object l h1 h'" using m f extends_trans by blast
  have "ob_frozen (heap_get h' l)" by (simp add: h' heap_get_freeze)
  moreover have "own_property (heap_get h' l) ''metadata'' \<noteq> None"
    using m extends_some [OF f] by (metis not_None_eq)
  ultimately show ?thesis using v b ext bound_extends extends_trans by blast
qed

section \<open>The tool prepares what the policy judged\<close>

text \<open>
  The property reads of the tool: \<open>elsewhere\<close> is what a getter or the prototype chain answers where
  the object has no own data property.
\<close>

definition read_field :: "(string \<Rightarrow> jsval) \<Rightarrow> heap \<Rightarrow> loc \<Rightarrow> string \<Rightarrow> jsval" where
  "read_field elsewhere h l k =
    (case own_property (heap_get h l) k of Some (Data _ v) \<Rightarrow> v | _ \<Rightarrow> elsewhere k)"

definition payload_read :: "(string \<Rightarrow> jsval) \<Rightarrow> heap \<Rightarrow> loc \<Rightarrow> payment_payload" where
  "payload_read elsewhere h l =
    (let field = read_field elsewhere h l in
     \<lparr>pp_wallet = field ''walletId'', pp_amount = field ''amount'', pp_recipient = field ''recipientId'',
      pp_asset = field ''assetCode'', pp_issuer = field ''assetIssuer'', pp_memo = field ''memo'',
      pp_metadata = field ''metadata''\<rparr>)"

definition same_intent :: "payment_payload \<Rightarrow> payment_payload \<Rightarrow> bool" where
  "same_intent p p' \<longleftrightarrow> pp_wallet p = pp_wallet p' \<and> strict_equal (pp_amount p) (pp_amount p') \<and>
    pp_recipient p = pp_recipient p' \<and> pp_asset p = pp_asset p' \<and> pp_issuer p = pp_issuer p' \<and> pp_memo p = pp_memo p'"

lemma strict_equal_amount:
  assumes "strict_equal v w" and "prepared_amount w = Inr r"
  shows "prepared_amount v = Inr r"
proof (cases w)
  case (JNum b)
  then obtain a where v: "v = JNum a" using assms(1) by (cases v) auto
  have n: "normalize_stellar_amount (JNum b) = Inr r" using assms(2) JNum by (simp add: prepared_amount_def)
  then obtain m e where b: "shortest b = Fin m e" "0 < m"
    by (cases "shortest b") (auto simp: normalize_stellar_amount_def and_then_Inr normalize_numeric_amount_def
      Let_def split: if_splits)
  have "shortest a = shortest b"
  proof -
    have nb: "b \<noteq> NegZero" using b by auto
    have "a \<noteq> NegZero"
    proof
      assume "a = NegZero"
      then have "Fin 0 0 = shortest b" using assms(1) nb by (simp add: v JNum)
      then show False using b by simp
    qed
    with nb show ?thesis using assms(1) by (simp add: v JNum)
  qed
  then have "normalize_numeric_amount b = Inr s \<Longrightarrow> normalize_numeric_amount a = Inr s" for s
    by (auto simp: normalize_numeric_amount_def b Let_def split: if_splits)
  with n have "normalize_stellar_amount (JNum a) = Inr r"
    by (auto simp: normalize_stellar_amount_def and_then_Inr split: if_splits)
  then show ?thesis by (simp add: prepared_amount_def v)
qed (use assms in \<open>auto simp: prepared_amount_def\<close>)

lemma same_intent_prepared:
  assumes "same_intent p p'" and "prepare_payment H task at p' = Inr r"
  shows "\<exists>r'. prepare_payment H' task' at' p = Inr r' \<and> pr_wallet r' = pr_wallet r \<and>
    pr_amount r' = pr_amount r \<and> pr_recipient r' = pr_recipient r \<and> pr_asset r' = pr_asset r \<and>
    pr_issuer r' = pr_issuer r \<and> pr_memo r' = pr_memo r"
proof -
  obtain stroops where parts: "required_text ''walletId'' (pp_wallet p') = Inr (pr_wallet r)"
    "optional_text ''recipientId'' (pp_recipient p') = Inr (pr_recipient r)"
    "prepared_asset (pp_asset p') = Inr (pr_asset r)" "prepared_issuer (pr_asset r) (pp_issuer p') = Inr (pr_issuer r)"
    "normalize_memo (pp_memo p') = Inr (pr_memo r)" "prepared_amount (pp_amount p') = Inr (pr_amount r, stroops)"
    using assms(2) unfolding prepare_payment_fields by blast
  have "prepared_amount (pp_amount p) = Inr (pr_amount r, stroops)"
    by (rule strict_equal_amount [OF _ parts(6)]) (use assms(1) in \<open>simp add: same_intent_def\<close>)
  then show ?thesis using assms(1) parts(1-5) by (simp add: prepare_payment_def same_intent_def)
qed

lemma snapshot_types:
  "snapshot_payment_payload h v = Some p \<Longrightarrow>
    is_string (pp_wallet p) \<and> is_optional_string (pp_recipient p) \<and> is_optional_string (pp_asset p) \<and>
    is_optional_string (pp_issuer p) \<and> is_optional_string (pp_memo p)"
  by (cases v) (auto simp: snapshot_payment_payload_def Let_def split: option.splits if_splits)

lemma strict_equal_optional: "is_optional_string w \<or> is_string w \<Longrightarrow> strict_equal v w \<Longrightarrow> v = w"
  by (cases w) auto

lemma bound_same_intent:
  assumes "\<forall>f \<in> set (authorized_fields p). bound_to l h f" and "snapshot_payment_payload h0 v = Some p"
  shows "same_intent (payload_read elsewhere h l) p"
proof -
  note t = snapshot_types [OF assms(2)]
  have eq: "strict_equal (read_field elsewhere h l k) w" if "(k, w) \<in> set (authorized_fields p)" for k w
  proof -
    have "bound_to l h (k, w)" using assms(1) that by blast
    then show ?thesis by (auto simp: bound_to_def read_field_def)
  qed
  have f: "strict_equal (read_field elsewhere h l ''walletId'') (pp_wallet p)"
    "strict_equal (read_field elsewhere h l ''amount'') (pp_amount p)"
    "strict_equal (read_field elsewhere h l ''recipientId'') (pp_recipient p)"
    "strict_equal (read_field elsewhere h l ''assetCode'') (pp_asset p)"
    "strict_equal (read_field elsewhere h l ''assetIssuer'') (pp_issuer p)"
    "strict_equal (read_field elsewhere h l ''memo'') (pp_memo p)"
    by (rule eq, simp add: authorized_fields_def)+
  show ?thesis
    unfolding same_intent_def payload_read_def Let_def payment_payload.simps
    using f(2) t strict_equal_optional [OF _ f(1)] strict_equal_optional [OF _ f(3)]
      strict_equal_optional [OF _ f(4)] strict_equal_optional [OF _ f(5)] strict_equal_optional [OF _ f(6)]
    by blast
qed

text \<open>An allowed payment, whatever code runs before the tool and whatever the tool's reads fall back to.\<close>

lemma evaluate_payment_permits:
  assumes "evaluate_payment H at gap rules q w = (r, w')" and "permits r" and "rq_tool q = PAYMENT_PREP_TOOL_NAME"
  shows "\<exists>p prepared rule. snapshot_payment_payload (pw_heap w) (rq_payload q) = Some p \<and>
    prepare_payment H (rq_task q) at p = Inr prepared \<and> map_of rules (pr_wallet prepared) = Some rule \<and>
    payment_denial rule prepared = None \<and>
    bind_authorized_payment (rq_payload q) p (pw_heap (gap w)) = (True, pw_heap w')"
proof -
  obtain p where p: "snapshot_payment_payload (pw_heap w) (rq_payload q) = Some p"
    using assms by (cases "snapshot_payment_payload (pw_heap w) (rq_payload q)") (auto simp: evaluate_payment_def)
  obtain prepared where prepared: "prepare_payment H (rq_task q) at p = Inr prepared"
    using assms p by (cases "prepare_payment H (rq_task q) at p") (auto simp: evaluate_payment_def)
  obtain rule where rule: "map_of rules (pr_wallet prepared) = Some rule"
    using assms p prepared by (cases "map_of rules (pr_wallet prepared)") (auto simp: evaluate_payment_def Let_def)
  have none: "payment_denial rule prepared = None"
    using assms p prepared rule by (cases "payment_denial rule prepared") (auto simp: evaluate_payment_def Let_def)
  obtain ok h where bound: "bind_authorized_payment (rq_payload q) p (pw_heap (gap w)) = (ok, h)" by force
  then have "ok" "pw_heap w' = h"
    using assms p prepared rule none by (auto simp: evaluate_payment_def Let_def split: if_splits)
  then have "bind_authorized_payment (rq_payload q) p (pw_heap (gap w)) = (True, pw_heap w')" using bound by simp
  then show ?thesis using p prepared rule none by blast
qed

lemma payment_denial_cong:
  "pr_amount r' = pr_amount r \<Longrightarrow> pr_recipient r' = pr_recipient r \<Longrightarrow> pr_asset r' = pr_asset r \<Longrightarrow>
    pr_issuer r' = pr_issuer r \<Longrightarrow> pr_memo r' = pr_memo r \<Longrightarrow> payment_denial rule r' = payment_denial rule r"
  by (simp add: payment_denial_def cong: option.case_cong)

lemma allowed_payment_honours:
  assumes config: "new_payment_policy (Entry es) = Inr rules"
    and run: "evaluate_payment H at gap rules q w = (r, w')" "permits r" "rq_tool q = PAYMENT_PREP_TOOL_NAME"
  shows "\<exists>l e. rq_payload q = JRef l \<and> Entry e \<in> set es \<and>
    (\<forall>h elsewhere H' task at'. later (pw_heap w') h \<longrightarrow>
      (\<exists>r'. prepare_payment H' task at' (payload_read elsewhere h l) = Inr r' \<and> honours e r'))"
proof -
  obtain p prepared rule where p: "snapshot_payment_payload (pw_heap w) (rq_payload q) = Some p"
    "prepare_payment H (rq_task q) at p = Inr prepared" "map_of rules (pr_wallet prepared) = Some rule"
    "payment_denial rule prepared = None"
    "bind_authorized_payment (rq_payload q) p (pw_heap (gap w)) = (True, pw_heap w')"
    using evaluate_payment_permits [OF run] by blast
  obtain e where e: "Entry e \<in> set es" "we_wallet e = JStr (pr_wallet prepared)" "compiled_from e rule"
    using new_payment_policy_ok [OF config p(3)] by blast
  obtain l where l: "rq_payload q = JRef l" "ob_frozen (heap_get (pw_heap w') l)"
    "\<forall>f \<in> set (authorized_fields p). bound_to l (pw_heap w') f"
    using bind_authorized_ok [OF p(5)] by blast
  have "\<exists>r'. prepare_payment H' task at' (payload_read elsewhere h l) = Inr r' \<and> honours e r'"
    if "later (pw_heap w') h" for h elsewhere H' task at'
  proof -
    have "heap_get h l = heap_get (pw_heap w') l" using that l(2) by (simp add: later_def)
    then have "\<forall>f \<in> set (authorized_fields p). bound_to l h f" using l(3) by (simp add: bound_to_def)
    from same_intent_prepared [OF bound_same_intent [OF this p(1)] p(2)]
    obtain r' where r': "prepare_payment H' task at' (payload_read elsewhere h l) = Inr r'"
      "pr_wallet r' = pr_wallet prepared" "pr_amount r' = pr_amount prepared" "pr_recipient r' = pr_recipient prepared"
      "pr_asset r' = pr_asset prepared" "pr_issuer r' = pr_issuer prepared" "pr_memo r' = pr_memo prepared"
      by blast
    then have "payment_denial rule r' = None" using p(4) payment_denial_cong by metis
    then show ?thesis using permitted_honours [OF e(3) _ prepared_is_valid [OF r'(1)]] e(2) r' by simp
  qed
  then show ?thesis using l(1) e(1) by blast
qed

section \<open>Binding hides properties, and the approval digest refuses hidden properties\<close>

lemma own_property_in_props: "own_property ob k = Some d \<Longrightarrow> (KStr k, d) \<in> set (ob_props ob)"
  by (simp add: own_property_def map_of_SomeD)

lemma own_property_sorted: "own_property ob k = Some d \<Longrightarrow> k \<in> set (sorted_keys ob)"
  by (drule own_property_in_props)
    (force simp: sorted_keys_def sort_strings_def string_props_def List.map_filter_def)

lemma each_unit_ok: "each f xs () = Inr u \<Longrightarrow> x \<in> set xs \<Longrightarrow> \<exists>v. f x () = Inr v"
  by (induction xs) (auto simp: and_then_Inr)

lemma canonicalize_rejects_hidden:
  assumes "own_property (heap_get h l) k = Some (Data False v)"
  shows "canonicalize_payload h (JRef l) \<noteq> Inr s"
proof
  assume "canonicalize_payload h (JRef l) = Inr s"
  then obtain t where "canonicalize (payload_depth h) h (JRef l) [] = Inr (s, t)"
    by (auto simp: canonicalize_payload_def canonicalize_within_def and_then_Inr)
  then show False
  proof (cases rule: canonicalize_cases)
    case (arr m l' parts)
    then have "\<exists>u. check_array_key (heap_get h l) (KStr k, Data False v) () = Inr u"
      using each_unit_ok own_property_in_props [OF assms] by fastforce
    then show ?thesis by (auto simp: check_array_key_def split: option.splits if_splits)
  next
    case (obj m l' parts)
    have l: "l' = l" using obj(2) by simp
    have all: "list_all2 (\<lambda>k y. \<exists>w. object_field (heap_get h l) k = Inr w) (sorted_keys (heap_get h l)) parts"
      by (rule collect_list_all2 [OF obj(7) [unfolded l]], unfold object_entry_Inr) blast
    obtain i where "i < length (sorted_keys (heap_get h l))" "sorted_keys (heap_get h l) ! i = k"
      using own_property_sorted [OF assms] by (auto simp: in_set_conv_nth)
    with list_all2_nthD [OF all this(1)] have "\<exists>w. object_field (heap_get h l) k = Inr w" by simp
    then show ?thesis using assms by (auto simp: object_field_Inr)
  qed simp
qed

text \<open>
  The documented composition, the payment policy as base of the hardened approval policy, denies every
  payment whose object leaves out one of the fields: the base policy adds it as a hidden property, and
  the digest refuses objects with hidden properties.
\<close>

definition payment_fields :: "string list" where
  "payment_fields = [''walletId'', ''amount'', ''recipientId'', ''assetCode'', ''assetIssuer'', ''memo'', ''metadata'']"

lemma payment_base_starves_approval:
  assumes base: "po_base p = Some (evaluate_payment H' at gap rules)"
    and tool: "rq_tool q = PAYMENT_PREP_TOOL_NAME" "PAYMENT_PREP_TOOL_NAME \<in> set (po_protected p)"
    and missing: "rq_payload q = JRef l" "k \<in> set payment_fields"
      "own_property (heap_get (pw_heap (gap w)) l) k = None"
  shows "\<not> permits (fst (evaluate_hardened H p q w))"
proof
  assume "permits (fst (evaluate_hardened H p q w))"
  then obtain w1 before where base_ok: "ask_base (po_base p) q w = (None, w1)"
    and digest: "digest_payload H (pw_heap w1) (rq_payload q) = Inr before"
    using hardened_permits [OF prod.collapse [symmetric, of "evaluate_hardened H p q w"]] tool by metis
  then have "permits (fst (evaluate_payment H' at gap rules q w))" "w1 = snd (evaluate_payment H' at gap rules q w)"
    using ask_base_passes by (metis base)+
  then obtain r where run: "evaluate_payment H' at gap rules q w = (r, w1)" "permits r"
    by (cases "evaluate_payment H' at gap rules q w") simp
  obtain pay where bound: "bind_authorized_payment (JRef l) pay (pw_heap (gap w)) = (True, pw_heap w1)"
    using evaluate_payment_permits [OF run tool(1)] missing(1) by auto
  have "own_property (heap_get (pw_heap w1) l) k \<noteq> None \<and> extends_object l (pw_heap (gap w)) (pw_heap w1)"
    using bind_authorized_ok [OF bound] missing(2)
    by (auto simp: payment_fields_def authorized_fields_def bound_to_def)
  then have "own_property (heap_get (pw_heap w1) l) k = Some (Data False JUndefined)"
    using extends_none [OF _ missing(3)] by blast
  then show False
    using digest canonicalize_rejects_hidden missing(1)
    by (auto simp: digest_payload_def digest_legacy_Inr and_then_Inr)
qed

end
