(* ===== verification/Stellar_Account.thy ===== *)
theory Stellar_Account
  imports Payment_Prep
begin

unbundle bit_operations_syntax

text \<open>
  What \<open>decodeBase32\<close>, \<open>crc16Xmodem\<close> and \<open>isValidStellarAccountId\<close> of
  \<open>src/actions/payment-prep-action.ts\<close> compute: the decoder against positional notation, the checksum
  as a linear map without kernel, and from both that a mistyped character is never accepted.
\<close>

section \<open>Base32 against a reference\<close>

text \<open>The number a list of digits to a base stands for, most significant digit first.\<close>

definition base_val :: "nat \<Rightarrow> nat list \<Rightarrow> nat" where
  "base_val b ds = foldl (\<lambda>a d. a * b + d) 0 ds"

lemma base_val_snoc [simp]: "base_val b (ds @ [d]) = base_val b ds * b + d" "base_val b [] = 0"
  by (simp_all add: base_val_def)

lemma push_or_nat:
  fixes a d :: nat
  assumes "d < 2 ^ n"
  shows "push_bit n a OR d = a * 2 ^ n + d"
proof -
  have "\<not> bit d k" if "n \<le> k" for k
    using assms that by (metis bit_take_bit_iff not_le take_bit_nat_eq_self_iff)
  then have "push_bit n a OR d = push_bit n a + d"
    by (intro disjunctive_add [symmetric]) (auto simp: bit_push_bit_iff)
  then show ?thesis by (simp add: push_bit_eq_mult)
qed

lemma unat_push_or:
  assumes "unat (buf :: 32 word) < 256" and "d < 32"
  shows "unat (push_bit 5 buf OR of_nat d) = unat buf * 32 + d"
proof -
  have d: "unat (of_nat d :: 32 word) = d" using assms(2) by (simp add: unat_of_nat)
  have p: "unat (push_bit 5 buf) = push_bit 5 (unat buf)"
    unfolding unsigned_push_bit_eq using assms(1) by (simp add: push_bit_eq_mult take_bit_eq_mod)
  show ?thesis unfolding unsigned_or_eq p d using push_or_nat [of d 5 "unat buf"] assms(2) by simp
qed

lemma unat_low_bits: "unat (w AND (push_bit k 1 - 1) :: 32 word) = unat w mod 2 ^ k"
proof -
  have "(push_bit k 1 - 1 :: 32 word) = mask k" by (simp only: mask_eq_exp_minus_1 push_bit_of_1)
  then have low: "w AND (push_bit k 1 - 1) = take_bit k w" by (simp only: take_bit_eq_mask)
  show ?thesis unfolding low unsigned_take_bit_eq by (rule take_bit_eq_mod)
qed

lemma unat_byte: "unat (drop_bit k w AND 0xff :: 32 word) = unat w div 2 ^ k mod 256"
proof -
  have "(0xff :: 32 word) = mask 8" by (simp add: mask_eq_exp_minus_1)
  then have low: "drop_bit k w AND 0xff = take_bit 8 (drop_bit k w)" by (simp only: take_bit_eq_mask)
  have "take_bit LENGTH(32) (unat w) = unat w"
    using unsigned_less [of w, where ?'a = nat] by (simp add: take_bit_eq_mod)
  then show ?thesis unfolding low unsigned_take_bit_eq unsigned_drop_bit_eq
    by (simp only: take_bit_eq_mod drop_bit_eq_div) simp
qed

text \<open>The digits read so far are the bytes written followed by the bits in the buffer.\<close>

definition base32_state :: "nat list \<Rightarrow> nat \<times> 32 word \<times> nat list \<Rightarrow> bool" where
  "base32_state ds s = (case s of (bits, buf, out) \<Rightarrow>
    bits < 8 \<and> 5 * length ds = 8 * length out + bits \<and> unat buf < 2 ^ bits \<and>
    base_val 32 ds = base_val 256 out * 2 ^ bits + unat buf \<and> list_all (\<lambda>b. b < 256) out)"

lemma emit_bytes_few: "bits < 8 \<Longrightarrow> emit_bytes bits buf out = (bits, buf, out)"
  by (subst emit_bytes.simps) simp

lemma emit_bytes_one:
  "k < 8 \<Longrightarrow> emit_bytes (k + 8) buf out =
    (k, if k = 0 then 0 else buf AND (push_bit k 1 - 1), out @ [unat (drop_bit k buf AND 0xff)])"
  by (subst emit_bytes.simps) (simp only: le_add2 if_True diff_add_inverse2 emit_bytes_few)

lemma base32_step:
  assumes "base32_state ds (bits, buf, out)" and "d < 32"
  shows "base32_state (ds @ [d]) (emit_bytes (bits + 5) (push_bit 5 buf OR of_nat d) out)"
proof -
  let ?buf = "push_bit 5 buf OR of_nat d"
  have inv: "bits < 8" "5 * length ds = 8 * length out + bits" "unat buf < 2 ^ bits"
    "base_val 32 ds = base_val 256 out * 2 ^ bits + unat buf" "list_all (\<lambda>b. b < 256) out"
    using assms(1) by (auto simp: base32_state_def)
  have "(2::nat) ^ bits \<le> 2 ^ 7" using inv(1) by (intro power_increasing) auto
  then have b: "unat ?buf = unat buf * 32 + d" using inv(3) assms(2) by (intro unat_push_or) auto
  have lt: "unat ?buf < 2 ^ (bits + 5)" using inv(3) assms(2) by (simp add: b power_add)
  have val: "base_val 32 (ds @ [d]) = base_val 256 out * 2 ^ (bits + 5) + unat ?buf"
    by (simp add: inv(4) b power_add algebra_simps)
  show ?thesis
  proof (cases "8 \<le> bits + 5")
    case False
    then show ?thesis using inv lt val by (simp only: emit_bytes_few not_le base32_state_def prod.case) simp
  next
    case True
    define k where "k = bits + 5 - 8"
    have k: "bits + 5 = k + 8" "k < 8" using True inv(1) by (auto simp: k_def)
    let ?rest = "if k = 0 then 0 else ?buf AND (push_bit k 1 - 1)"
    have emit: "emit_bytes (bits + 5) ?buf out =
        (k, ?rest, out @ [unat (drop_bit k ?buf AND 0xff)])"
      unfolding k(1) using k(2) by (rule emit_bytes_one)
    have rest: "unat ?rest = unat ?buf mod 2 ^ k"
      by (cases "k = 0") (simp_all only: if_True if_False unat_low_bits power_0 mod_by_1 unat_0 refl)
    have byte: "unat (drop_bit k ?buf AND 0xff) = unat ?buf div 2 ^ k"
    proof -
      have "unat ?buf div 2 ^ k < 256" using lt k(1) by (simp add: power_add less_mult_imp_div_less mult.commute)
      then show ?thesis by (simp only: unat_byte mod_less)
    qed
    have "unat ?buf = unat ?buf div 2 ^ k * 2 ^ k + unat ?buf mod 2 ^ k" by (simp only: div_mult_mod_eq)
    then have "base_val 32 (ds @ [d]) = (base_val 256 out * 256 + unat ?buf div 2 ^ k) * 2 ^ k + unat ?buf mod 2 ^ k"
      using val k(1) by (simp add: power_add algebra_simps)
    moreover have "unat ?buf div 2 ^ k < 256"
      using lt k(1) by (simp add: power_add less_mult_imp_div_less mult.commute)
    ultimately have "base32_state (ds @ [d]) (k, ?rest, out @ [unat (drop_bit k ?buf AND 0xff)])"
      using inv(2,5) k unfolding base32_state_def prod.case rest byte by simp
    then show ?thesis unfolding emit .
  qed
qed

lemma index_of_less: "index_of x ys = Some i \<Longrightarrow> i < length ys"
  by (induction ys arbitrary: i) (auto split: if_splits)

lemma index_of_None: "index_of x ys = None \<longleftrightarrow> x \<notin> set ys"
  by (induction ys) auto

lemma alphabet_size: "length BASE32_ALPHABET = 32"
  by (simp add: BASE32_ALPHABET_def)

definition base32_digits :: "string \<Rightarrow> nat list option" where
  "base32_digits s = those (map (\<lambda>c. index_of c BASE32_ALPHABET) s)"

lemma base32_digits_Cons:
  "base32_digits (c # cs) = (case index_of c BASE32_ALPHABET of None \<Rightarrow> None
    | Some d \<Rightarrow> map_option (\<lambda>ds. d # ds) (base32_digits cs))"
  by (simp add: base32_digits_def split: option.split)

lemma base32_loop_digits:
  assumes "base32_state ds s"
  shows "case base32_digits cs of None \<Rightarrow> base32_loop cs s = None
    | Some es \<Rightarrow> \<exists>t. base32_loop cs s = Some t \<and> base32_state (ds @ es) t \<and> length es = length cs"
  using assms
proof (induction cs arbitrary: ds s)
  case Nil
  then show ?case by (simp add: base32_digits_def)
next
  case (Cons c cs)
  obtain bits buf out where s: "s = (bits, buf, out)" by (cases s)
  show ?case
  proof (cases "index_of c BASE32_ALPHABET")
    case None
    then show ?thesis by (simp add: s base32_digits_Cons)
  next
    case (Some d)
    then have "d < 32" using index_of_less alphabet_size by metis
    then have "base32_state (ds @ [d]) (emit_bytes (bits + 5) (push_bit 5 buf OR of_nat d) out)"
      using Cons.prems by (simp only: s base32_step)
    from Cons.IH [OF this] show ?thesis
      using Some by (auto simp: s base32_digits_Cons split: option.splits)
  qed
qed

lemma base_val_less: "list_all (\<lambda>d. d < b) ds \<Longrightarrow> base_val b ds < b ^ length ds"
proof (induction ds rule: rev_induct)
  case (snoc d ds)
  then have "base_val b ds + 1 \<le> b ^ length ds" by simp
  then have "(base_val b ds + 1) * b \<le> b ^ length ds * b" by (rule mult_right_mono) simp
  then show ?case using snoc.prems by (simp add: algebra_simps)
qed simp

lemma base_val_inj:
  "length xs = length ys \<Longrightarrow> list_all (\<lambda>d. d < b) xs \<Longrightarrow> list_all (\<lambda>d. d < b) ys \<Longrightarrow>
    base_val b xs = base_val b ys \<Longrightarrow> xs = ys"
proof (induction xs arbitrary: ys rule: rev_induct)
  case (snoc x xs)
  then obtain y zs where ys: "ys = zs @ [y]" by (cases ys rule: rev_cases) auto
  have "base_val b xs * b + x = base_val b zs * b + y" "x < b" "y < b" using snoc.prems ys by simp_all
  then have "(base_val b xs * b + x) div b = (base_val b zs * b + y) div b"
    "(base_val b xs * b + x) mod b = (base_val b zs * b + y) mod b" by simp_all
  with \<open>x < b\<close> \<open>y < b\<close> have "base_val b xs = base_val b zs" "x = y" by simp_all
  then show ?case using snoc ys by auto
qed simp

lemma decode_base32_reference:
  "decode_base32 s = Some bytes \<longleftrightarrow>
    (\<exists>ds. base32_digits s = Some ds \<and> base_val 32 ds = base_val 256 bytes * 2 ^ (5 * length s mod 8) \<and>
      length bytes = 5 * length s div 8 \<and> list_all (\<lambda>b. b < 256) bytes)"
proof (cases "base32_digits s")
  case None
  then show ?thesis using base32_loop_digits [of "[]" "(0, 0, [])" s]
    by (simp add: decode_base32_def base32_state_def)
next
  case (Some ds)
  have "base32_state [] (0, 0, [])" by (simp add: base32_state_def)
  from base32_loop_digits [OF this, of s] Some obtain bits buf out where
    t: "base32_loop s (0, 0, []) = Some (bits, buf, out)" "base32_state ds (bits, buf, out)" "length ds = length s"
    by auto
  then have inv: "bits < 8" "5 * length s = 8 * length out + bits" "unat buf < 2 ^ bits"
    "base_val 32 ds = base_val 256 out * 2 ^ bits + unat buf" "list_all (\<lambda>b. b < 256) out"
    by (auto simp: base32_state_def)
  then have bits: "bits = 5 * length s mod 8" "length out = 5 * length s div 8" using inv(1) by (simp_all add: inv(2))
  have zero: "bits = 0 \<Longrightarrow> buf = 0" using inv(3) by (simp add: unat_eq_0)
  have val: "base_val 256 bytes * 2 ^ bits = base_val 256 out * 2 ^ bits + unat buf \<longleftrightarrow>
      unat buf = 0 \<and> base_val 256 bytes = base_val 256 out"
  proof
    assume eq: "base_val 256 bytes * 2 ^ bits = base_val 256 out * 2 ^ bits + unat buf"
    have "(base_val 256 bytes * 2 ^ bits) mod 2 ^ bits = 0" by simp
    then have "unat buf = 0" using inv(3) unfolding eq by simp
    then show "unat buf = 0 \<and> base_val 256 bytes = base_val 256 out" using eq by simp
  qed simp
  have "decode_base32 s = Some bytes \<longleftrightarrow> unat buf = 0 \<and> out = bytes"
    using t(1) zero by (auto simp: decode_base32_def unat_eq_0)
  also have "\<dots> \<longleftrightarrow> base_val 32 ds = base_val 256 bytes * 2 ^ bits \<and> length bytes = length out \<and>
      list_all (\<lambda>b. b < 256) bytes"
    using val inv(4,5) base_val_inj [of bytes out 256] by auto
  finally show ?thesis using Some bits by simp
qed
section \<open>The checksum is linear and loses nothing\<close>

lemma bit_15: "c AND 0x8000 \<noteq> 0 \<longleftrightarrow> bit (c :: 32 word) 15"
proof -
  have "(0x8000 :: 32 word) = push_bit 15 1" by simp
  then show ?thesis by (simp only: bit_iff_and_push_bit_not_eq_0)
qed

lemma and_xor_split: "(a XOR b) AND m = (a AND m) XOR (b AND m :: 32 word)"
  by (rule bit_eqI) (auto simp: bit_and_iff bit_xor_iff)

lemma crc_bit_alt: "crc_bit c = (push_bit 1 c AND 0xffff) XOR ((if bit c 15 then 0x1021 else 0) AND 0xffff)"
  unfolding crc_bit_def bit_15 by (simp only: and_xor_split [symmetric] xor.right_neutral split: if_split) blast

lemma crc_bit_xor: "crc_bit (x XOR y) = crc_bit x XOR crc_bit y"
proof -
  have swap: "(a XOR b) XOR (c XOR d) = (a XOR c) XOR (b XOR d)" for a b c d :: "32 word"
    by (simp only: ac_simps)
  have if_xor: "(if p \<noteq> q then k else 0) = (if p then k else 0) XOR (if q then k else (0 :: 32 word))" for p q k
    by (cases p; cases q) (simp_all only: simp_thms if_True if_False xor_self_eq xor.right_neutral xor.left_neutral)
  show ?thesis
    unfolding crc_bit_alt bit_xor_iff push_bit_xor and_xor_split if_xor by (rule swap)
qed

lemma crc_bit_kernel:
  assumes "crc_bit c = 0" and "take_bit 16 c = c"
  shows "c = 0"
proof (cases "bit c 15")
  case True
  then have "bit (crc_bit c) 0"
    by (simp only: crc_bit_def bit_15 if_True bit_and_iff bit_xor_iff bit_push_bit_iff) simp
  then show ?thesis using assms(1) by simp
next
  case False
  have mask: "(0xffff :: 32 word) = mask 16" by (simp add: mask_eq_exp_minus_1)
  have shifted: "take_bit 16 (push_bit 1 c) = 0"
    using assms(1) False by (simp only: crc_bit_def bit_15 if_False take_bit_eq_mask mask)
  show ?thesis
  proof (rule bit_word_eqI)
    fix n assume "n < LENGTH(32)"
    have "\<not> bit c n"
    proof (cases "n < 15")
      case True
      have "bit (take_bit 16 (push_bit 1 c)) (Suc n) \<longleftrightarrow> bit c n"
        using True by (simp only: bit_take_bit_iff bit_push_bit_iff) simp
      then show ?thesis using shifted by simp
    next
      case False
      show ?thesis
      proof (cases "n = 15")
        case False
        then have "\<not> bit (take_bit 16 c) n" using \<open>\<not> n < 15\<close> by (simp only: bit_take_bit_iff) simp
        then show ?thesis using assms(2) by simp
      qed (use \<open>\<not> bit c 15\<close> in simp)
    qed
    then show "bit c n = bit 0 n" by simp
  qed
qed

lemma crc_bit_16: "take_bit 16 (crc_bit c) = crc_bit c"
proof -
  have "(0xffff :: 32 word) = mask 16" by (simp add: mask_eq_exp_minus_1)
  then show ?thesis unfolding crc_bit_def by (auto simp: take_bit_eq_mask ac_simps simp del: push_bit_of_1)
qed

definition crc_shift :: "32 word \<Rightarrow> 32 word" where
  "crc_shift c = (crc_bit ^^ 8) c"

lemma crc_power_xor: "(crc_bit ^^ n) (x XOR y) = (crc_bit ^^ n) x XOR (crc_bit ^^ n) y"
  by (induction n) (simp_all add: crc_bit_xor)

lemma crc_power_kernel: "(crc_bit ^^ n) c = 0 \<Longrightarrow> take_bit 16 c = c \<Longrightarrow> c = 0"
proof (induction n arbitrary: c)
  case (Suc n)
  have "(crc_bit ^^ n) (crc_bit c) = 0" using Suc.prems(1) by (simp add: funpow_swap1)
  then have "crc_bit c = 0" using Suc.IH crc_bit_16 by blast
  then show ?case using Suc.prems(2) crc_bit_kernel by blast
qed simp
lemma crc_shift_simps:
  "crc_shift (x XOR y) = crc_shift x XOR crc_shift y" "crc_shift 0 = 0"
  by (simp_all only: crc_shift_def crc_power_xor)
    (use crc_power_xor [of 8 0 0] in \<open>simp only: xor_self_eq\<close>)

lemma crc_shift_zero: "crc_shift c = 0 \<Longrightarrow> take_bit 16 c = c \<Longrightarrow> c = 0"
  unfolding crc_shift_def by (rule crc_power_kernel)

lemma crc_shift_16: "take_bit 16 (crc_shift c) = crc_shift c"
proof -
  have "(crc_bit ^^ 8) c = crc_bit ((crc_bit ^^ 7) c)" by (simp add: eval_nat_numeral)
  then show ?thesis by (simp only: crc_shift_def crc_bit_16)
qed

lemma crc_byte_shift: "crc_byte c b = crc_shift (c XOR push_bit 8 (of_nat b))"
  by (simp only: crc_byte_def crc_shift_def)

lemma of_nat_xor: "(of_nat (a XOR b) :: 32 word) = of_nat a XOR of_nat b"
  by (rule of_nat_xor_eq)

lemma crc_byte_xor: "crc_byte (c XOR d) (a XOR b) = crc_byte c a XOR crc_byte d b"
proof -
  have "(c XOR d) XOR push_bit 8 (of_nat (a XOR b)) =
    (c XOR push_bit 8 (of_nat a)) XOR (d XOR push_bit 8 (of_nat b :: 32 word))"
    unfolding of_nat_xor push_bit_xor by (simp only: ac_simps)
  then show ?thesis by (simp only: crc_byte_shift crc_shift_simps)
qed

lemma crc16_snoc: "crc16_xmodem (bs @ [b]) = crc_byte (crc16_xmodem bs) b" "crc16_xmodem [] = 0"
  by (simp_all add: crc16_xmodem_def)

text \<open>The last \<open>n\<close> bytes of a number, most significant first.\<close>

fun bytes_of :: "nat \<Rightarrow> nat \<Rightarrow> nat list" where
  "bytes_of 0 x = []"
| "bytes_of (Suc n) x = bytes_of n (x div 256) @ [x mod 256]"

lemma bytes_of_base_val:
  "list_all (\<lambda>b. b < 256) bs \<Longrightarrow> bytes_of (length bs) (base_val 256 bs) = bs"
  by (induction bs rule: rev_induct) simp_all

lemma xor_div_mod_256:
  "((x XOR y) div 256 :: nat) = (x div 256) XOR (y div 256)" "((x XOR y) mod 256 :: nat) = (x mod 256) XOR (y mod 256)"
proof -
  have "(256 :: nat) = 2 ^ 8" by simp
  then show "((x XOR y) div 256 :: nat) = (x div 256) XOR (y div 256)"
    "((x XOR y) mod 256 :: nat) = (x mod 256) XOR (y mod 256)"
    by (simp_all only: drop_bit_eq_div [symmetric] take_bit_eq_mod [symmetric] drop_bit_xor take_bit_xor)
qed

lemma crc_bytes_xor:
  "crc16_xmodem (bytes_of n (x XOR y)) = crc16_xmodem (bytes_of n x) XOR crc16_xmodem (bytes_of n y)"
  by (induction n arbitrary: x y) (simp_all only: bytes_of.simps crc16_snoc xor_self_eq xor_div_mod_256 crc_byte_xor)

lemma crc_bytes_zero [simp]: "crc16_xmodem (bytes_of n 0) = 0"
  using crc_bytes_xor [of n 0 0] by simp

text \<open>
  Two bytes with anything before them nought: the register ends as the image of the sixteen bits under
  two shifts.
\<close>

lemma crc_bit_small:
  assumes "x < 2 ^ 15"
  shows "crc_bit (of_nat x) = of_nat (2 * x)"
proof -
  have "\<not> bit (of_nat x :: 32 word) 15"
    using assms by (simp only: bit_of_nat_iff) (simp add: bit_iff_odd)
  moreover have "(0xffff :: 32 word) = mask 16" by (simp add: mask_eq_exp_minus_1)
  ultimately have "crc_bit (of_nat x) = take_bit 16 (push_bit 1 (of_nat x))"
    by (simp only: crc_bit_def bit_15 if_False take_bit_eq_mask)
  also have "\<dots> = of_nat (take_bit 16 (push_bit 1 x))" by (simp only: push_bit_of_nat take_bit_of_nat)
  also have "take_bit 16 (push_bit 1 x) = 2 * x"
    using assms by (simp add: take_bit_eq_mod)
  finally show ?thesis .
qed

lemma crc_power_small: "n \<le> 8 \<Longrightarrow> v < 256 \<Longrightarrow> (crc_bit ^^ n) (of_nat v) = of_nat (v * 2 ^ n)"
proof (induction n)
  case (Suc n)
  have "v * 2 ^ n < 2 ^ 8 * 2 ^ n" using Suc.prems(2) by simp
  also have "(2::nat) ^ 8 * 2 ^ n \<le> 2 ^ 15"
    unfolding power_add [symmetric] by (rule power_increasing) (use Suc.prems(1) in simp_all)
  finally have "crc_bit (of_nat (v * 2 ^ n)) = of_nat (2 * (v * 2 ^ n))" by (rule crc_bit_small)
  moreover have "(crc_bit ^^ n) (of_nat v) = of_nat (v * 2 ^ n)" using Suc by simp
  ultimately show ?case by (simp only: funpow.simps comp_def power_Suc mult.left_commute)
qed simp

lemma crc_shift_small:
  assumes "v < 256"
  shows "crc_shift (of_nat v) = push_bit 8 (of_nat v)"
  unfolding crc_shift_def crc_power_small [OF order.refl assms] push_bit_of_nat by (simp only: push_bit_eq_mult)

lemma of_nat_two_bytes:
  assumes "v < 65536"
  shows "(of_nat v :: 32 word) = push_bit 8 (of_nat (v div 256)) XOR of_nat (v mod 256)"
proof -
  have "v = push_bit 8 (v div 256) OR (v mod 256)"
    using push_or_nat [of "v mod 256" 8 "v div 256"] by simp
  also have "\<dots> = push_bit 8 (v div 256) XOR (v mod 256)"
  proof (rule bit_eqI)
    fix n
    show "bit (push_bit 8 (v div 256) OR v mod 256) n = bit (push_bit 8 (v div 256) XOR v mod 256) n"
      using bit_take_bit_iff [of 8 v n] by (auto simp: bit_or_iff bit_xor_iff bit_push_bit_iff take_bit_eq_mod)
  qed
  finally show ?thesis by (metis of_nat_xor push_bit_of_nat)
qed

text \<open>Two bytes into a register of nought: the register is the image of the sixteen bits under two shifts.\<close>

lemma crc_two_bytes:
  assumes "v < 65536"
  shows "crc_byte (crc_byte 0 (v div 256)) (v mod 256) = crc_shift (crc_shift (of_nat v))"
proof -
  have "crc_shift (of_nat v) = crc_shift (push_bit 8 (of_nat (v div 256))) XOR push_bit 8 (of_nat (v mod 256))"
    unfolding of_nat_two_bytes [OF assms] crc_shift_simps by (simp only: crc_shift_small mod_less_divisor zero_less_numeral)
  then show ?thesis by (simp only: crc_byte_shift xor.left_neutral)
qed

lemma crc_bytes_small:
  assumes "0 < n" and "v < 65536" and "v < 256 ^ n"
  shows "crc16_xmodem (bytes_of n v) = crc_shift (crc_shift (of_nat v))"
proof -
  obtain m where n: "n = Suc m" using assms(1) by (cases n) auto
  have "crc16_xmodem (bytes_of m (v div 256)) = crc_byte 0 (v div 256)"
  proof (cases m)
    case 0
    then have "v div 256 = 0" using assms(3) n by simp
    then show ?thesis by (simp add: 0 crc16_snoc crc_byte_shift crc_shift_simps)
  next
    case (Suc k)
    have "v div 256 div 256 = 0" "v div 256 mod 256 = v div 256" using assms(2) by simp_all
    then show ?thesis by (simp only: Suc bytes_of.simps crc16_snoc crc_bytes_zero)
  qed
  then show ?thesis using crc_two_bytes [OF assms(2)] by (simp only: n bytes_of.simps crc16_snoc)
qed

text \<open>Zero bytes after them shift the register further and lose nothing.\<close>

lemma crc_bytes_shifted: "crc16_xmodem (bytes_of (n + m) (v * 256 ^ m)) = (crc_shift ^^ m) (crc16_xmodem (bytes_of n v))"
proof (induction m)
  case (Suc m)
  have "v * 256 ^ Suc m div 256 = v * 256 ^ m" "v * 256 ^ Suc m mod 256 = 0" by simp_all
  then show ?case by (simp only: add_Suc_right bytes_of.simps crc16_snoc Suc crc_byte_shift) simp
qed simp

lemma crc_shift_power_zero: "(crc_shift ^^ m) c = 0 \<Longrightarrow> take_bit 16 c = c \<Longrightarrow> c = 0"
proof (induction m arbitrary: c)
  case (Suc m)
  have "(crc_shift ^^ m) (crc_shift c) = 0" using Suc.prems(1) by (simp add: funpow_swap1)
  then show ?case using Suc.IH crc_shift_16 crc_shift_zero Suc.prems(2) by blast
qed simp

lemma of_nat_16: "v < 65536 \<Longrightarrow> take_bit 16 (of_nat v :: 32 word) = of_nat v"
  by (simp only: take_bit_of_nat) (simp add: take_bit_eq_mod)

lemma of_nat_16_zero: "v < 65536 \<Longrightarrow> (of_nat v :: 32 word) = 0 \<Longrightarrow> v = 0"
  using unat_of_nat [of v, where ?'a = 32] by simp

lemma crc_of_burst:
  assumes "0 < n" and "v < 65536" and "v < 256 ^ n" and "crc16_xmodem (bytes_of (n + m) (v * 256 ^ m)) = 0"
  shows "v = 0"
proof -
  have "(crc_shift ^^ m) (crc_shift (crc_shift (of_nat v))) = 0"
    using assms(4) crc_bytes_small [OF assms(1-3)] by (simp only: crc_bytes_shifted)
  then have "crc_shift (crc_shift (of_nat v)) = 0" using crc_shift_power_zero crc_shift_16 by blast
  then have "(of_nat v :: 32 word) = 0" using crc_shift_zero crc_shift_16 of_nat_16 [OF assms(2)] by blast
  then show ?thesis by (rule of_nat_16_zero [OF assms(2)])
qed

text \<open>The checksum bytes are the last two, low byte first.\<close>

definition stored_checksum :: "nat \<Rightarrow> 32 word" where
  "stored_checksum x = push_bit 8 (of_nat (x mod 256)) XOR of_nat (x div 256 mod 256)"

definition checked_number :: "nat \<Rightarrow> bool" where
  "checked_number x \<longleftrightarrow> crc16_xmodem (bytes_of 33 (x div 65536)) = stored_checksum x"

lemma checked_number_xor: "checked_number x \<Longrightarrow> checked_number y \<Longrightarrow> checked_number (x XOR y)"
proof -
  have d: "(x XOR y) div 65536 = x div 65536 XOR y div 65536"
  proof -
    have "z div 65536 = z div 256 div 256" for z :: nat by (simp add: div_mult2_eq [symmetric])
    then show ?thesis by (simp only: xor_div_mod_256)
  qed
  have s: "stored_checksum (x XOR y) = stored_checksum x XOR stored_checksum y"
    unfolding stored_checksum_def xor_div_mod_256 of_nat_xor push_bit_xor by (simp only: ac_simps)
  show "checked_number x \<Longrightarrow> checked_number y \<Longrightarrow> checked_number (x XOR y)"
    unfolding checked_number_def d s crc_bytes_xor by simp
qed

lemma stored_checksum_swap:
  "stored_checksum x = of_nat (x mod 256 * 256 + x div 256 mod 256)"
proof -
  have "x mod 256 * 256 + x div 256 mod 256 < 65536"
    using mod_less_divisor [of 256 x] mod_less_divisor [of 256 "x div 256"] by linarith
  from of_nat_two_bytes [OF this] show ?thesis by (simp add: stored_checksum_def)
qed

lemma xor_zero_eq: "a XOR b = 0 \<Longrightarrow> a = (b :: nat)"
  by (rule bit_eqI) (metis bit_0_eq bit_xor_iff bot_apply bot_bool_def)

text \<open>The one register that turns into 128, the top bit of the low checksum byte, is no small byte.\<close>

lemma crc_shift_steps:
  "crc_shift c = crc_bit (crc_bit (crc_bit (crc_bit (crc_bit (crc_bit (crc_bit (crc_bit c)))))))"
  by (simp add: crc_shift_def eval_nat_numeral)

lemma register_of_128: "crc_shift (crc_shift 0x118A) = 128"
  unfolding crc_shift_steps by (simp add: crc_bit_def)

lemma straddling_byte:
  assumes "a < 256"
  shows "crc_shift (crc_shift (of_nat a)) \<noteq> 128"
proof
  assume "crc_shift (crc_shift (of_nat a)) = 128"
  then have "crc_shift (crc_shift (of_nat a XOR 0x118A)) = 0"
    unfolding crc_shift_simps register_of_128 by (simp only: xor_self_eq)
  moreover have "(of_nat a XOR 0x118A :: 32 word) = of_nat (a XOR 0x118A)"
    unfolding of_nat_xor by simp
  moreover have bound: "(a XOR 0x118A) < 65536"
  proof -
    have "take_bit 16 (a XOR 0x118A) = a XOR 0x118A"
      unfolding take_bit_xor using assms by (simp add: take_bit_eq_mod)
    then show ?thesis using take_bit_nat_less_exp [of 16 "a XOR 0x118A"] by simp
  qed
  ultimately have "crc_shift (crc_shift (of_nat (a XOR 0x118A))) = 0" by simp
  then have "crc_shift (of_nat (a XOR 0x118A)) = 0" by (rule crc_shift_zero) (rule crc_shift_16)
  then have "(of_nat (a XOR 0x118A) :: 32 word) = 0" by (rule crc_shift_zero) (rule of_nat_16 [OF bound])
  then have "a XOR 0x118A = 0" by (rule of_nat_16_zero [OF bound])
  then have "a = 0x118A" by (rule xor_zero_eq)
  then show False using assms by simp
qed
section \<open>One character is never mistyped unnoticed\<close>

lemma burst_in_payload:
  assumes "checked_number (e * 2 ^ t)" and "e < 32" and "16 \<le> t" and "t + 5 \<le> 280"
  shows "e = 0"
proof -
  define m s where "m = (t - 16) div 8" and "s = (t - 16) mod 8"
  have t: "t = 16 + (s + 8 * m)" "s < 8" using assms(3) by (simp_all add: m_def s_def)
  let ?v = "e * 2 ^ s"
  have pow: "(2::nat) ^ t = 65536 * (2 ^ s * 256 ^ m)"
    unfolding t(1) power_add power_mult by simp
  have "(2::nat) ^ s \<le> 2 ^ 7" using t(2) by (intro power_increasing) simp_all
  then have v: "?v < 4096" using mult_less_le_imp_less [of e 32 "2 ^ s" "2 ^ 7"] assms(2) by simp
  have sum: "s + 8 * m \<le> 259" using assms(4) t by simp
  then have m: "m \<le> 32" by simp
  have "?v < 256 ^ (33 - m)"
  proof (cases "m = 32")
    case True
    then have "s \<le> 3" using sum by simp
    then have "(2::nat) ^ s \<le> 2 ^ 3" by (intro power_increasing) simp_all
    then show ?thesis using mult_less_le_imp_less [of e 32 "2 ^ s" "2 ^ 3"] assms(2) True by simp
  next
    case False
    then have "(256::nat) ^ 2 \<le> 256 ^ (33 - m)" using m by (intro power_increasing) simp_all
    then show ?thesis using v by simp
  qed
  moreover have "crc16_xmodem (bytes_of (33 - m + m) (?v * 256 ^ m)) = 0"
  proof -
    have x: "e * 2 ^ t = 65536 * (?v * 256 ^ m)" by (simp only: pow ac_simps)
    have low: "65536 * n mod 256 = 0" "65536 * n div 256 mod 256 = 0" for n :: nat
    proof -
      have "65536 * n = 256 * (256 * n)" by simp
      then show "65536 * n mod 256 = 0" "65536 * n div 256 mod 256 = 0"
        by (simp_all only: mod_mult_self1_is_0 nonzero_mult_div_cancel_left zero_neq_numeral not_False_eq_True)
    qed
    have "stored_checksum (65536 * n) = 0" for n
      unfolding stored_checksum_swap low by simp
    then show ?thesis using assms(1) m by (simp add: checked_number_def x)
  qed
  ultimately have "?v = 0" using crc_of_burst [of "33 - m" ?v m] v m by simp
  then show ?thesis by simp
qed

lemma burst_in_checksum:
  assumes "checked_number x" and "x < 65536"
  shows "x = 0"
proof -
  have "x div 65536 = 0" using assms(2) by simp
  then have "(of_nat (x mod 256 * 256 + x div 256 mod 256) :: 32 word) = 0"
    using assms(1) by (simp only: checked_number_def stored_checksum_swap crc_bytes_zero)
  moreover have "x mod 256 * 256 + x div 256 mod 256 < 65536"
    using mod_less_divisor [of 256 x] mod_less_divisor [of 256 "x div 256"] by linarith
  ultimately have "x mod 256 * 256 + x div 256 mod 256 = 0" using of_nat_16_zero by blast
  then have "x mod 256 = 0" "x div 256 mod 256 = 0" by simp_all
  moreover have "x div 256 < 256" using assms(2) by simp
  ultimately show ?thesis by (metis div_mult_mod_eq add_0_right mod_less mult_zero_left)
qed

lemma burst_between:
  assumes "checked_number (e * 2 ^ 15)" and "e < 32"
  shows "e = 0"
proof (rule ccontr)
  assume e: "e \<noteq> 0"
  let ?a = "e div 2"
  have half: "e * 2 ^ 15 div 65536 = ?a" by simp
  have bytes: "e * 2 ^ 15 mod 256 = 0" "e * 2 ^ 15 div 256 mod 256 = e mod 2 * 128"
  proof -
    have "e * 2 ^ 15 = 256 * (e * 128)" by simp
    then have "e * 2 ^ 15 div 256 = e * 128" and "e * 2 ^ 15 mod 256 = 0"
      by (simp_all only: mod_mult_self1_is_0 nonzero_mult_div_cancel_left zero_neq_numeral not_False_eq_True)
    then show "e * 2 ^ 15 mod 256 = 0" "e * 2 ^ 15 div 256 mod 256 = e mod 2 * 128"
      using mod_mult_mult2 [of e 128 2] by (simp_all add: mult.commute)
  qed
  have "?a < 256 ^ 33"
    by (rule less_le_trans [of _ 256]) (use assms(2) in simp, rule order.trans [OF _ power_increasing [of 1 33 256]], simp_all)
  then have crc: "crc16_xmodem (bytes_of 33 ?a) = crc_shift (crc_shift (of_nat ?a))"
    using assms(2) by (intro crc_bytes_small) simp_all
  have eq: "crc_shift (crc_shift (of_nat ?a)) = of_nat (e mod 2 * 128)"
    using assms(1) unfolding checked_number_def half crc stored_checksum_swap bytes by simp
  show False
  proof (cases "e mod 2 = 0")
    case True
    then have "crc_shift (crc_shift (of_nat ?a)) = 0" using eq by simp
    then have "crc_shift (of_nat ?a) = 0" by (rule crc_shift_zero) (rule crc_shift_16)
    then have "(of_nat ?a :: 32 word) = 0"
      by (rule crc_shift_zero) (rule of_nat_16, use assms(2) in simp)
    then have "?a = 0" by (rule of_nat_16_zero [rotated]) (use assms(2) in simp)
    with True e show False by presburger
  next
    case False
    then have "e mod 2 = 1" by simp
    then have "crc_shift (crc_shift (of_nat ?a)) = 128" using eq by simp
    then show False using straddling_byte [of ?a] assms(2) by simp
  qed
qed

lemma burst_of_five_bits:
  assumes "checked_number (e * 32 ^ k)" and "e < 32" and "k < 56"
  shows "e = 0"
proof -
  have pow: "(32::nat) ^ k = 2 ^ (5 * k)" by (simp add: power_mult)
  consider "4 \<le> k" | "k = 3" | "k \<le> 2" by linarith
  then show ?thesis
  proof cases
    case 1
    then show ?thesis using burst_in_payload [of e "5 * k"] assms by (simp add: pow)
  next
    case 2
    then show ?thesis using burst_between [of e] assms by simp
  next
    case 3
    then have "(32::nat) ^ k \<le> 32 ^ 2" by (intro power_increasing) simp_all
    then have "e * 32 ^ k < 65536" using mult_less_le_imp_less [of e 32 "32 ^ k" "32 ^ 2"] assms(2) by simp
    then show ?thesis using burst_in_checksum [OF assms(1)] by simp
  qed
qed

lemma xor_less_32:
  fixes e e' :: nat
  assumes "e < 32" and "e' < 32"
  shows "e XOR e' < 32"
proof -
  have "take_bit 5 (e XOR e') = e XOR e'" unfolding take_bit_xor using assms by (simp add: take_bit_eq_mod)
  then show ?thesis using take_bit_nat_less_exp [of 5 "e XOR e'"] by simp
qed

lemma xor_shifted:
  fixes x y :: nat
  assumes "e < 32" and "e' < 32"
  shows "(x * 32 + e) XOR (y * 32 + e') = (x XOR y) * 32 + (e XOR e')"
proof -
  have ee: "e XOR e' < 32"
    by (rule xor_less_32 [OF assms])
  have or_xor: "push_bit 5 a OR d = push_bit 5 a XOR d" if "d < 32" for a d :: nat
  proof (rule bit_eqI)
    fix n
    have "d = take_bit 5 d" using that by (simp add: take_bit_eq_mod)
    then have "bit d n \<Longrightarrow> n < 5" by (metis bit_take_bit_iff)
    then show "bit (push_bit 5 a OR d) n = bit (push_bit 5 a XOR d) n"
      by (auto simp: bit_or_iff bit_xor_iff bit_push_bit_iff)
  qed
  have split: "a * 32 + d = push_bit 5 a XOR d" if "d < 32" for a d :: nat
    using push_or_nat [of d 5 a] or_xor [of d a] that by simp
  show ?thesis unfolding split [OF assms(1)] split [OF assms(2)] split [OF ee] push_bit_xor
    by (simp only: ac_simps)
qed

lemma base_val_xor:
  assumes "length ds = length es" and "list_all (\<lambda>d. d < 32) ds" and "list_all (\<lambda>d. d < 32) es"
  shows "base_val 32 ds XOR base_val 32 es = base_val 32 (map2 (XOR) ds es)"
  using assms
proof (induction ds arbitrary: es rule: rev_induct)
  case (snoc d ds)
  then obtain e es' where es: "es = es' @ [e]" by (cases es rule: rev_cases) auto
  have "map2 (XOR) (ds @ [d]) (es' @ [e]) = map2 (XOR) ds es' @ [d XOR e]" using snoc.prems es by simp
  then show ?case using snoc es by (simp add: xor_shifted)
qed simp

lemma base_val_append: "base_val b (xs @ ys) = base_val b xs * b ^ length ys + base_val b ys"
  by (induction ys rule: rev_induct) (simp_all add: append_assoc [symmetric] algebra_simps del: append_assoc)

lemma map2_xor_same: "map2 (XOR) ds ds = replicate (length ds) (0 :: nat)"
  by (induction ds) simp_all

lemma base_val_zeros: "base_val b (replicate n 0) = 0"
proof (induction n)
  case (Suc n)
  have "replicate (Suc n) 0 = replicate n 0 @ [0 :: nat]" by (simp add: replicate_append_same)
  then show ?case by (simp only: base_val_snoc Suc mult_zero_left add_0_left)
qed simp

lemma base_val_one_digit:
  assumes "list_all (\<lambda>d. d < 32) (xs @ d # ys)" and "e < 32"
  shows "base_val 32 (xs @ d # ys) XOR base_val 32 (xs @ e # ys) = (d XOR e) * 32 ^ length ys"
proof -
  have one: "base_val 32 (v # replicate n 0) = v * 32 ^ n" for v n
    using base_val_append [of 32 "[v]" "replicate n 0"] base_val_zeros by (simp add: base_val_def)
  have "map2 (XOR) (xs @ d # ys) (xs @ e # ys) = replicate (length xs) 0 @ (d XOR e) # replicate (length ys) 0"
    by (simp add: map2_xor_same)
  then show ?thesis
    using assms base_val_xor [of "xs @ d # ys" "xs @ e # ys"]
    by (simp add: base_val_append base_val_zeros one)
qed

lemma account_id_checked:
  assumes "is_valid_stellar_account_id s"
  shows "\<exists>ds. base32_digits s = Some ds \<and> checked_number (base_val 32 ds) \<and> length s = 56"
proof -
  obtain bytes where s: "decode_base32 s = Some bytes" "length s = 56" "length bytes = 35"
    and crc: "crc16_xmodem (take 33 bytes) = of_nat (bytes ! 33) OR push_bit 8 (of_nat (bytes ! 34))"
    using assms by (auto simp: is_valid_stellar_account_id_def account_id_re_def split: option.splits)
  then obtain ds where ds: "base32_digits s = Some ds" "base_val 32 ds = base_val 256 bytes"
    and all: "list_all (\<lambda>b. b < 256) bytes"
    by (auto simp: decode_base32_reference)
  let ?x = "base_val 256 bytes"
  have b: "bytes = bytes_of 35 ?x" using bytes_of_base_val [OF all] s(3) by simp
  have d2: "?x div 256 div 256 = ?x div 65536" by (simp add: div_mult2_eq [symmetric])
  have "(35 :: nat) = Suc (Suc 33)" by simp
  then have whole: "bytes = bytes_of 33 (?x div 65536) @ [?x div 256 mod 256, ?x mod 256]"
    using b by (simp only: bytes_of.simps append_assoc append_Cons append_Nil d2)
  have len: "length (bytes_of n x) = n" for n x by (induction n arbitrary: x) simp_all
  have parts: "take 33 (xs @ [u, v]) = xs \<and> (xs @ [u, v]) ! 33 = u \<and> (xs @ [u, v]) ! 34 = v"
    if "length xs = 33" for xs :: "nat list" and u v
    using that by (simp add: nth_append)
  note parts = parts [of "bytes_of 33 (?x div 65536)" "?x div 256 mod 256" "?x mod 256", OF len, folded whole]
  have "(of_nat u OR push_bit 8 (of_nat v) :: 32 word) = of_nat (v * 256 + u)" if "u < 256" for u v
  proof -
    have "push_bit 8 v OR u = v * 256 + u" using push_or_nat [of u 8 v] that by simp
    moreover have "(of_nat u OR push_bit 8 (of_nat v) :: 32 word) = of_nat (push_bit 8 v OR u)"
      unfolding of_nat_or_eq push_bit_of_nat by (rule or.commute)
    ultimately show ?thesis by simp
  qed
  then have "(of_nat (?x div 256 mod 256) OR push_bit 8 (of_nat (?x mod 256)) :: 32 word) = stored_checksum ?x"
    unfolding stored_checksum_swap by simp
  then have "checked_number ?x" using crc by (simp only: parts checked_number_def)
  then show ?thesis using ds s(2) by metis
qed

lemma base32_digits_append:
  "base32_digits (xs @ ys) = (case base32_digits xs of None \<Rightarrow> None
    | Some ds \<Rightarrow> map_option (\<lambda>es. ds @ es) (base32_digits ys))"
  by (cases "base32_digits ys"; induction xs)
    (auto simp: base32_digits_Cons base32_digits_def [of "[]"] split: option.splits)

lemma base32_digits_bounds:
  "base32_digits cs = Some ds \<Longrightarrow> list_all (\<lambda>d. d < 32) ds \<and> length ds = length cs"
proof (induction cs arbitrary: ds)
  case (Cons c cs)
  then show ?case
    using index_of_less [of c BASE32_ALPHABET] by (auto simp: base32_digits_Cons alphabet_size split: option.splits)
qed (simp add: base32_digits_def)

lemma index_of_inj: "index_of x ys = Some i \<Longrightarrow> index_of y ys = Some i \<Longrightarrow> x = y"
  by (induction ys arbitrary: i) (auto split: if_splits)

lemma one_character_detected:
  assumes "is_valid_stellar_account_id (pre @ c # post)" and "is_valid_stellar_account_id (pre @ d # post)"
  shows "c = d"
proof -
  obtain us ws v v' where digits: "base32_digits pre = Some us" "base32_digits post = Some ws"
      "index_of c BASE32_ALPHABET = Some v" "index_of d BASE32_ALPHABET = Some v'"
    and num: "checked_number (base_val 32 (us @ v # ws))" "checked_number (base_val 32 (us @ v' # ws))"
    using account_id_checked [OF assms(1)] account_id_checked [OF assms(2)]
    by (auto simp: base32_digits_append base32_digits_Cons split: option.splits)
  have v: "v < 32" "v' < 32" using index_of_less digits(3,4) alphabet_size by metis+
  have len: "length ws < 56"
    using account_id_checked [OF assms(1)] base32_digits_bounds [OF digits(2)] by auto
  have "list_all (\<lambda>d. d < 32) (us @ v # ws)"
    using base32_digits_bounds [OF digits(1)] base32_digits_bounds [OF digits(2)] v by simp
  note diff = base_val_one_digit [OF this v(2)]
  have "checked_number ((v XOR v') * 32 ^ length ws)"
    using checked_number_xor [OF num] unfolding diff .
  moreover have "v XOR v' < 32"
    by (rule xor_less_32 [OF v])
  ultimately have "v XOR v' = 0" by (rule burst_of_five_bits) (rule len)
  then have "v = v'" by (rule xor_zero_eq)
  then show ?thesis using index_of_inj [of c BASE32_ALPHABET v d] digits(3,4) by simp
qed
section \<open>An account that is valid\<close>

text \<open>The account of the key that is all zeros.\<close>

definition zero_account :: string where
  "zero_account = CHR ''G'' # replicate 52 (CHR ''A'') @ ''WHF''"

lemma crc_byte_steps:
  "crc_byte c b = crc_bit (crc_bit (crc_bit (crc_bit (crc_bit (crc_bit (crc_bit (crc_bit (c XOR push_bit 8 (of_nat b)))))))))"
  by (simp add: crc_byte_shift crc_shift_steps)

lemma zero_account_registers:
  "crc_byte 0 48 = 13907" "crc_byte 13907 0 = 1429" "crc_byte 1429 0 = 50597" "crc_byte 50597 0 = 11497"
  "crc_byte 11497 0 = 3310" "crc_byte 3310 0 = 12172" "crc_byte 12172 0 = 22925" "crc_byte 22925 0 = 18140"
  "crc_byte 18140 0 = 62466" "crc_byte 62466 0 = 44443" "crc_byte 44443 0 = 65351" "crc_byte 65351 0 = 23024"
  "crc_byte 23024 0 = 15324" "crc_byte 15324 0 = 23352" "crc_byte 23352 0 = 54174" "crc_byte 54174 0 = 25886"
  "crc_byte 25886 0 = 8707" "crc_byte 8707 0 = 1824" "crc_byte 1824 0 = 20711" "crc_byte 20711 0 = 48629"
  "crc_byte 48629 0 = 33654" "crc_byte 33654 0 = 55275" "crc_byte 55275 0 = 20634" "crc_byte 20634 0 = 49397"
  "crc_byte 49397 0 = 11340" "crc_byte 11340 0 = 43502" "crc_byte 43502 0 = 51907" "crc_byte 51907 0 = 47878"
  "crc_byte 47878 0 = 4272" "crc_byte 4272 0 = 41521" "crc_byte 41521 0 = 42152" "crc_byte 42152 0 = 23918"
  "crc_byte 23918 0 = 58712"
  by (simp_all add: crc_byte_steps crc_bit_def)

lemma zero_account_checksum: "crc16_xmodem (48 # replicate 32 0) = 58712"
proof -
  have "replicate 32 0 = [0, 0, 0, 0, 0, 0, 0, 0, 0, 0, 0, 0, 0, 0, 0, 0, 0, 0, 0, 0, 0, 0, 0, 0, 0, 0, 0, 0, 0, 0, 0, 0 :: nat]"
    by (simp add: numeral_eq_Suc)
  then show ?thesis by (simp only: crc16_xmodem_def foldl.simps zero_account_registers)
qed

lemma zero_account_digits: "base32_digits zero_account = Some (6 # replicate 52 0 @ [22, 7, 5])"
proof -
  have "base32_digits (replicate n (CHR ''A'')) = Some (replicate n 0)" for n
    by (induction n) (simp_all add: base32_digits_Cons BASE32_ALPHABET_def, simp add: base32_digits_def)
  then show ?thesis
    by (simp add: zero_account_def base32_digits_Cons base32_digits_append BASE32_ALPHABET_def)
      (simp add: base32_digits_def)
qed

lemma zero_account_decoded: "decode_base32 zero_account = Some (48 # replicate 32 0 @ [88, 229])"
proof -
  have b: "base_val b (v # replicate n 0 @ ds) = v * b ^ (n + length ds) + base_val b ds" for b v n ds
    using base_val_append [of b "v # replicate n 0" ds] base_val_append [of b "[v]" "replicate n 0"] base_val_zeros [of b n]
    by (simp add: power_add base_val_def)
  show ?thesis
    unfolding decode_base32_reference zero_account_digits
    by (rule exI, intro conjI, rule refl) (unfold b, simp_all add: base_val_def zero_account_def list_all_iff)
qed

lemma zero_account_valid: "is_valid_stellar_account_id zero_account"
proof -
  have "account_id_re zero_account" by (simp add: account_id_re_def zero_account_def BASE32_ALPHABET_def list_all_iff)
  moreover have "take 33 (48 # replicate 32 (0::nat) @ [88, 229]) = 48 # replicate 32 0" by simp
  moreover have "(48 # replicate 32 (0::nat) @ [88, 229]) ! 33 = 88" "(48 # replicate 32 (0::nat) @ [88, 229]) ! 34 = 229"
    by (simp_all add: nth_append)
  ultimately show ?thesis
    by (simp add: is_valid_stellar_account_id_def zero_account_decoded zero_account_checksum)
qed

end
