(* ===== verification/Stellar_Amount.thy ===== *)
theory Stellar_Amount
  imports Payment_Prep Complex_Main
begin

text \<open>
  Amounts of \<open>src/actions/payment-prep-action.ts\<close> in stroops: what the decimal text of an amount
  denotes, how far it can be from the number that was sent, and up to which number it is determined by it.
\<close>

lemma digits_val_only_zeros: "digits_val (replicate n (CHR ''0'')) = 0"
  by (induction n) (simp_all add: digits_val_def digit_val_def)

lemma digits_val_pad: "digits_val (f @ replicate n (CHR ''0'')) = digits_val f * 10 ^ n"
  by (simp add: digits_val_append digits_val_only_zeros)

lemma digits_val_leading_zeros: "digits_val (replicate n (CHR ''0'') @ f) = digits_val f"
  by (simp add: digits_val_append digits_val_only_zeros)

lemma stroops_of_parts:
  assumes "CHR ''.'' \<notin> set w" and "length f \<le> 7"
  shows "stroops_of (w @ CHR ''.'' # f) = digits_val w * STROOPS_PER_UNIT + digits_val f * 10 ^ (7 - length f)"
proof -
  have "takeWhile (\<lambda>c. c \<noteq> CHR ''.'') (w @ CHR ''.'' # f) = w" "dropWhile (\<lambda>c. c \<noteq> CHR ''.'') (w @ CHR ''.'' # f) = CHR ''.'' # f"
    using assms(1) by (auto simp: takeWhile_append dropWhile_append)
  then show ?thesis by (simp add: stroops_of_def whole_part_def after_point_def digits_val_pad)
qed

lemma stroops_of_whole:
  assumes "CHR ''.'' \<notin> set w"
  shows "stroops_of w = digits_val w * STROOPS_PER_UNIT"
proof -
  have w: "takeWhile (\<lambda>c. c \<noteq> CHR ''.'') w = w" "dropWhile (\<lambda>c. c \<noteq> CHR ''.'') w = []"
    using assms by (auto simp: takeWhile_eq_all_conv dropWhile_eq_Nil_conv)
  show ?thesis using digits_val_only_zeros [of 7]
    unfolding stroops_of_def whole_part_def after_point_def w by simp
qed

lemma no_point_in_digits: "list_all is_digit s \<Longrightarrow> CHR ''.'' \<notin> set s"
  by (auto simp: list_all_iff is_digit_def)

lemma digits_of_nat_str: "list_all is_digit (nat_str n)"
  using nat_str_digits by (auto simp: list_all_iff)

lemma zero_is_digit: "list_all is_digit (replicate n (CHR ''0''))"
  by (simp add: list_all_iff is_digit_def)

text \<open>The units in the seventh decimal place of \<open>d * 10 ^ e\<close>.\<close>

lemma plain_decimal_stroops:
  assumes "CHR ''e'' \<notin> set (pos_decimal_str d e)" and "decimal_amount_re (pos_decimal_str d e)"
  shows "0 \<le> e + 7 \<and> stroops_of (pos_decimal_str d e) = d * 10 ^ nat (e + 7)"
proof -
  let ?ds = "nat_str d"
  define k where "k = int (length ?ds)"
  define n where "n = k + e"
  have val: "digits_val ?ds = d" by (rule nat_str_val)
  have dig: "list_all is_digit ?ds" by (rule digits_of_nat_str)
  consider (whole) "k \<le> n \<and> n \<le> 21" | (mixed) "\<not> (k \<le> n \<and> n \<le> 21)" "0 < n \<and> n \<le> 21"
    | (small) "\<not> (k \<le> n \<and> n \<le> 21)" "\<not> (0 < n \<and> n \<le> 21)" "-6 < n \<and> n \<le> 0"
    | (expo) "\<not> (k \<le> n \<and> n \<le> 21)" "\<not> (0 < n \<and> n \<le> 21)" "\<not> (-6 < n \<and> n \<le> 0)"
    by blast
  then show ?thesis
  proof cases
    case whole
    then have e: "0 \<le> e" by (simp add: n_def)
    have s: "pos_decimal_str d e = ?ds @ replicate (nat e) (CHR ''0'')"
      using whole by (simp add: pos_decimal_str_def Let_def k_def n_def)
    have "CHR ''.'' \<notin> set (?ds @ replicate (nat e) (CHR ''0''))"
      using no_point_in_digits [OF dig] by auto
    then have "stroops_of (pos_decimal_str d e) = d * 10 ^ nat e * 10 ^ 7"
      unfolding s by (simp add: stroops_of_whole digits_val_pad val STROOPS_PER_UNIT_def)
    also have "\<dots> = d * 10 ^ nat (e + 7)"
    proof -
      have "nat (e + 7) = nat e + 7" using e by simp
      then show ?thesis by (simp add: power_add)
    qed
    finally show ?thesis using e by simp
  next
    case mixed
    let ?w = "take (nat n) ?ds" and ?f = "drop (nat n) ?ds"
    have s: "pos_decimal_str d e = ?w @ CHR ''.'' # ?f"
      using mixed by (simp add: pos_decimal_str_def Let_def k_def n_def)
    have nk: "0 < n" "n < k" using mixed by linarith+
    have lf: "int (length ?f) = - e" using nk by (simp add: k_def n_def)
    have w: "CHR ''.'' \<notin> set ?w" using no_point_in_digits [OF dig] by (meson in_set_takeD)
    have "after_point (pos_decimal_str d e) = Some ?f"
      using w unfolding s after_point_def by (simp add: dropWhile_append)
    then have seven: "length ?f \<le> 7" using assms(2) by (simp add: decimal_amount_re_def)
    have "digits_val ?ds = digits_val ?w * 10 ^ length ?f + digits_val ?f"
      using digits_val_append [of ?w ?f] by simp
    then have d: "d = digits_val ?w * 10 ^ length ?f + digits_val ?f" by (simp only: val)
    have "nat (e + 7) = 7 - length ?f" using lf seven by linarith
    moreover have "(10::nat) ^ 7 = 10 ^ length ?f * 10 ^ (7 - length ?f)"
      using seven by (simp only: power_add [symmetric] le_add_diff_inverse)
    ultimately have "stroops_of (pos_decimal_str d e) = d * 10 ^ nat (e + 7)"
      unfolding s stroops_of_parts [OF w seven] STROOPS_PER_UNIT_def
      by (subst (2) d) (simp add: algebra_simps)
    then show ?thesis using lf seven by linarith
  next
    case small
    let ?f = "replicate (nat (- n)) (CHR ''0'') @ ?ds"
    have s: "pos_decimal_str d e = ''0'' @ CHR ''.'' # ?f"
      using small by (simp add: pos_decimal_str_def Let_def k_def n_def)
    have lf: "int (length ?f) = - e" using small by (simp add: k_def n_def)
    have "after_point (pos_decimal_str d e) = Some ?f" unfolding s after_point_def by simp
    then have seven: "length ?f \<le> 7" using assms(2) by (simp add: decimal_amount_re_def)
    have zero: "digits_val ''0'' = 0" by (simp add: digits_val_def digit_val_def)
    have "nat (e + 7) = 7 - length ?f" using lf seven by linarith
    moreover have "stroops_of (pos_decimal_str d e) = d * 10 ^ (7 - length ?f)"
      unfolding s by (subst stroops_of_parts) (use seven in \<open>simp_all only: zero digits_val_leading_zeros val, simp_all\<close>)
    ultimately have "stroops_of (pos_decimal_str d e) = d * 10 ^ nat (e + 7)" by simp
    then show ?thesis using lf seven by linarith
  next
    case expo
    have "CHR ''e'' \<in> set (pos_decimal_str d e)"
      unfolding pos_decimal_str_def Let_def by (simp only: expo [unfolded k_def n_def] if_False) auto
    with assms(1) show ?thesis by simp
  qed
qed

text \<open>The text of seven decimal places denotes its units, with or without its trailing zeros.\<close>

lemma fixed_str_parts:
  "\<exists>w f. fixed_str n = w @ CHR ''.'' # f \<and> CHR ''.'' \<notin> set w \<and> CHR ''.'' \<notin> set f \<and> length f = 7 \<and>
    digits_val w * 10 ^ 7 + digits_val f = n"
proof -
  define ds where "ds = replicate (8 - length (nat_str n)) (CHR ''0'') @ nat_str n"
  let ?w = "take (length ds - 7) ds" and ?f = "drop (length ds - 7) ds"
  have "8 \<le> length ds" by (simp add: ds_def)
  then have f: "length ?f = 7" by simp
  have "CHR ''.'' \<notin> set ds"
    unfolding ds_def by (rule no_point_in_digits) (simp add: digits_of_nat_str zero_is_digit)
  then have w: "CHR ''.'' \<notin> set ?w" "CHR ''.'' \<notin> set ?f" by (meson in_set_takeD in_set_dropD)+
  have "digits_val ds = digits_val ?w * 10 ^ length ?f + digits_val ?f"
    using digits_val_append [of ?w ?f] by (simp only: append_take_drop_id)
  moreover have "digits_val ds = n" by (simp add: ds_def digits_val_leading_zeros nat_str_val)
  ultimately have "digits_val ?w * 10 ^ 7 + digits_val ?f = n" by (simp only: f)
  moreover have "fixed_str n = ?w @ CHR ''.'' # ?f" by (simp add: fixed_str_def Let_def ds_def)
  ultimately show ?thesis using w f by blast
qed

lemma strip_trailing:
  "\<exists>g n. rev (dropWhile (\<lambda>c. c = CHR ''0'') (rev f)) = g \<and> f = g @ replicate n (CHR ''0'')"
proof -
  let ?z = "takeWhile (\<lambda>c. c = CHR ''0'') (rev f)"
  have "?z = replicate (length ?z) (CHR ''0'')"
    by (rule replicate_length_same [symmetric]) (auto dest: set_takeWhileD)
  then have "rev f = replicate (length ?z) (CHR ''0'') @ dropWhile (\<lambda>c. c = CHR ''0'') (rev f)"
    by (metis takeWhile_dropWhile_id)
  then have "f = rev (dropWhile (\<lambda>c. c = CHR ''0'') (rev f)) @ replicate (length ?z) (CHR ''0'')"
    by (metis rev_append rev_replicate rev_rev_ident)
  then show ?thesis by blast
qed

lemma stroops_of_fixed: "stroops_of (drop_trailing_zeros (fixed_str n)) = n"
proof -
  obtain w f where s: "fixed_str n = w @ CHR ''.'' # f" "CHR ''.'' \<notin> set w" "length f = 7" "CHR ''.'' \<notin> set f"
    and n: "digits_val w * 10 ^ 7 + digits_val f = n"
    using fixed_str_parts by blast
  obtain g z where g: "rev (dropWhile (\<lambda>c. c = CHR ''0'') (rev f)) = g" "f = g @ replicate z (CHR ''0'')"
    using strip_trailing by blast
  show ?thesis
  proof (cases "g = []")
    case True
    then have "dropWhile (\<lambda>c. c = CHR ''0'') (rev f) = []" using g(1) by simp
    then have "dropWhile (\<lambda>c. c = CHR ''0'') (rev f @ CHR ''.'' # rev w) = CHR ''.'' # rev w"
      by (simp add: dropWhile_append dropWhile_eq_Nil_conv)
    then have "drop_trailing_zeros (fixed_str n) = w" using s(3) by (simp add: drop_trailing_zeros_def s(1))
    moreover have "digits_val f = 0" using g(2) True digits_val_only_zeros by simp
    ultimately show ?thesis using n stroops_of_whole [OF s(2)] by (simp add: STROOPS_PER_UNIT_def)
  next
    case False
    then obtain c r where cr: "dropWhile (\<lambda>c. c = CHR ''0'') (rev f) = c # r"
      using g(1) by (cases "dropWhile (\<lambda>c. c = CHR ''0'') (rev f)") auto
    then have "c \<in> set f" by (metis list.set_intros(1) set_dropWhileD set_rev)
    have "c \<noteq> CHR ''0''" using hd_dropWhile [of "\<lambda>c. c = CHR ''0''" "rev f"] cr by simp
    then have "dropWhile (\<lambda>c. c = CHR ''0'') (rev f @ CHR ''.'' # rev w) = c # r @ CHR ''.'' # rev w"
      using cr dropWhile_append1 [of c "rev f" "\<lambda>c. c = CHR ''0''" "CHR ''.'' # rev w"] \<open>c \<in> set f\<close> by simp
    moreover have "c \<noteq> CHR ''.''" using \<open>c \<in> set f\<close> s(4) by blast
    ultimately have "drop_trailing_zeros (fixed_str n) = w @ CHR ''.'' # g"
      using g(1) cr by (simp add: drop_trailing_zeros_def s(1))
    moreover have "z = 7 - length g" using s(3) g(2) by simp
    moreover have "length g \<le> 7" using s(3) g(2) by simp
    ultimately show ?thesis
      using n stroops_of_parts [OF s(2), of g] by (simp add: g(2) digits_val_pad STROOPS_PER_UNIT_def) 
  qed
qed

lemma exponent_survives: "CHR ''e'' \<in> set s \<Longrightarrow> CHR ''e'' \<in> set (drop_trailing_zeros s)"
proof -
  assume "CHR ''e'' \<in> set s"
  obtain g n where g: "rev (dropWhile (\<lambda>c. c = CHR ''0'') (rev s)) = g" "s = g @ replicate n (CHR ''0'')"
    using strip_trailing by blast
  have "CHR ''e'' \<in> set g" using \<open>CHR ''e'' \<in> set s\<close> by (simp add: g(2))
  then have "CHR ''e'' \<in> set (rev (dropWhile (\<lambda>c. c = CHR ''0'') (rev s)))" by (simp only: g(1))
  then have "CHR ''e'' \<in> set (dropWhile (\<lambda>c. c = CHR ''0'') (rev s))" by (simp only: set_rev)
  then obtain c r where D: "dropWhile (\<lambda>c. c = CHR ''0'') (rev s) = c # r" and "CHR ''e'' \<in> set (c # r)"
    by (cases "dropWhile (\<lambda>c. c = CHR ''0'') (rev s)") simp_all
  then show ?thesis unfolding drop_trailing_zeros_def D by auto
qed

lemma amount_text_has_no_exponent:
  assumes "decimal_amount_re s"
  shows "CHR ''e'' \<notin> set s"
proof -
  let ?w = "takeWhile (\<lambda>c. c \<noteq> CHR ''.'') s" and ?r = "dropWhile (\<lambda>c. c \<noteq> CHR ''.'') s"
  have no: "\<not> is_digit (CHR ''e'')" by (simp add: is_digit_def)
  have "CHR ''e'' \<notin> set ?w"
    using assms no by (auto simp: decimal_amount_re_def whole_part_def list_all_iff)
  moreover have "CHR ''e'' \<notin> set ?r"
  proof (cases ?r)
    case (Cons c f)
    then have "c = CHR ''.''" using hd_dropWhile [of "\<lambda>c. c \<noteq> CHR ''.''" s] by simp
    moreover have "list_all is_digit f" using assms Cons by (simp add: decimal_amount_re_def after_point_def)
    ultimately show ?thesis unfolding Cons using no by (auto simp: list_all_iff)
  next
    case Nil
    show ?thesis unfolding Nil by simp
  qed
  moreover have "set s = set ?w \<union> set ?r" by (metis set_append takeWhile_dropWhile_id)
  ultimately show ?thesis by blast
qed

definition decimal_char :: "char \<Rightarrow> bool" where
  "decimal_char c \<longleftrightarrow> is_digit c \<or> c \<in> {CHR ''.'', CHR ''e'', CHR ''+'', CHR ''-''}"

lemma decimal_characters: "list_all decimal_char (pos_decimal_str d e)"
proof -
  have n: "list_all decimal_char (nat_str k)" for k
    using digits_of_nat_str [of k] by (auto simp: list_all_iff decimal_char_def)
  then have t: "list_all decimal_char (take i (nat_str k))" "list_all decimal_char (drop i (nat_str k))" for i k
    by (auto simp: list_all_iff dest: in_set_takeD in_set_dropD)
  have z: "list_all decimal_char (replicate i (CHR ''0''))" for i
    by (simp add: list_all_iff decimal_char_def is_digit_def)
  have c: "decimal_char (CHR ''0'')" "decimal_char (CHR ''.'')" "decimal_char (CHR ''e'')"
    "decimal_char (CHR ''+'')" "decimal_char (CHR ''-'')"
    by (simp_all add: decimal_char_def is_digit_def)
  show ?thesis
    unfolding pos_decimal_str_def Let_def by (simp only: list_all_append list.pred_inject n t z c simp_thms if_cancel split: if_split)
qed

section \<open>How far a double is from what it was rounded from\<close>

definition double_value :: "double \<Rightarrow> real" where
  "double_value x = (case x of (m, k) \<Rightarrow> real m * 2 powi k)"

lemma powi_nonneg: "0 \<le> k \<Longrightarrow> (2::real) powi k = 2 ^ nat k"
  by (simp add: power_int_def)

lemma powi_neg: "k < 0 \<Longrightarrow> (2::real) powi k = 1 / 2 ^ nat (- k)"
  by (simp add: power_int_def inverse_eq_divide power_one_over)

lemma double_ratio_value:
  assumes "double_ratio x = (p, q)"
  shows "0 < q" and "double_value x = real p / real q"
  using assms by (auto simp: double_ratio_def double_value_def powi_nonneg powi_neg split: prod.splits if_splits)

lemma same_double_value: "same_double x y \<longleftrightarrow> double_value x = double_value y"
proof -
  obtain p q p' q' where r: "double_ratio x = (p, q)" "double_ratio y = (p', q')" by fastforce
  note v = double_ratio_value [OF r(1)] double_ratio_value [OF r(2)]
  have "double_value x = double_value y \<longleftrightarrow> real p * real q' = real p' * real q"
    using v by (simp add: frac_eq_eq)
  also have "\<dots> \<longleftrightarrow> p * q' = p' * q" by (metis of_nat_eq_iff of_nat_mult)
  finally show ?thesis by (simp add: same_double_def r)
qed

lemma bit_len_bounds: "0 < n \<Longrightarrow> 2 ^ (bit_len n - 1) \<le> n \<and> n < 2 ^ bit_len n \<and> 0 < bit_len n"
proof (induction n rule: bit_len.induct)
  case (1 n)
  show ?case
  proof (cases "n div 2 = 0")
    case True
    then have "n = 1" using "1.prems" by linarith
    then show ?thesis by (simp add: bit_len.simps)
  next
    case False
    then have "2 ^ (bit_len (n div 2) - 1) \<le> n div 2 \<and> n div 2 < 2 ^ bit_len (n div 2) \<and> 0 < bit_len (n div 2)"
      using 1 by simp
    moreover obtain b where "bit_len (n div 2) = Suc b" using calculation by (cases "bit_len (n div 2)") auto
    moreover define c where "c = (2::nat) ^ b"
    ultimately have "c \<le> n div 2" "n div 2 < 2 * c" by simp_all
    then have "2 * c \<le> n" "n < 4 * c" by linarith+
    then show ?thesis using "1.prems" \<open>bit_len (n div 2) = Suc b\<close> by (simp add: bit_len.simps [of n] c_def)
  qed
qed

lemma scale_down_value:
  assumes "scale_down p q k = (a, b)" and "0 < q"
  shows "0 < b" and "real a / real b * 2 powi k = real p / real q"
  using assms by (auto simp: scale_down_def powi_nonneg powi_neg split: if_splits)

lemma round_half_even_error:
  assumes "0 < b"
  shows "\<bar>real (round_half_even a b) - real a / real b\<bar> \<le> 1 / 2"
proof -
  have "real_of_int (2 * \<bar>int (round_half_even a b) * int b - int a\<bar>) \<le> real_of_int (int b)"
    using round_half_even_nearest [OF assms, of a] by (simp only: of_int_le_iff)
  then have "2 * \<bar>real (round_half_even a b) * real b - real a\<bar> \<le> real b" by simp
  moreover have "real (round_half_even a b) - real a / real b = (real (round_half_even a b) * real b - real a) / real b"
    using assms by (simp add: field_simps)
  then have "\<bar>real (round_half_even a b) - real a / real b\<bar> = \<bar>real (round_half_even a b) * real b - real a\<bar> / real b"
    by simp
  ultimately show ?thesis using assms by (simp add: divide_le_eq)
qed

text \<open>The error is half a unit in the last place, and the mantissa of a normal double has 53 bits.\<close>

lemma nearest_double_error:
  assumes "nearest_double p q = (m, k)" and "0 < p" "0 < q"
  shows "\<bar>double_value (m, k) - real p / real q\<bar> \<le> 2 powi k / 2" and "k = - 1074 \<or> 2 ^ 52 \<le> m"
proof -
  define k0 where "k0 = int (bit_len p) - int (bit_len q) - 53"
  obtain a0 b0 where s0: "scale_down p q k0 = (a0, b0)" by force
  define small where "small \<longleftrightarrow> a0 < b0 * 2 ^ 53"
  obtain a b where s: "scale_down p q k = (a, b)" by force
  have k: "k = max (- 1074) (if small then k0 else k0 + 1)" and m: "m = round_half_even a b"
    using assms(1,2) s0 s by (auto simp: nearest_double_def Let_def k0_def small_def split: prod.splits if_splits)
  note v = scale_down_value [OF s assms(3)]
  have "double_value (m, k) - real p / real q = (real m - real a / real b) * 2 powi k"
    using v by (simp add: double_value_def algebra_simps)
  then have "\<bar>double_value (m, k) - real p / real q\<bar> = \<bar>real m - real a / real b\<bar> * 2 powi k"
    by (simp add: abs_mult)
  also have "\<dots> \<le> 1 / 2 * 2 powi k" unfolding m by (rule mult_right_mono [OF round_half_even_error [OF v(1)]]) simp
  finally show "\<bar>double_value (m, k) - real p / real q\<bar> \<le> 2 powi k / 2" by simp
  show "k = - 1074 \<or> 2 ^ 52 \<le> m"
  proof (cases "k = - 1074")
    case False
    then have k': "k = (if small then k0 else k0 + 1)" using k by (auto simp: max_def split: if_splits)
    note v0 = scale_down_value [OF s0 assms(3)]
    have "2 ^ 52 \<le> real a / real b"
    proof (cases small)
      case True
      obtain bp bq where len: "bit_len p = Suc bp" "bit_len q = bq"
        using bit_len_bounds [OF assms(2)] by (cases "bit_len p") auto
      have "2 ^ bp \<le> p" "q < 2 ^ bq" using bit_len_bounds [OF assms(2)] bit_len_bounds [OF assms(3)] len by simp_all
      then have "(2::real) ^ bp \<le> real p" "real q < 2 ^ bq" by (simp_all add: numeral_power_le_of_nat_cancel_iff)
      then have "2 ^ bp / 2 ^ bq \<le> real p / real q" using assms(3) by (intro frac_le) simp_all
      moreover have "(2::real) ^ bp / 2 ^ bq = 2 powi (int bp - int bq)" by (simp add: power_int_diff)
      moreover have "int bp - int bq = 52 + k" using k' True len by (simp add: k0_def)
      moreover have "(2::real) powi (52 + k) = 2 ^ 52 * 2 powi k" by (simp add: power_int_add)
      ultimately have "2 ^ 52 * 2 powi k \<le> real a / real b * 2 powi k" using v(2) by simp
      then show ?thesis by (rule mult_right_le_imp_le) simp
    next
      case False
      then have "b0 * 2 ^ 53 \<le> a0" by (simp add: small_def)
      then have "real b0 * 2 ^ 53 \<le> real a0" by (metis of_nat_le_iff of_nat_mult of_nat_numeral of_nat_power)
      then have "2 ^ 53 \<le> real a0 / real b0" using v0(1) by (simp add: field_simps)
      then have "2 ^ 53 * 2 powi k0 \<le> real p / real q" using v0(2) by (metis mult_right_mono zero_le_power_int zero_le_numeral)
      moreover have "(2::real) powi k = 2 powi k0 * 2" using k' False by (simp add: power_int_add)
      ultimately have "2 ^ 52 * 2 powi k \<le> real a / real b * 2 powi k" using v(2) by simp
      then show ?thesis by (rule mult_right_le_imp_le) simp
    qed
    moreover have "\<bar>real m - real a / real b\<bar> \<le> 1 / 2" using round_half_even_error [OF v(1)] by (simp add: m)
    ultimately have "2 ^ 52 - 1 / 2 \<le> real m" by linarith
    then have "(2::real) ^ 52 < real (m + 1)" by simp
    then have "2 ^ 52 < m + 1" by (metis of_nat_less_iff of_nat_numeral of_nat_power)
    then show ?thesis by simp
  qed simp
qed

lemma error_below:
  assumes "nearest_double p q = x" and "0 < p" "0 < q" and "double_value x < 2 ^ j"
  shows "\<bar>double_value x - real p / real q\<bar> \<le> 2 powi (int j - 54)"
proof -
  obtain m k where x: "x = (m, k)" by force
  note e = nearest_double_error [OF assms(1) [unfolded x] assms(2,3)]
  have "k \<le> int j - 53"
  proof (cases "k = - 1074")
    case False
    then have "2 ^ 52 * 2 powi k \<le> double_value x" using e(2) by (simp add: x double_value_def)
    then have "(2::real) powi (52 + k) < 2 powi int j" using assms(4) by (simp add: power_int_add)
    then have "52 + k < int j" by (meson not_less order_less_le_trans power_int_increasing one_le_numeral leD)
    then show ?thesis by simp
  qed simp
  then have "(2::real) powi k \<le> 2 powi (int j - 53)" by (simp add: power_int_increasing)
  moreover have "(2::real) powi (int j - 53) = 2 powi (int j - 54) * 2"
    using power_int_add [of "2::real" "int j - 54" 1] by simp
  ultimately show ?thesis using e(1) by (simp add: x)
qed

text \<open>Integers of up to 53 bits are doubles.\<close>

lemma integer_double:
  assumes "0 < p" and "p < 2 ^ 53"
  shows "double_value (nearest_double p 1) = real p"
proof -
  obtain m k where x: "nearest_double p 1 = (m, k)" by force
  define l where "l = bit_len p"
  have "2 ^ (l - 1) < (2::nat) ^ 53" using bit_len_bounds [OF assms(1)] assms(2) by (simp add: l_def)
  then have "l - 1 < 53" by (rule power_less_imp_less_exp [rotated]) simp
  moreover have "bit_len 1 = 1" by (simp add: bit_len.simps)
  ultimately have k: "k \<le> 0" and m: "(case scale_down p 1 k of (a, b) \<Rightarrow> round_half_even a b) = m"
    using x assms(1) by (auto simp: nearest_double_def Let_def l_def split: prod.splits if_splits)
  have "scale_down p 1 k = (p * 2 ^ nat (- k), 1)" using k by (cases "k = 0") (simp_all add: scale_down_def)
  then have "m = p * 2 ^ nat (- k)" using m by (simp add: round_half_even_def)
  then show ?thesis unfolding x double_value_def using k by (cases "k = 0") (simp_all add: powi_neg)
qed

lemma strip_zeros_of_stripped:
  "strip_zeros_of m e = (m', e') \<Longrightarrow> 0 < m \<Longrightarrow> 0 < m' \<and> \<not> 10 dvd m'"
proof (induction m e rule: strip_zeros_of.induct)
  case (1 m e)
  show ?case
  proof (cases "m \<noteq> 0 \<and> 10 dvd m")
    case True
    then have "0 < m div 10" by (auto elim: dvdE)
    then show ?thesis using 1 True by (simp add: strip_zeros_of.simps [of m e])
  next
    case False
    then show ?thesis using 1 by (auto simp: strip_zeros_of.simps [of m e])
  qed
qed

lemma shortest_integer:
  assumes "shortest v = Fin m e" and "0 < m" and "num_is_integer (Fin m e)"
  shows "0 \<le> e"
proof (rule ccontr)
  assume "\<not> 0 \<le> e"
  then obtain j where "nat (- e) = Suc j" by (cases "nat (- e)") auto
  then have "10 dvd m" using assms(3) \<open>\<not> 0 \<le> e\<close> by (auto intro: dvd_trans [of 10 "10 ^ nat (- e)"])
  obtain n f where v: "v = Fin n f" "n \<noteq> 0" using assms(1,2) by (cases v) (auto split: if_splits)
  obtain m' e' where s: "strip_zeros_of (nat \<bar>n\<bar>) f = (m', e')" by force
  have "\<not> 10 dvd m'" using strip_zeros_of_stripped [OF s] v(2) by simp
  moreover have "m = sgn n * int m'" using assms(1) v s by simp
  ultimately show False using \<open>10 dvd m\<close> v(2)
    by (cases n "0 :: int" rule: linorder_cases) (simp_all, presburger+)
qed

text \<open>A product that is a safe integer leaves less than half a unit to the exact product.\<close>

lemma safe_product_bound:
  assumes "double_is_safe_integer (times_double x c)" and "0 < double_value x" "0 < c"
  shows "double_value x * real c < 2 ^ 53"
proof -
  obtain p q where r: "double_ratio x = (p, q)" by force
  note v = double_ratio_value [OF r]
  let ?y = "nearest_double (p * c) q"
  have y: "times_double x c = ?y" by (simp add: times_double_def r)
  obtain p' q' where r': "double_ratio ?y = (p', q')" by force
  note v' = double_ratio_value [OF r']
  have "q' dvd p'" "p' div q' \<le> 9007199254740991" using assms(1) by (simp_all add: y double_is_safe_integer_def r')
  then have "double_value ?y \<le> 9007199254740991"
    unfolding v'(2) by (simp add: real_of_nat_div [symmetric])
  moreover have "0 < p" using assms(2) v by (cases p) simp_all
  ultimately have "\<bar>double_value ?y - real (p * c) / real q\<bar> \<le> 2 powi (int 53 - 54)"
    using assms(3) v(1) by (intro error_below) simp_all
  moreover have "real (p * c) / real q = double_value x * real c" by (simp add: v(2))
  ultimately have "\<bar>double_value ?y - double_value x * real c\<bar> \<le> 1 / 2" by (simp add: power_int_def)
  then have "double_value x * real c \<le> double_value ?y + 1 / 2" by (simp only: abs_le_iff) linarith
  then show ?thesis using \<open>double_value ?y \<le> 9007199254740991\<close> by simp
qed

lemma fixed_units_error: "\<bar>real (fixed_units x) - double_value x * 10 ^ 7\<bar> \<le> 1 / 2"
proof -
  obtain p q where r: "double_ratio x = (p, q)" by force
  note v = double_ratio_value [OF r]
  let ?a = "2 * p * 10 ^ 7 + q" and ?b = "2 * q"
  have "real ?a = real (?a div ?b) * real ?b + real (?a mod ?b)"
    unfolding of_nat_mult [symmetric] of_nat_add [symmetric] by (simp only: div_mult_mod_eq)
  then have "real ?a / real ?b = real (?a div ?b) + real (?a mod ?b) / real ?b"
    using v(1) by (simp only: add_divide_distrib) simp
  moreover have "real ?a / real ?b = double_value x * 10 ^ 7 + 1 / 2" using v by (simp add: field_simps)
  moreover have "0 \<le> real (?a mod ?b) / real ?b" "real (?a mod ?b) / real ?b < 1"
  proof -
    have "?a mod ?b < ?b" using v(1) by simp
    then have "real (?a mod ?b) < real ?b" by (simp only: of_nat_less_iff)
    then show "real (?a mod ?b) / real ?b < 1" using v(1) by (simp only: divide_less_eq) simp
  qed simp
  ultimately have "\<bar>real (?a div ?b) - double_value x * 10 ^ 7\<bar> \<le> 1 / 2" by (simp only: abs_le_iff) linarith
  then show ?thesis by (simp add: fixed_units_def r)
qed

section \<open>A number and its stroops\<close>

lemma decimal_value:
  assumes "0 \<le> e + 7" and "e < 0"
  shows "real (m * 10 ^ nat (e + 7)) / 10 ^ 7 = real m / real (10 ^ nat (- e))"
proof -
  have "nat (e + 7) + nat (- e) = 7" using assms by simp
  then have "(10::real) ^ nat (e + 7) * 10 ^ nat (- e) = 10 ^ 7" by (metis power_add)
  then show ?thesis by (simp add: field_simps)
qed

text \<open>The ways a number is accepted.\<close>

lemma numeric_amount_cases:
  assumes "normalize_stellar_amount (JNum v) = Inr (s, n)"
  obtains m e where "shortest v = Fin m e" "0 < m" "num_is_integer (Fin m e) \<or>
      double_is_safe_integer (times_double (decimal_double (nat m) e) STROOPS_PER_UNIT)"
    "n \<le> MAX_STELLAR_AMOUNT_STROOPS"
    "0 \<le> e + 7 \<and> n = nat m * 10 ^ nat (e + 7) \<or>
      same_double (nearest_double n (10 ^ 7)) (decimal_double (nat m) e) \<and> n = fixed_units (decimal_double (nat m) e)"
proof -
  have run: "normalize_numeric_amount v = Inr s" and ok: "decimal_amount_re s" and n: "n = stroops_of s"
    and le: "n \<le> MAX_STELLAR_AMOUNT_STROOPS"
    using normalize_stellar_ok [OF assms] by (auto simp: valid_amount_def)
  obtain m e where me: "shortest v = Fin m e" "0 < m"
    using run by (cases "shortest v") (auto simp: normalize_numeric_amount_def Let_def split: if_splits)
  let ?x = "decimal_double (nat m) e"
  have safe: "num_is_integer (Fin m e) \<or> double_is_safe_integer (times_double ?x STROOPS_PER_UNIT)"
    using run me by (auto simp: normalize_numeric_amount_def Let_def split: if_splits)
  have str: "num_str (Fin m e) = pos_decimal_str (nat m) e" using me(2) by simp
  consider "s = num_str (Fin m e)" "CHR ''e'' \<notin> set (num_str (Fin m e))"
    | "CHR ''e'' \<in> set (num_str (Fin m e)) \<or> CHR ''E'' \<in> set (num_str (Fin m e))" "s = drop_trailing_zeros (num_str (Fin m e))"
    | "same_double (nearest_double (fixed_units ?x) (10 ^ 7)) ?x" "s = drop_trailing_zeros (fixed_str (fixed_units ?x))"
    using run me by (auto simp: normalize_numeric_amount_def Let_def split: if_splits)
  then have "0 \<le> e + 7 \<and> n = nat m * 10 ^ nat (e + 7) \<or>
      same_double (nearest_double n (10 ^ 7)) ?x \<and> n = fixed_units ?x"
  proof cases
    case 1
    then show ?thesis using plain_decimal_stroops [of "nat m" e] ok n me str by auto
  next
    case 2
    have "CHR ''E'' \<notin> set (num_str (Fin m e))"
      using decimal_characters [of "nat m" e] unfolding str by (auto simp: list_all_iff decimal_char_def is_digit_def)
    then have "CHR ''e'' \<in> set s" using 2 exponent_survives by blast
    then show ?thesis using amount_text_has_no_exponent [OF ok] by blast
  next
    case 3
    then show ?thesis using n stroops_of_fixed by auto
  qed
  then show ?thesis by (rule that [OF me safe le])
qed

text \<open>The distance in the plain case: none for an integer, half a unit in the last place otherwise.\<close>

lemma plain_amount_error:
  assumes "shortest v = Fin m e" "0 < m" and n: "0 \<le> e + 7" "n = nat m * 10 ^ nat (e + 7)" "n \<le> MAX_STELLAR_AMOUNT_STROOPS"
    and safe: "num_is_integer (Fin m e) \<or> double_is_safe_integer (times_double (decimal_double (nat m) e) STROOPS_PER_UNIT)"
    and x: "x = double_value (decimal_double (nat m) e)"
  shows "\<bar>real n / 10 ^ 7 - x\<bar> \<le> 2 powi (- 24)" and "x < 2 ^ 29 \<Longrightarrow> \<bar>real n / 10 ^ 7 - x\<bar> \<le> 2 powi (- 25)"
proof -
  have "\<bar>real n / 10 ^ 7 - x\<bar> \<le> 2 powi (- 24) \<and> (x < 2 ^ 29 \<longrightarrow> \<bar>real n / 10 ^ 7 - x\<bar> \<le> 2 powi (- 25))"
  proof (cases "0 \<le> e")
    case True
    let ?p = "nat m * 10 ^ nat e"
    have "nat (e + 7) = nat e + 7" using True by simp
    then have n': "n = ?p * 10 ^ 7" using n(2) by (simp add: power_add)
    then have "?p < 2 ^ 53" using n(3) by (simp add: MAX_STELLAR_AMOUNT_STROOPS_def)
    then have "x = real ?p" using True assms(2) integer_double [of ?p] by (simp add: x decimal_double_def)
    then have "real n / 10 ^ 7 - x = 0" by (simp add: n')
    then show ?thesis by simp
  next
    case False
    then have "\<not> num_is_integer (Fin m e)" using shortest_integer [OF assms(1,2)] by blast
    with safe have safe: "double_is_safe_integer (times_double (decimal_double (nat m) e) STROOPS_PER_UNIT)" by blast
    have r: "nearest_double (nat m) (10 ^ nat (- e)) = decimal_double (nat m) e" using False by (simp add: decimal_double_def)
    have "0 < nat m" "0 < (10::nat) ^ nat (- e)" using assms(2) by simp_all
    note err = error_below [OF r this]
    have v: "real n / 10 ^ 7 = real (nat m) / real (10 ^ nat (- e))"
      unfolding n(2) by (rule decimal_value) (use n(1) False in simp_all)
    have "x < 2 ^ 30"
    proof (cases "0 < x")
      case True
      then have "x * real STROOPS_PER_UNIT < 2 ^ 53"
        using safe_product_bound [OF safe] by (simp add: x STROOPS_PER_UNIT_def)
      then show ?thesis by (simp add: STROOPS_PER_UNIT_def)
    qed simp
    then have "\<bar>x - real (nat m) / real (10 ^ nat (- e))\<bar> \<le> 2 powi (- 24)" using err [of 30] by (simp add: x)
    moreover have "\<bar>x - real (nat m) / real (10 ^ nat (- e))\<bar> \<le> 2 powi (- 25)" if "x < 2 ^ 29"
      using err [of 29] that by (simp add: x)
    ultimately show ?thesis unfolding v by (simp add: abs_minus_commute)
  qed
  then show "\<bar>real n / 10 ^ 7 - x\<bar> \<le> 2 powi (- 24)" "x < 2 ^ 29 \<Longrightarrow> \<bar>real n / 10 ^ 7 - x\<bar> \<le> 2 powi (- 25)" by blast+
qed

text \<open>
  An accepted number is prepared within one stroop of its exact value, and below \<open>2 ^ 29\<close> it is the only
  number of stroops that reads as that number.
\<close>

lemma numeric_amount_faithful:
  assumes "normalize_stellar_amount (JNum v) = Inr (s, n)"
  shows "\<exists>m e x. shortest v = Fin m e \<and> 0 < m \<and> x = decimal_double (nat m) e \<and>
    (0 \<le> e + 7 \<and> n = nat m * 10 ^ nat (e + 7) \<or> same_double (nearest_double n (10 ^ 7)) x) \<and>
    \<bar>real n / 10 ^ 7 - double_value x\<bar> < 1 / 10 ^ 7 \<and>
    (double_value x < 2 ^ 29 \<longrightarrow> (\<forall>n'. same_double (nearest_double n' (10 ^ 7)) x \<longrightarrow> n' = n))"
proof -
  obtain m e where me: "shortest v = Fin m e" "0 < m"
    and safe: "num_is_integer (Fin m e) \<or> double_is_safe_integer (times_double (decimal_double (nat m) e) STROOPS_PER_UNIT)"
    and le: "n \<le> MAX_STELLAR_AMOUNT_STROOPS" and how: "0 \<le> e + 7 \<and> n = nat m * 10 ^ nat (e + 7) \<or>
      same_double (nearest_double n (10 ^ 7)) (decimal_double (nat m) e) \<and> n = fixed_units (decimal_double (nat m) e)"
    by (rule numeric_amount_cases [OF assms])
  define x where "x = double_value (decimal_double (nat m) e)"
  have powers: "(2::real) powi (- 24) = 1 / 16777216" "(2::real) powi (- 25) = 1 / 33554432"
    by (simp_all add: powi_neg)
  have near: "\<bar>real n / 10 ^ 7 - x\<bar> < 1 / 10 ^ 7 \<and> (x < 2 ^ 29 \<longrightarrow> \<bar>real n / 10 ^ 7 - x\<bar> \<le> 1 / (2 * 10 ^ 7))"
    using how
  proof (elim disjE conjE)
    assume "0 \<le> e + 7" "n = nat m * 10 ^ nat (e + 7)"
    from plain_amount_error [OF me this le safe x_def] show ?thesis unfolding powers by auto
  next
    assume "n = fixed_units (decimal_double (nat m) e)"
    then have "\<bar>real n - x * 10 ^ 7\<bar> \<le> 1 / 2" using fixed_units_error by (simp add: x_def)
    moreover have "\<bar>real n / 10 ^ 7 - x\<bar> = \<bar>real n - x * 10 ^ 7\<bar> / 10 ^ 7"
      by (subst (2) abs_of_pos [of "10 ^ 7", symmetric], simp, subst abs_divide [symmetric]) (simp add: diff_divide_distrib)
    ultimately show ?thesis by simp
  qed
  have "n' = n" if low: "x < 2 ^ 29" and n': "same_double (nearest_double n' (10 ^ 7)) (decimal_double (nat m) e)" for n'
  proof -
    have x': "double_value (nearest_double n' (10 ^ 7)) = x" using n' by (simp add: same_double_value x_def)
    have "\<bar>real n' / 10 ^ 7 - x\<bar> \<le> 1 / 33554432"
    proof (cases "n' = 0")
      case True
      then have "x = 0" using x' by (simp add: nearest_double_def double_value_def)
      then show ?thesis using True by simp
    next
      case False
      then have "\<bar>x - real n' / real (10 ^ 7)\<bar> \<le> 2 powi (int 29 - 54)"
        using error_below [of n' "10 ^ 7" _ 29, OF refl] low x' by simp
      then show ?thesis using powers(2) by (simp add: abs_minus_commute)
    qed
    moreover have "\<bar>real n / 10 ^ 7 - x\<bar> \<le> 1 / 20000000" using near low by simp
    moreover have "\<bar>a - b\<bar> \<le> c + d" if "\<bar>a - x\<bar> \<le> c" "\<bar>b - x\<bar> \<le> d" for a b c d using that by linarith
    ultimately have "\<bar>real n' / 10 ^ 7 - real n / 10 ^ 7\<bar> \<le> 1 / 33554432 + 1 / 20000000" by blast
    then have "\<bar>real n' / 10 ^ 7 - real n / 10 ^ 7\<bar> < 1 / 10 ^ 7" by simp
    then have "\<bar>real n' - real n\<bar> < 1" by (simp only: diff_divide_distrib [symmetric] abs_divide) simp
    then show ?thesis by linarith
  qed
  then show ?thesis using me how near
    by (intro exI [of _ m] exI [of _ e] exI [of _ "decimal_double (nat m) e"]) (auto simp: x_def)
qed

end
