(* ===== verification/Payment_Examples.thy ===== *)
theory Payment_Examples
  imports Payment_Policy Stellar_Account Stellar_Amount
begin

text \<open>
  One wallet, one native payment that leaves every optional field out, and what the payment policy and
  the hardened approval policy do with it: the concrete inputs the properties on payments are applied to.
\<close>

definition demo_pay_heap :: heap where
  "demo_pay_heap = [(0, plain_object\<lparr>ob_props := [(KStr ''walletId'', Data True (JStr ''w'')),
    (KStr ''amount'', Data True (JStr ''1.5''))]\<rparr>)]"

definition demo_wallet :: wallet_entry where
  "demo_wallet = \<lparr>we_wallet = JStr ''w'', we_max = Some ''2'', we_recipients = NoRecipients,
    we_assets = Some [Entry \<lparr>ae_code = JStr ''XLM'', ae_issuer = JUndefined\<rparr>], we_require_recipient = JUndefined,
    we_require_memo = JBool False\<rparr>"

definition demo_pay_request :: policy_request where
  "demo_pay_request = \<lparr>rq_tool = PAYMENT_PREP_TOOL_NAME, rq_payload = JRef 0, rq_runtime = ''r'', rq_task = ''t'',
    rq_agent_id = Some ''a'', rq_legacy_id = None\<rparr>"

definition demo_rules :: wallet_rules where
  "demo_rules = [(''w'', \<lparr>wr_max = Some 20000000, wr_recipients = None, wr_assets = Some [''XLM'' @ [CHR 0x00]],
    wr_require_recipient = False, wr_require_memo = False\<rparr>)]"

definition demo_payload :: payment_payload where
  "demo_payload = \<lparr>pp_wallet = JStr ''w'', pp_amount = JStr ''1.5'', pp_recipient = JUndefined,
   pp_asset = JUndefined, pp_issuer = JUndefined, pp_memo = JUndefined, pp_metadata = JUndefined\<rparr>"

lemma demo_amounts:
  "decimal_amount_re ''2''" "stroops_of ''2'' = 20000000" "decimal_amount_re ''1.5''" "stroops_of ''1.5'' = 15000000"
  by (simp_all add: decimal_amount_re_def stroops_of_def whole_part_def after_point_def is_digit_def digits_val_def digit_val_def
    STROOPS_PER_UNIT_def Let_def digits_val_pad [unfolded digits_val_def] digits_val_only_zeros [unfolded digits_val_def])

lemma demo_trims: "js_trim ''w'' = ''w''" "js_trim ''XLM'' = ''XLM''" "js_trim ''1.5'' = ''1.5''"
  by (simp_all add: js_trim_def strip_ws.simps ws_seqs_def)

lemma demo_asset: "asset_code_re ''XLM''"
  by (simp add: asset_code_re_def is_alphanumeric_def Let_def)

lemma demo_config: "new_payment_policy (Entry [Entry demo_wallet]) = Inr demo_rules"
  by (simp add: new_payment_policy_def demo_wallet_def demo_rules_def compile_wallet_def require_config_string_def Let_def demo_trims
    optional_flag_def parse_configured_max_amount_def parse_exact_stroops_def demo_amounts MAX_STELLAR_AMOUNT_STROOPS_def
    compile_recipient_allowlist_def compile_asset_allowlist_def compile_asset_def demo_asset asset_identity_def set_add_def)

lemma demo_pay_snapshot: "snapshot_payment_payload demo_pay_heap (JRef 0) = Some demo_payload"
  by code_simp

lemma demo_prepared: "prepare_payment H ''t'' ''now'' demo_payload =
   Inr \<lparr>pr_wallet = ''w'', pr_amount = ''1.5'', pr_recipient = None, pr_asset = ''XLM'', pr_issuer = None, pr_memo = None,
   pr_at = ''now'', pr_stub = transaction_stub_id H ''t'' ''w'' None ''XLM'' None 15000000 None, pr_metadata = JUndefined\<rparr>"
  by (simp add: prepare_payment_def demo_payload_def required_text_def assert_non_empty_value_def Let_def blank_def demo_trims
    optional_text_def prepared_asset_def demo_asset prepared_issuer_def normalize_memo_def prepared_amount_def
    normalize_stellar_amount_def demo_amounts MAX_STELLAR_AMOUNT_STROOPS_def)

definition demo_bound_heap :: heap where
  "demo_bound_heap = [(0, plain_object\<lparr>ob_props := [(KStr ''walletId'', Data True (JStr ''w'')),
    (KStr ''amount'', Data True (JStr ''1.5'')), (KStr ''recipientId'', Data False JUndefined), 
    (KStr ''assetCode'', Data False JUndefined), (KStr ''assetIssuer'', Data False JUndefined), 
    (KStr ''memo'', Data False JUndefined), (KStr ''metadata'', Data False JUndefined)], ob_frozen := True\<rparr>)]"

lemma demo_bound: "bind_authorized_payment (JRef 0) demo_payload demo_pay_heap = (True, demo_bound_heap)"
  by code_simp

lemma demo_payment_allowed: "evaluate_payment id ''now'' (\<lambda>w. w) demo_rules demo_pay_request \<lparr>pw_heap = demo_pay_heap, pw_rest = ()\<rparr>
  = (Inr allow, \<lparr>pw_heap = demo_bound_heap, pw_rest = ()\<rparr>)"
  by (simp add: evaluate_payment_def demo_pay_request_def demo_pay_snapshot demo_prepared demo_rules_def
    payment_denial_def parse_exact_stroops_def demo_amounts MAX_STELLAR_AMOUNT_STROOPS_def asset_identity_def demo_bound)

definition demo_approving :: "unit policy option \<Rightarrow> unit approval_policy" where
  "demo_approving base = \<lparr>po_consume = (\<lambda>_ w. (Inr \<lparr>cd_approved = True, cd_reason = None, cd_approval = None\<rparr>, w)),
    po_protected = [PAYMENT_PREP_TOOL_NAME], po_base = base\<rparr>"

definition demo_world :: "unit policy_world" where
  "demo_world = \<lparr>pw_heap = demo_pay_heap, pw_rest = ()\<rparr>"

lemma demo_approval_alone: "permits (fst (evaluate_hardened id (demo_approving None) demo_pay_request demo_world))"
  by code_simp

lemma demo_spelled_amount: "decimal_amount_re ''1.50''" "stroops_of ''1.50'' = 15000000" "js_trim ''1.50'' = ''1.50''"
  by (simp_all add: decimal_amount_re_def stroops_of_def whole_part_def after_point_def is_digit_def digits_val_def digit_val_def
    STROOPS_PER_UNIT_def Let_def digits_val_pad [unfolded digits_val_def] js_trim_def strip_ws.simps ws_seqs_def)

text \<open>The same payment with its amount spelled with a trailing zero.\<close>

lemma demo_prepared_spelled:
  "prepare_payment H ''t'' ''later'' (demo_payload\<lparr>pp_amount := JStr ''1.50''\<rparr>) =
   Inr \<lparr>pr_wallet = ''w'', pr_amount = ''1.50'', pr_recipient = None, pr_asset = ''XLM'', pr_issuer = None, pr_memo = None,
   pr_at = ''later'', pr_stub = transaction_stub_id H ''t'' ''w'' None ''XLM'' None 15000000 None, pr_metadata = JUndefined\<rparr>"
  by (simp add: prepare_payment_def demo_payload_def required_text_def assert_non_empty_value_def Let_def blank_def demo_trims
    optional_text_def prepared_asset_def demo_asset prepared_issuer_def normalize_memo_def prepared_amount_def
    normalize_stellar_amount_def demo_spelled_amount MAX_STELLAR_AMOUNT_STROOPS_def)

text \<open>The number 2.5, through its double.\<close>

lemma demo_shortest: "shortest (Fin 25 (- 1)) = Fin 25 (- 1)"
  by (simp add: strip_zeros_of.simps)

lemma demo_double: "decimal_double 25 (- 1) = (5629499534213120, - 51)"
  by (simp add: decimal_double_def nearest_double_def bit_len.simps scale_down_def round_half_even_def Let_def)

lemma demo_bit_lens: "bit_len 56294995342131200000000 = 76" "bit_len 2251799813685248 = 52"
  by (simp_all add: bit_len.simps)

lemma demo_times: "times_double (5629499534213120, - 51) 10000000 = (6710886400000000, - 28)"
proof -
  have ratio: "double_ratio (5629499534213120, - 51) = (5629499534213120, 2251799813685248)"
    by (simp add: double_ratio_def)
  show ?thesis
    by (simp add: times_double_def ratio nearest_double_def demo_bit_lens scale_down_def round_half_even_def Let_def)
qed

lemma demo_safe: "double_is_safe_integer (6710886400000000, - 28)"
proof -
  have "double_ratio (6710886400000000, - 28) = (6710886400000000, 268435456)" by (simp add: double_ratio_def)
  then show ?thesis by (simp add: double_is_safe_integer_def)
qed

lemma demo_number_text: "num_str (Fin 25 (- 1)) = ''2.5''"
proof -
  have "nat_str 25 = ''25''" by code_simp
  then show ?thesis by (simp add: pos_decimal_str_def Let_def)
qed

lemma demo_number: "normalize_stellar_amount (JNum (Fin 25 (- 1))) = Inr (''2.5'', 25000000)"
proof -
  have "normalize_numeric_amount (Fin 25 (- 1)) = Inr ''2.5''"
    unfolding normalize_numeric_amount_def demo_shortest
    by (simp add: demo_double demo_times demo_safe demo_number_text STROOPS_PER_UNIT_def Let_def del: num_str.simps)
  moreover have "decimal_amount_re ''2.5''" "stroops_of ''2.5'' = 25000000"
    by (simp_all add: decimal_amount_re_def stroops_of_def whole_part_def after_point_def is_digit_def digits_val_def
      digit_val_def STROOPS_PER_UNIT_def Let_def digits_val_pad [unfolded digits_val_def])
  ultimately show ?thesis by (simp add: normalize_stellar_amount_def MAX_STELLAR_AMOUNT_STROOPS_def)
qed
text \<open>Above 2 to the 29 a double can name a decimal one stroop off: the numbers 536870912.0000003 and
  536870912.0000004 are one double, which prints as the second, passes the guard and is prepared as the second.\<close>

lemma coarse_double: "decimal_double 5368709120000004 (- 7) = (4503599627370499, - 23)"
  "decimal_double 5368709120000003 (- 7) = (4503599627370499, - 23)"
  by (simp_all add: decimal_double_def nearest_double_def bit_len.simps scale_down_def round_half_even_def Let_def)

lemma coarse_shortest: "shortest (Fin 5368709120000004 (- 7)) = Fin 5368709120000004 (- 7)"
  by (simp add: strip_zeros_of.simps)

lemma coarse_bit_lens: "bit_len 45035996273704990000000 = 76" "bit_len 8388608 = 24"
  by (simp_all add: bit_len.simps)

lemma coarse_times: "times_double (4503599627370499, - 23) 10000000 = (5368709120000004, 0)"
proof -
  have ratio: "double_ratio (4503599627370499, - 23) = (4503599627370499, 8388608)"
    by (simp add: double_ratio_def)
  show ?thesis
    by (simp add: times_double_def ratio nearest_double_def coarse_bit_lens scale_down_def round_half_even_def Let_def)
qed

lemma coarse_digits: "map digit_char [0, 1, 2, 3, 4, 5, 6, 7, 8, 9] = ''0123456789''"
  by code_simp

lemma coarse_text: "num_str (Fin 5368709120000004 (- 7)) = ''536870912.0000004''"
proof -
  have "nat_str 5368709120000004 = ''5368709120000004''" using coarse_digits by (simp add: nat_str.simps)
  then show ?thesis by (simp add: pos_decimal_str_def Let_def)
qed

lemma coarse_number: "normalize_stellar_amount (JNum (Fin 5368709120000004 (- 7))) = Inr (''536870912.0000004'', 5368709120000004)"
proof -
  have "double_is_safe_integer (5368709120000004, 0)" by (simp add: double_is_safe_integer_def double_ratio_def)
  then have "normalize_numeric_amount (Fin 5368709120000004 (- 7)) = Inr ''536870912.0000004''"
    unfolding normalize_numeric_amount_def coarse_shortest
    by (simp add: coarse_double coarse_times coarse_text STROOPS_PER_UNIT_def Let_def del: num_str.simps)
  moreover have "decimal_amount_re ''536870912.0000004''" "stroops_of ''536870912.0000004'' = 5368709120000004"
    by (simp_all add: decimal_amount_re_def stroops_of_def whole_part_def after_point_def is_digit_def digits_val_def
      digit_val_def STROOPS_PER_UNIT_def Let_def digits_val_pad [unfolded digits_val_def])
  ultimately show ?thesis by (simp add: normalize_stellar_amount_def MAX_STELLAR_AMOUNT_STROOPS_def)
qed

lemma numeric_amount_one_stroop_off:
  "same_double (decimal_double 5368709120000003 (- 7)) (decimal_double 5368709120000004 (- 7))
   \<and> normalize_stellar_amount (JNum (Fin 5368709120000004 (- 7))) = Inr (''536870912.0000004'', 5368709120000004)"
  by (simp add: coarse_double coarse_number same_double_def double_ratio_def)

end
