(* ===== verification/Event_Bus.thy ===== *)
theory Event_Bus
  imports Runtime_Events
begin

text \<open>
  \<open>RuntimeEventBus\<close> of \<open>src/events/runtime-events.ts\<close>. Listeners are user code that may call the bus
  again while it dispatches, so the operations are definitions and \<open>emit\<close> is cut where it calls user
  code: a stack of frames says where every active call of the bus stands. \<open>bus_step\<close> lets whatever
  user code is on top of the stack do any bus operation before it returns, throws or hands back a
  promise.

  A listener is a number. \<open>once\<close> registers a new wrapper function: its identity and its original.
\<close>

section \<open>The bus\<close>

datatype stored = Plain nat | Once nat nat

record event_bus =
  eb_listeners :: "(event_name, stored list) table"
  eb_max :: nat
  eb_observer :: bool
  eb_internal :: bool
  eb_notifying :: bool

definition DEFAULT_MAX_LISTENERS :: nat where
  "DEFAULT_MAX_LISTENERS = 100"

text \<open>A number, an observer function, an options object with both optional, or nothing.\<close>

datatype bus_options = MaxOption jsnum | ObserverOption | OptionsObject "jsnum option" bool | NoOptions

definition resolve_options :: "bus_options \<Rightarrow> jsnum option \<times> bool" where
  "resolve_options o' =
    (case o' of
       MaxOption v \<Rightarrow> (Some v, False)
     | ObserverOption \<Rightarrow> (None, True)
     | OptionsObject v observer \<Rightarrow> (v, observer)
     | NoOptions \<Rightarrow> (None, False))"

definition new_event_bus :: "bus_options \<Rightarrow> event_bus res" where
  "new_event_bus o' =
    (case resolve_options o' of
       (limit, observer) \<Rightarrow>
         if (case limit of None \<Rightarrow> False | Some v \<Rightarrow> \<not> integer_from 1 v)
         then Inl (RangeErr ''maxListeners must be a positive integer.'')
         else Inr \<lparr>eb_listeners = [],
           eb_max = (case limit of None \<Rightarrow> DEFAULT_MAX_LISTENERS | Some v \<Rightarrow> nat (num_int v)),
           eb_observer = observer, eb_internal = False, eb_notifying = False\<rparr>)"

definition listeners_of :: "event_bus \<Rightarrow> event_name \<Rightarrow> stored list" where
  "listeners_of b n = (case map_of (eb_listeners b) n of None \<Rightarrow> [] | Some ls \<Rightarrow> ls)"

definition set_listeners :: "event_name \<Rightarrow> stored list \<Rightarrow> event_bus \<Rightarrow> event_bus" where
  "set_listeners n ls b = b\<lparr>eb_listeners := AList.update n ls (eb_listeners b)\<rparr>"

definition get_or_create_listeners :: "event_name \<Rightarrow> event_bus \<Rightarrow> event_bus" where
  "get_or_create_listeners n b = (if table_has (eb_listeners b) n then b else set_listeners n [] b)"

fun event_name_str :: "event_name \<Rightarrow> string" where
  "event_name_str EInternalError = ''runtime.internal.error''"
| "event_name_str EStarted = ''runtime.started''"
| "event_name_str EStopped = ''runtime.stopped''"
| "event_name_str ETaskReceived = ''runtime.task.received''"
| "event_name_str ETaskCompleted = ''runtime.task.completed''"
| "event_name_str ETaskFailed = ''runtime.task.failed''"
| "event_name_str ETaskReconciled = ''runtime.task.reconciled''"
| "event_name_str EToolInvoked = ''runtime.tool.invoked''"
| "event_name_str EToolDenied = ''runtime.tool.denied''"

definition listener_limit :: "event_name \<Rightarrow> nat \<Rightarrow> js_error" where
  "listener_limit n m = PlainErr (''Cannot add listener for '' @ [CHR 0x22] @ event_name_str n @ [CHR 0x22] @
    '': max listener count ('' @ nat_str m @ '') exceeded.'')"

text \<open>What \<open>on\<close> and \<open>once\<close> return: a function that does nothing, or one that calls \<open>off\<close>.\<close>

datatype unsubscribe = Nothing | CallOff event_name stored

definition bus_on :: "event_name \<Rightarrow> stored \<Rightarrow> event_bus \<Rightarrow> unsubscribe res \<times> event_bus" where
  "bus_on n l b =
    (let b = get_or_create_listeners n b; ls = listeners_of b n in
     if l \<in> set ls then (Inr Nothing, b)
     else if eb_max b \<le> length ls then (Inl (listener_limit n (eb_max b)), b)
     else (Inr (CallOff n l), set_listeners n (set_add l ls) b))"

definition bus_once :: "nat \<Rightarrow> event_name \<Rightarrow> nat \<Rightarrow> event_bus \<Rightarrow> unsubscribe res \<times> event_bus" where
  "bus_once w n k b =
    (case bus_on n (Once w k) b of
       (Inl e, b) \<Rightarrow> (Inl e, b)
     | (Inr _, b) \<Rightarrow> (Inr (CallOff n (Once w k)), b))"

definition wraps :: "stored \<Rightarrow> stored \<Rightarrow> bool" where
  "wraps target item = (case item of Plain _ \<Rightarrow> False | Once _ k \<Rightarrow> Plain k = target)"

definition bus_off :: "event_name \<Rightarrow> stored \<Rightarrow> event_bus \<Rightarrow> bool \<times> event_bus" where
  "bus_off n target b =
    (case map_of (eb_listeners b) n of
       None \<Rightarrow> (False, b)
     | Some ls \<Rightarrow>
         if target \<in> set ls then (True, set_listeners n (set_del target ls) b)
         else (case find (wraps target) ls of
             None \<Rightarrow> (False, b)
           | Some item \<Rightarrow> (True, set_listeners n (set_del item ls) b)))"

definition listener_count :: "event_name option \<Rightarrow> event_bus \<Rightarrow> nat" where
  "listener_count n b =
    (case n of
       None \<Rightarrow> sum_list (map (\<lambda>(_, ls). length ls) (eb_listeners b))
     | Some n \<Rightarrow> length (listeners_of b n))"

definition bus_clear :: "event_bus \<Rightarrow> event_bus" where
  "bus_clear b = b\<lparr>eb_listeners := []\<rparr>"

section \<open>Emission\<close>

text \<open>
  A thrown value, by what \<open>listenerErrorMessage\<close> looks at: an \<open>Error\<close> with the result of reading its
  message, another object or function with that and the result of \<open>String\<close>, or a primitive.
\<close>

datatype thrown =
    ThrownError "jsval res"
  | ThrownObject "jsval res" "string res"
  | ThrownPrimitive "string res"

definition string_or_unknown :: "string res \<Rightarrow> string" where
  "string_or_unknown r = (case r of Inl _ \<Rightarrow> ''Unknown listener failure.'' | Inr s \<Rightarrow> s)"

fun listener_error_message :: "thrown \<Rightarrow> string" where
  "listener_error_message (ThrownError (Inr (JStr m))) = m"
| "listener_error_message (ThrownError _) = ''Unknown listener failure.''"
| "listener_error_message (ThrownObject (Inl _) s) = ''Unknown listener failure.''"
| "listener_error_message (ThrownObject (Inr (JStr m)) s) = m"
| "listener_error_message (ThrownObject (Inr _) s) = string_or_unknown s"
| "listener_error_message (ThrownPrimitive s) = string_or_unknown s"

text \<open>
  The active calls, innermost first: the loop of an emission with the rest of its snapshot, a listener
  that runs, the observer of \<open>onListenerError\<close> that runs, and the \<open>finally\<close> that clears the flag after
  an internal error was emitted. Emissions and wrappers take their identities from one counter.
\<close>

datatype frame =
    Dispatch nat runtime_event "stored list"
  | Running nat runtime_event stored
  | Observing event_name thrown
  | Reporting

record bus_machine =
  bm_bus :: event_bus
  bm_stack :: "frame list"
  bm_rejections :: "(event_name \<times> thrown) list"
  bm_next :: nat
  bm_trace :: "(nat \<times> stored \<times> bool) list"

definition begin_emit :: "runtime_event \<Rightarrow> bus_machine \<Rightarrow> bus_machine" where
  "begin_emit ev s =
    (case map_of (eb_listeners (bm_bus s)) (name_of ev) of
       None \<Rightarrow> s
     | Some ls \<Rightarrow> s\<lparr>bm_stack := Dispatch (bm_next s) ev ls # bm_stack s, bm_next := Suc (bm_next s)\<rparr>)"

text \<open>One turn of the loop: the trace says whether the listener was invoked or passed over.\<close>

definition dispatch_turn :: "bus_machine \<Rightarrow> bus_machine option" where
  "dispatch_turn s =
    (case bm_stack s of
       Dispatch i ev [] # st \<Rightarrow> Some (s\<lparr>bm_stack := st\<rparr>)
     | Dispatch i ev (l # ls) # st \<Rightarrow>
         if l \<notin> set (listeners_of (bm_bus s) (name_of ev))
         then Some (s\<lparr>bm_stack := Dispatch i ev ls # st, bm_trace := bm_trace s @ [(i, l, False)]\<rparr>)
         else Some (s\<lparr>bm_stack := Running i ev l # Dispatch i ev ls # st,
           bm_bus := (case l of Plain _ \<Rightarrow> bm_bus s | Once _ _ \<Rightarrow> snd (bus_off (name_of ev) l (bm_bus s))),
           bm_trace := bm_trace s @ [(i, l, True)]\<rparr>)
     | _ \<Rightarrow> None)"

text \<open>The part of \<open>handleListenerError\<close> after the observer, and the whole of it.\<close>

definition report_failure :: "event_name \<Rightarrow> thrown \<Rightarrow> string \<Rightarrow> bus_machine \<Rightarrow> bus_machine" where
  "report_failure n e now s =
    (if n \<noteq> EInternalError \<and> \<not> eb_internal (bm_bus s)
     then begin_emit (InternalError n (listener_error_message e) now)
       (s\<lparr>bm_bus := (bm_bus s)\<lparr>eb_internal := True\<rparr>, bm_stack := Reporting # bm_stack s\<rparr>)
     else s)"

definition handle_listener_error :: "event_name \<Rightarrow> thrown \<Rightarrow> string \<Rightarrow> bus_machine \<Rightarrow> bus_machine" where
  "handle_listener_error n e now s =
    (if eb_observer (bm_bus s) \<and> \<not> eb_notifying (bm_bus s)
     then s\<lparr>bm_bus := (bm_bus s)\<lparr>eb_notifying := True\<rparr>, bm_stack := Observing n e # bm_stack s\<rparr>
     else report_failure n e now s)"

text \<open>A listener ends: it returns, hands back a promise that may reject later, or throws.\<close>

datatype listener_result = Returned | Promised "thrown option" | Raised thrown

definition listener_done :: "listener_result \<Rightarrow> string \<Rightarrow> bus_machine \<Rightarrow> bus_machine option" where
  "listener_done r now s =
    (case bm_stack s of
       Running i ev l # st \<Rightarrow>
         let s = s\<lparr>bm_stack := st\<rparr> in
         Some (case r of
             Returned \<Rightarrow> s
           | Promised None \<Rightarrow> s
           | Promised (Some e) \<Rightarrow> s\<lparr>bm_rejections := bm_rejections s @ [(name_of ev, e)]\<rparr>
           | Raised e \<Rightarrow> handle_listener_error (name_of ev) e now s)
     | _ \<Rightarrow> None)"

text \<open>The observer ends, however: what it throws or rejects with is only logged.\<close>

definition observer_done :: "string \<Rightarrow> bus_machine \<Rightarrow> bus_machine option" where
  "observer_done now s =
    (case bm_stack s of
       Observing n e # st \<Rightarrow>
         Some (report_failure n e now (s\<lparr>bm_bus := (bm_bus s)\<lparr>eb_notifying := False\<rparr>, bm_stack := st\<rparr>))
     | _ \<Rightarrow> None)"

definition report_done :: "bus_machine \<Rightarrow> bus_machine option" where
  "report_done s =
    (case bm_stack s of
       Reporting # st \<Rightarrow> Some (s\<lparr>bm_bus := (bm_bus s)\<lparr>eb_internal := False\<rparr>, bm_stack := st\<rparr>)
     | _ \<Rightarrow> None)"

text \<open>The rejection handlers run when no call is active, in the order the promises were handed back.\<close>

definition handle_rejection :: "nat \<Rightarrow> string \<Rightarrow> bus_machine \<Rightarrow> bus_machine option" where
  "handle_rejection k now s =
    (if bm_stack s = [] \<and> k < length (bm_rejections s)
     then (case bm_rejections s ! k of
         (n, e) \<Rightarrow> Some (handle_listener_error n e now
           (s\<lparr>bm_rejections := take k (bm_rejections s) @ drop (Suc k) (bm_rejections s)\<rparr>)))
     else None)"

text \<open>User code has control: no call of the bus is active, or a listener or the observer runs.\<close>

definition user_turn :: "bus_machine \<Rightarrow> bool" where
  "user_turn s =
    (case bm_stack s of
       [] \<Rightarrow> True
     | f # _ \<Rightarrow> (case f of Running _ _ _ \<Rightarrow> True | Observing _ _ \<Rightarrow> True | _ \<Rightarrow> False))"

inductive quiet_step :: "bus_machine \<Rightarrow> bus_machine \<Rightarrow> bool" where
  turn: "dispatch_turn s = Some s' \<Longrightarrow> quiet_step s s'"
| ended: "listener_done r now s = Some s' \<Longrightarrow> quiet_step s s'"
| observed: "observer_done now s = Some s' \<Longrightarrow> quiet_step s s'"
| reported: "report_done s = Some s' \<Longrightarrow> quiet_step s s'"
| rejected: "handle_rejection k now s = Some s' \<Longrightarrow> quiet_step s s'"

inductive bus_step :: "bus_machine \<Rightarrow> bus_machine \<Rightarrow> bool" where
  quiet: "quiet_step s s' \<Longrightarrow> bus_step s s'"
| calls_on: "user_turn s \<Longrightarrow> bus_on n (Plain k) (bm_bus s) = (r, b) \<Longrightarrow> bus_step s (s\<lparr>bm_bus := b\<rparr>)"
| calls_once: "user_turn s \<Longrightarrow> bus_once (bm_next s) n k (bm_bus s) = (r, b) \<Longrightarrow>
    bus_step s (s\<lparr>bm_bus := b, bm_next := Suc (bm_next s)\<rparr>)"
| calls_off: "user_turn s \<Longrightarrow> bus_off n target (bm_bus s) = (r, b) \<Longrightarrow> bus_step s (s\<lparr>bm_bus := b\<rparr>)"
| calls_clear: "user_turn s \<Longrightarrow> bus_step s (s\<lparr>bm_bus := bus_clear (bm_bus s)\<rparr>)"
| calls_emit: "user_turn s \<Longrightarrow> bus_step s (begin_emit ev s)"

definition idle_machine :: "event_bus \<Rightarrow> bus_machine" where
  "idle_machine b = \<lparr>bm_bus = b, bm_stack = [], bm_rejections = [], bm_next = 0, bm_trace = []\<rparr>"

abbreviation bus_steps :: "bus_machine \<Rightarrow> bus_machine \<Rightarrow> bool" where
  "bus_steps \<equiv> bus_step\<^sup>*\<^sup>*"

section \<open>What the registrations keep\<close>

lemma listeners_of_set [simp]:
  "listeners_of (set_listeners n ls b) m = (if m = n then ls else listeners_of b m)"
  by (simp add: listeners_of_def set_listeners_def update_conv')

lemma set_listeners_fields [simp]:
  "eb_max (set_listeners n ls b) = eb_max b" "eb_internal (set_listeners n ls b) = eb_internal b"
  "eb_notifying (set_listeners n ls b) = eb_notifying b" "eb_observer (set_listeners n ls b) = eb_observer b"
  by (simp_all add: set_listeners_def)

lemma listeners_of_create [simp]: "listeners_of (get_or_create_listeners n b) m = listeners_of b m"
  by (cases "table_has (eb_listeners b) n")
    (auto simp: get_or_create_listeners_def listeners_of_def [of b] map_of_eq_None_iff [THEN iffD2] split: option.split)

lemma create_fields [simp]:
  "eb_max (get_or_create_listeners n b) = eb_max b" "eb_internal (get_or_create_listeners n b) = eb_internal b"
  "eb_notifying (get_or_create_listeners n b) = eb_notifying b" "eb_observer (get_or_create_listeners n b) = eb_observer b"
  by (simp_all add: get_or_create_listeners_def)

text \<open>Two buses that differ in their registrations only.\<close>

definition same_flags :: "event_bus \<Rightarrow> event_bus \<Rightarrow> bool" where
  "same_flags b b' \<longleftrightarrow> eb_max b' = eb_max b \<and> eb_internal b' = eb_internal b \<and>
    eb_notifying b' = eb_notifying b \<and> eb_observer b' = eb_observer b"

lemma bus_on_listeners:
  assumes "bus_on n l b = (r, b')"
  shows "same_flags b b' \<and> listeners_of b' m =
    (if m = n \<and> l \<notin> set (listeners_of b n) \<and> length (listeners_of b n) < eb_max b
     then listeners_of b n @ [l] else listeners_of b m)"
  using assms by (auto simp: bus_on_def Let_def same_flags_def set_add_def split: if_splits)

lemma bus_once_on: "bus_once w n k b = (r, b') \<Longrightarrow> \<exists>r. bus_on n (Once w k) b = (r, b')"
  by (auto simp: bus_once_def split: prod.splits sum.splits)

lemma subseq_set: "subseq xs ys \<Longrightarrow> set xs \<subseteq> set ys"
  by (auto dest: list_emb_set)

lemma subseq_set_del: "subseq (set_del x xs) xs"
  by (simp add: set_del_def)

lemma bus_off_listeners:
  assumes "bus_off n t b = (r, b')"
  shows "same_flags b b' \<and> subseq (listeners_of b' m) (listeners_of b m) \<and> t \<notin> set (listeners_of b' n)"
proof (cases "map_of (eb_listeners b) n")
  case None
  then have "listeners_of b n = []" by (simp add: listeners_of_def)
  then show ?thesis using assms None by (simp add: bus_off_def same_flags_def)
next
  case (Some ls)
  then have ls: "listeners_of b n = ls" by (simp add: listeners_of_def)
  show ?thesis
  proof (cases "t \<in> set ls")
    case True
    then show ?thesis using assms Some ls by (auto simp: bus_off_def same_flags_def subseq_set_del)
  next
    case False
    then show ?thesis using assms Some ls
      by (cases "find (wraps t) ls") (auto simp: bus_off_def same_flags_def subseq_set_del)
  qed
qed

text \<open>Every set has no repetitions and keeps the limit; a wrapper is registered for one event name.\<close>

definition sets_ok :: "nat \<Rightarrow> event_bus \<Rightarrow> bool" where
  "sets_ok next b \<longleftrightarrow> (\<forall>n. distinct (listeners_of b n) \<and> length (listeners_of b n) \<le> eb_max b) \<and>
    (\<forall>n w k. Once w k \<in> set (listeners_of b n) \<longrightarrow> w < next \<and> (\<forall>m. Once w k \<in> set (listeners_of b m) \<longrightarrow> m = n))"

lemma sets_ok_sub:
  assumes "sets_ok next b" and "eb_max b' = eb_max b" and "\<And>m. subseq (listeners_of b' m) (listeners_of b m)"
    and "next \<le> next'"
  shows "sets_ok next' b'"
proof -
  have sub: "set (listeners_of b' m) \<subseteq> set (listeners_of b m)" for m
    by (rule subseq_set [OF assms(3)])
  have "distinct (listeners_of b' m)" "length (listeners_of b' m) \<le> eb_max b'" for m
  proof -
    have "distinct (listeners_of b m)" "length (listeners_of b m) \<le> eb_max b"
      using assms(1) by (simp_all add: sets_ok_def)
    then show "distinct (listeners_of b' m)" "length (listeners_of b' m) \<le> eb_max b'"
      using assms(2) subseqs_distinctD [OF in_set_subseqs [THEN iffD2, OF assms(3)]] list_emb_length [OF assms(3)]
      by (auto intro: le_trans)
  qed
  then show ?thesis
    using assms(1,4) sub unfolding sets_ok_def by (metis less_le_trans subsetD)
qed

lemma sets_ok_on:
  assumes "sets_ok next b" and "bus_on n (Plain k) b = (r, b')"
  shows "sets_ok next b'"
proof -
  note l = bus_on_listeners [OF assms(2)]
  then have "eb_max b' = eb_max b" by (simp add: same_flags_def)
  then show ?thesis using assms(1) l unfolding sets_ok_def by (auto split: if_splits)
qed

lemma sets_ok_once:
  assumes "sets_ok next b" and "bus_once next n k b = (r, b')"
  shows "sets_ok (Suc next) b'"
proof -
  obtain r' where on: "bus_on n (Once next k) b = (r', b')" using bus_once_on [OF assms(2)] by blast
  note l = bus_on_listeners [OF on]
  have "Once next k \<notin> set (listeners_of b m)" for m using assms(1) by (auto simp: sets_ok_def)
  moreover have "eb_max b' = eb_max b" using l by (simp add: same_flags_def)
  ultimately show ?thesis using assms(1) l unfolding sets_ok_def
    by (auto simp: less_Suc_eq split: if_splits)
qed

lemma listeners_of_cleared [simp]: "listeners_of (bus_clear b) n = []"
  by (simp add: listeners_of_def bus_clear_def)

lemma listeners_of_flags [simp]:
  "listeners_of (b\<lparr>eb_internal := x\<rparr>) n = listeners_of b n" "listeners_of (b\<lparr>eb_notifying := x\<rparr>) n = listeners_of b n"
  by (simp_all add: listeners_of_def)

lemma sets_ok_flags [simp]:
  "sets_ok m (b\<lparr>eb_internal := x\<rparr>) = sets_ok m b" "sets_ok m (b\<lparr>eb_notifying := x\<rparr>) = sets_ok m b"
  by (simp_all add: sets_ok_def)

section \<open>The invariant\<close>

text \<open>What is left of the snapshot of emission \<open>i\<close>, and how often a listener was called.\<close>

definition pending :: "nat \<Rightarrow> frame list \<Rightarrow> stored list" where
  "pending i st = concat (map (\<lambda>f. case f of Dispatch j _ ls \<Rightarrow> if j = i then ls else [] | _ \<Rightarrow> []) st)"

definition invocations :: "stored \<Rightarrow> bus_machine \<Rightarrow> nat" where
  "invocations l s = length (filter (\<lambda>(_, l', invoked). l' = l \<and> invoked) (bm_trace s))"

definition reports :: "frame list \<Rightarrow> nat" where
  "reports st = length (filter (\<lambda>f. f = Reporting) st)"

definition observers :: "frame list \<Rightarrow> nat" where
  "observers st = length (filter (\<lambda>f. case f of Observing _ _ \<Rightarrow> True | _ \<Rightarrow> False) st)"

definition flags_ok :: "bus_machine \<Rightarrow> bool" where
  "flags_ok s \<longleftrightarrow> reports (bm_stack s) = of_bool (eb_internal (bm_bus s)) \<and>
    observers (bm_stack s) = of_bool (eb_notifying (bm_bus s))"

definition emissions_ok :: "bus_machine \<Rightarrow> bool" where
  "emissions_ok s \<longleftrightarrow> (\<forall>i. bm_next s \<le> i \<longrightarrow> pending i (bm_stack s) = [])"

definition once_ok :: "bus_machine \<Rightarrow> bool" where
  "once_ok s \<longleftrightarrow> (\<forall>w k. invocations (Once w k) s = 0 \<or>
    invocations (Once w k) s = 1 \<and> w < bm_next s \<and> (\<forall>n. Once w k \<notin> set (listeners_of (bm_bus s) n)))"

definition bus_ok :: "bus_machine \<Rightarrow> bool" where
  "bus_ok s \<longleftrightarrow> sets_ok (bm_next s) (bm_bus s) \<and> flags_ok s \<and> emissions_ok s \<and> once_ok s"

lemma pending_simps [simp]:
  "pending i [] = []"
  "pending i (Dispatch j ev ls # st) = (if j = i then ls else []) @ pending i st"
  "pending i (Running j ev l # st) = pending i st"
  "pending i (Observing n e # st) = pending i st"
  "pending i (Reporting # st) = pending i st"
  by (simp_all add: pending_def)

lemma reports_simps [simp]:
  "reports [] = 0" "reports (Reporting # st) = Suc (reports st)"
  "reports (Dispatch j ev ls # st) = reports st" "reports (Running j ev l # st) = reports st"
  "reports (Observing n e # st) = reports st"
  by (simp_all add: reports_def)

lemma observers_simps [simp]:
  "observers [] = 0" "observers (Observing n e # st) = Suc (observers st)"
  "observers (Dispatch j ev ls # st) = observers st" "observers (Running j ev l # st) = observers st"
  "observers (Reporting # st) = observers st"
  by (simp_all add: observers_def)

lemma invocations_cong: "bm_trace s' = bm_trace s \<Longrightarrow> invocations l s' = invocations l s"
  by (simp add: invocations_def)

lemma pending_ended: "(\<And>ev ls. Dispatch i ev ls \<notin> set st) \<Longrightarrow> pending i st = []"
  by (auto simp: pending_def split: frame.split)

text \<open>A step that neither emits nor handles a listener keeps the invariant if it keeps the sets and flags.\<close>

lemma bus_ok_quietly:
  assumes "bus_ok s" and "sets_ok (bm_next s') (bm_bus s')" and "flags_ok s'"
    and "bm_trace s' = bm_trace s" "bm_next s \<le> bm_next s'"
    and "\<And>i. pending i (bm_stack s') = pending i (bm_stack s)"
    and "\<And>w k n. Once w k \<in> set (listeners_of (bm_bus s') n) \<Longrightarrow> w < bm_next s \<Longrightarrow>
      Once w k \<in> set (listeners_of (bm_bus s) n)"
  shows "bus_ok s'"
proof -
  note same = invocations_cong [OF assms(4)]
  have "emissions_ok s'"
    using assms(1,5,6) unfolding bus_ok_def emissions_ok_def by (metis le_trans)
  moreover have "once_ok s'"
    unfolding once_ok_def same
  proof (intro allI)
    fix w k
    have "invocations (Once w k) s = 0 \<or> invocations (Once w k) s = 1 \<and> w < bm_next s \<and>
      (\<forall>n. Once w k \<notin> set (listeners_of (bm_bus s) n))"
      using assms(1) by (simp add: bus_ok_def once_ok_def)
    then show "invocations (Once w k) s = 0 \<or> invocations (Once w k) s = 1 \<and> w < bm_next s' \<and>
      (\<forall>n. Once w k \<notin> set (listeners_of (bm_bus s') n))"
      using assms(5,7) by (auto intro: less_le_trans)
  qed
  ultimately show ?thesis using assms(2,3) by (simp add: bus_ok_def)
qed

lemma begin_emit_ok:
  assumes "bus_ok s"
  shows "bus_ok (begin_emit ev s)"
proof (cases "map_of (eb_listeners (bm_bus s)) (name_of ev)")
  case None
  then show ?thesis using assms by (simp add: begin_emit_def)
next
  case (Some ls)
  then have ls: "listeners_of (bm_bus s) (name_of ev) = ls" by (simp add: listeners_of_def)
  define s' where "s' = begin_emit ev s"
  have s': "bm_stack s' = Dispatch (bm_next s) ev ls # bm_stack s" "bm_bus s' = bm_bus s"
    "bm_next s' = Suc (bm_next s)" "bm_trace s' = bm_trace s"
    by (simp_all add: s'_def begin_emit_def Some)
  note same = invocations_cong [OF s'(4)]
  have sets: "sets_ok (bm_next s) (bm_bus s)" using assms by (simp add: bus_ok_def)
  have "emissions_ok s'"
    using assms unfolding bus_ok_def emissions_ok_def s' by auto
  moreover have "sets_ok (bm_next s') (bm_bus s')" using sets unfolding s' sets_ok_def by (auto simp: less_Suc_eq)
  moreover have "flags_ok s'" using assms by (simp add: bus_ok_def flags_ok_def s')
  moreover have "once_ok s'" using assms unfolding bus_ok_def once_ok_def same s' by (metis less_SucI)
  ultimately show ?thesis by (simp add: bus_ok_def s'_def)
qed

lemma report_failure_ok:
  assumes "bus_ok s"
  shows "bus_ok (report_failure n e now s)"
proof (cases "n \<noteq> EInternalError \<and> \<not> eb_internal (bm_bus s)")
  case True
  have "bus_ok (s\<lparr>bm_bus := (bm_bus s)\<lparr>eb_internal := True\<rparr>, bm_stack := Reporting # bm_stack s\<rparr>)"
    by (rule bus_ok_quietly [OF assms]) (use assms True in \<open>auto simp: bus_ok_def flags_ok_def\<close>)
  then show ?thesis using True by (simp add: report_failure_def begin_emit_ok)
next
  case False
  then show ?thesis using assms by (auto simp: report_failure_def)
qed

lemma handle_listener_error_ok:
  assumes "bus_ok s"
  shows "bus_ok (handle_listener_error n e now s)"
proof (cases "eb_observer (bm_bus s) \<and> \<not> eb_notifying (bm_bus s)")
  case True
  have "bus_ok (s\<lparr>bm_bus := (bm_bus s)\<lparr>eb_notifying := True\<rparr>, bm_stack := Observing n e # bm_stack s\<rparr>)"
    by (rule bus_ok_quietly [OF assms]) (use assms True in \<open>auto simp: bus_ok_def flags_ok_def\<close>)
  then show ?thesis using True by (simp add: handle_listener_error_def)
next
  case False
  then show ?thesis using report_failure_ok [OF assms] by (auto simp: handle_listener_error_def)
qed

lemma invocations_snoc:
  "bm_trace s' = bm_trace s @ [(j, l', b)] \<Longrightarrow> invocations l s' = invocations l s + of_bool (l' = l \<and> b)"
  by (simp add: invocations_def)

text \<open>Handling the next listener of the innermost emission: passed over, or called with its wrapper gone.\<close>

lemma handled_one_ok:
  assumes ok: "bus_ok s" and st: "bm_stack s = Dispatch i ev (l # ls) # st"
    and s': "bm_stack s' = tp @ Dispatch i ev ls # st" "tp = [] \<or> tp = [Running i ev l]"
      "bm_trace s' = bm_trace s @ [(i, l, b)]" "bm_next s' = bm_next s"
    and flags: "same_flags (bm_bus s) (bm_bus s')"
    and sub: "\<And>m. subseq (listeners_of (bm_bus s') m) (listeners_of (bm_bus s) m)"
    and gone: "\<And>w k. b \<Longrightarrow> l = Once w k \<Longrightarrow> l \<in> set (listeners_of (bm_bus s) (name_of ev)) \<and>
      l \<notin> set (listeners_of (bm_bus s') (name_of ev))"
  shows "bus_ok s'"
proof -
  have sets: "sets_ok (bm_next s) (bm_bus s)" using ok by (simp add: bus_ok_def)
  have p: "pending j (bm_stack s) = (if i = j then [l] else []) @ pending j (bm_stack s')" for j
    using s'(2) by (auto simp: st s'(1))
  have "emissions_ok s'"
    using ok unfolding bus_ok_def emissions_ok_def s'(4) p by (auto split: if_splits)
  moreover have "sets_ok (bm_next s') (bm_bus s')"
    using sets_ok_sub [OF sets _ sub] flags s'(4) by (simp add: same_flags_def)
  moreover have "flags_ok s'"
    using ok flags s'(2) by (auto simp: bus_ok_def flags_ok_def same_flags_def st s'(1))
  moreover have "once_ok s'"
    unfolding once_ok_def invocations_snoc [OF s'(3)]
  proof (intro allI)
    fix w k
    have old: "invocations (Once w k) s = 0 \<or> invocations (Once w k) s = 1 \<and> w < bm_next s \<and>
      (\<forall>n. Once w k \<notin> set (listeners_of (bm_bus s) n))"
      using ok by (simp add: bus_ok_def once_ok_def)
    show "invocations (Once w k) s + of_bool (l = Once w k \<and> b) = 0 \<or>
      invocations (Once w k) s + of_bool (l = Once w k \<and> b) = 1 \<and> w < bm_next s' \<and>
      (\<forall>n. Once w k \<notin> set (listeners_of (bm_bus s') n))"
    proof (cases "l = Once w k \<and> b")
      case False
      then show ?thesis using old s'(4) subseq_set [OF sub] by auto
    next
      case True
      with gone have r: "l \<in> set (listeners_of (bm_bus s) (name_of ev))"
        "l \<notin> set (listeners_of (bm_bus s') (name_of ev))" by auto
      have only: "\<forall>m. l \<in> set (listeners_of (bm_bus s) m) \<longrightarrow> m = name_of ev" and w: "w < bm_next s"
        using sets r(1) True unfolding sets_ok_def by blast+
      have "Once w k \<notin> set (listeners_of (bm_bus s') m)" for m
        using only r(2) True subseq_set [OF sub [of m]] by (cases "m = name_of ev") auto
      moreover have "invocations (Once w k) s = 0" using old r(1) True by auto
      ultimately show ?thesis using True w s'(4) by simp
    qed
  qed
  ultimately show ?thesis by (simp add: bus_ok_def)
qed

lemma dispatch_turn_ok:
  assumes ok: "bus_ok s" and step: "dispatch_turn s = Some s'"
  shows "bus_ok s'"
proof -
  from step obtain i ev ls st where st: "bm_stack s = Dispatch i ev ls # st"
    by (auto simp: dispatch_turn_def split: list.splits frame.splits)
  show ?thesis
  proof (cases ls)
    case Nil
    then have "s' = s\<lparr>bm_stack := st\<rparr>" using step st by (simp add: dispatch_turn_def)
    then show ?thesis
      by (intro bus_ok_quietly [OF ok]) (use ok st Nil in \<open>auto simp: bus_ok_def flags_ok_def\<close>)
  next
    case (Cons l ls')
    note st = st [unfolded Cons]
    show ?thesis
    proof (cases "l \<in> set (listeners_of (bm_bus s) (name_of ev))")
      case False
      then have s': "s' = s\<lparr>bm_stack := Dispatch i ev ls' # st, bm_trace := bm_trace s @ [(i, l, False)]\<rparr>"
        using step st by (simp add: dispatch_turn_def)
      show ?thesis by (rule handled_one_ok [OF ok st, where tp = "[]"]) (simp_all add: s' same_flags_def)
    next
      case True
      define b where "b = (case l of Plain _ \<Rightarrow> bm_bus s | Once _ _ \<Rightarrow> snd (bus_off (name_of ev) l (bm_bus s)))"
      have s': "s' = s\<lparr>bm_stack := Running i ev l # Dispatch i ev ls' # st, bm_bus := b,
          bm_trace := bm_trace s @ [(i, l, True)]\<rparr>"
        using step st True by (simp add: dispatch_turn_def b_def)
      have off: "same_flags (bm_bus s) b \<and> subseq (listeners_of b m) (listeners_of (bm_bus s) m) \<and>
          (\<forall>w k. l = Once w k \<longrightarrow> l \<notin> set (listeners_of b (name_of ev)))" for m
        using bus_off_listeners [of "name_of ev" l "bm_bus s", OF prod.collapse [symmetric]]
        by (cases l) (auto simp: b_def same_flags_def)
      show ?thesis
        by (rule handled_one_ok [OF ok st, where tp = "[Running i ev l]"]) (use off True in \<open>auto simp: s'\<close>)
    qed
  qed
qed

lemma quiet_step_ok: "quiet_step s s' \<Longrightarrow> bus_ok s \<Longrightarrow> bus_ok s'"
proof (induction rule: quiet_step.induct)
  case (turn s s')
  then show ?case by (simp add: dispatch_turn_ok)
next
  case (ended r now s s')
  then obtain i ev l st where st: "bm_stack s = Running i ev l # st"
    by (auto simp: listener_done_def split: list.splits frame.splits)
  have popped: "bus_ok (s\<lparr>bm_stack := st\<rparr>)"
    by (rule bus_ok_quietly [OF ended(2)]) (use ended(2) st in \<open>auto simp: bus_ok_def flags_ok_def\<close>)
  have queued: "bus_ok (s\<lparr>bm_stack := st, bm_rejections := q\<rparr>)" for q
    by (rule bus_ok_quietly [OF ended(2)]) (use ended(2) st in \<open>auto simp: bus_ok_def flags_ok_def\<close>)
  show ?case using ended(1) popped queued handle_listener_error_ok [OF popped]
    by (auto simp: listener_done_def st Let_def split: listener_result.splits option.splits)
next
  case (observed now s s')
  then obtain n e st where st: "bm_stack s = Observing n e # st"
    by (auto simp: observer_done_def split: list.splits frame.splits)
  have "bus_ok (s\<lparr>bm_bus := (bm_bus s)\<lparr>eb_notifying := False\<rparr>, bm_stack := st\<rparr>)"
    by (rule bus_ok_quietly [OF observed(2)]) (use observed(2) st in \<open>auto simp: bus_ok_def flags_ok_def of_bool_def split: if_splits\<close>)
  then show ?case using observed(1) by (auto simp: observer_done_def st report_failure_ok)
next
  case (reported s s')
  then obtain st where st: "bm_stack s = Reporting # st"
    by (auto simp: report_done_def split: list.splits frame.splits)
  have "bus_ok (s\<lparr>bm_bus := (bm_bus s)\<lparr>eb_internal := False\<rparr>, bm_stack := st\<rparr>)"
    by (rule bus_ok_quietly [OF reported(2)]) (use reported(2) st in \<open>auto simp: bus_ok_def flags_ok_def of_bool_def split: if_splits\<close>)
  then show ?case using reported(1) by (simp add: report_done_def st)
next
  case (rejected k now s s')
  have "bus_ok (s\<lparr>bm_rejections := q\<rparr>)" for q
    by (rule bus_ok_quietly [OF rejected(2)]) (use rejected(2) in \<open>auto simp: bus_ok_def flags_ok_def\<close>)
  then show ?case using rejected(1)
    by (auto simp: handle_rejection_def handle_listener_error_ok split: if_splits prod.splits)
qed

lemma bus_step_ok:
  assumes "bus_step s s'" and ok: "bus_ok s"
  shows "bus_ok s'"
  using assms(1)
proof cases
  case quiet
  then show ?thesis using ok by (rule quiet_step_ok)
next
  case (calls_on n k r b)
  note l = bus_on_listeners [OF calls_on(3)]
  show ?thesis unfolding calls_on(1)
    by (rule bus_ok_quietly [OF ok])
      (use ok l sets_ok_on [OF _ calls_on(3)] in \<open>auto simp: bus_ok_def flags_ok_def same_flags_def split: if_splits\<close>)
next
  case (calls_once n k r b)
  obtain r' where on: "bus_on n (Once (bm_next s) k) (bm_bus s) = (r', b)"
    using bus_once_on [OF calls_once(3)] by blast
  note l = bus_on_listeners [OF on]
  show ?thesis unfolding calls_once(1)
    by (rule bus_ok_quietly [OF ok])
      (use ok l sets_ok_once [OF _ calls_once(3)] in \<open>auto simp: bus_ok_def flags_ok_def same_flags_def split: if_splits\<close>)
next
  case (calls_off n target r b)
  note l = bus_off_listeners [OF calls_off(3)]
  have "set (listeners_of b m) \<subseteq> set (listeners_of (bm_bus s) m)" for m
    using l by (simp add: subseq_set)
  moreover have "sets_ok (bm_next s) b"
    by (rule sets_ok_sub [of "bm_next s" "bm_bus s"]) (use ok l in \<open>auto simp: bus_ok_def same_flags_def\<close>)
  ultimately show ?thesis unfolding calls_off(1)
    by (intro bus_ok_quietly [OF ok]) (use ok l in \<open>auto simp: bus_ok_def flags_ok_def same_flags_def\<close>)
next
  case calls_clear
  show ?thesis unfolding calls_clear(1)
    by (rule bus_ok_quietly [OF ok]) (use ok in \<open>auto simp: bus_ok_def flags_ok_def sets_ok_def bus_clear_def listeners_of_def\<close>)
next
  case (calls_emit ev)
  then show ?thesis using begin_emit_ok [OF ok] by simp
qed

lemma new_bus_ok: "new_event_bus o' = Inr b \<Longrightarrow> bus_ok (idle_machine b)"
  by (auto simp: new_event_bus_def idle_machine_def bus_ok_def sets_ok_def flags_ok_def emissions_ok_def once_ok_def
      listeners_of_def invocations_def split: prod.splits if_splits)

lemma bus_reachable_ok:
  assumes "bus_steps (idle_machine b) s" and "new_event_bus o' = Inr b"
  shows "bus_ok s"
  using assms(1) by induction (use new_bus_ok [OF assms(2)] bus_step_ok in auto)

section \<open>An emission serves its snapshot\<close>

text \<open>
  What a run shows of emission \<open>i\<close>, read off its states alone. A turn is a state in which the loop of the
  emission is about to look at a listener, with whether the listener is registered at that moment; a call
  is a step that puts a running listener on the stack.
\<close>

definition turn_of :: "nat \<Rightarrow> bus_machine \<Rightarrow> (stored \<times> bool) list" where
  "turn_of i s =
    (case bm_stack s of
       Dispatch j ev (l # ls) # st \<Rightarrow> if j = i then [(l, l \<in> set (listeners_of (bm_bus s) (name_of ev)))] else []
     | _ \<Rightarrow> [])"

definition turns :: "nat \<Rightarrow> bus_machine list \<Rightarrow> (stored \<times> bool) list" where
  "turns i run = concat (map (turn_of i) run)"

definition call_of :: "nat \<Rightarrow> bus_machine \<Rightarrow> bus_machine \<Rightarrow> stored list" where
  "call_of i s s' =
    (case bm_stack s' of
       Running j ev l # st \<Rightarrow> if j = i \<and> length (bm_stack s) < length (bm_stack s') then [l] else []
     | _ \<Rightarrow> [])"

fun calls :: "nat \<Rightarrow> bus_machine list \<Rightarrow> stored list" where
  "calls i (s # s' # run) = call_of i s s' @ calls i (s' # run)"
| "calls i _ = []"

fun bus_run :: "bus_machine list \<Rightarrow> bool" where
  "bus_run (s # s' # run) \<longleftrightarrow> bus_step s s' \<and> bus_run (s' # run)"
| "bus_run _ \<longleftrightarrow> True"

lemma begin_emit_stack:
  "\<exists>fs. bm_stack (begin_emit ev s) = fs @ bm_stack s \<and> (\<forall>f \<in> set fs. \<exists>j e ls. f = Dispatch j e ls \<and> bm_next s \<le> j)"
  "bm_next s \<le> bm_next (begin_emit ev s)"
  by (cases "map_of (eb_listeners (bm_bus s)) (name_of ev)"; simp add: begin_emit_def)+

text \<open>What one step shows: it takes the turn from what is left, and calls the listener if it is registered.\<close>

definition step_shows :: "nat \<Rightarrow> bus_machine \<Rightarrow> bus_machine \<Rightarrow> bool" where
  "step_shows i s s' \<longleftrightarrow> pending i (bm_stack s) = map fst (turn_of i s) @ pending i (bm_stack s') \<and>
    call_of i s s' = map fst (filter snd (turn_of i s)) \<and> bm_next s \<le> bm_next s'"

lemma begin_emit_parts:
  "i < bm_next s \<Longrightarrow> pending i (bm_stack (begin_emit ev s)) = pending i (bm_stack s)"
  "call_of i t (begin_emit ev s) = (if map_of (eb_listeners (bm_bus s)) (name_of ev) = None then call_of i t s else [])"
  "bm_next s \<le> bm_next (begin_emit ev s)"
  by (simp_all add: begin_emit_def call_of_def split: option.split)

lemma report_failure_parts:
  assumes "i < bm_next s" and "length (bm_stack s) \<le> length (bm_stack t)"
  shows "pending i (bm_stack (report_failure n e now s)) = pending i (bm_stack s)"
    and "call_of i t (report_failure n e now s) = []"
    and "bm_next s \<le> bm_next (report_failure n e now s)"
proof -
  have "call_of i t s = []" using assms(2) by (simp add: call_of_def split: list.split frame.split)
  moreover have "call_of i t (s\<lparr>bm_bus := b, bm_stack := Reporting # st\<rparr>) = []" for b st by (simp add: call_of_def)
  ultimately show "call_of i t (report_failure n e now s) = []"
    by (simp add: report_failure_def begin_emit_parts)
  show "pending i (bm_stack (report_failure n e now s)) = pending i (bm_stack s)"
    "bm_next s \<le> bm_next (report_failure n e now s)"
    using assms(1) begin_emit_parts(1) [of i "s\<lparr>bm_bus := (bm_bus s)\<lparr>eb_internal := True\<rparr>, bm_stack := Reporting # bm_stack s\<rparr>"]
      begin_emit_parts(3) [of "s\<lparr>bm_bus := (bm_bus s)\<lparr>eb_internal := True\<rparr>, bm_stack := Reporting # bm_stack s\<rparr>"]
    by (auto simp: report_failure_def)
qed

lemma handle_listener_error_parts:
  assumes "i < bm_next s" and "length (bm_stack s) \<le> length (bm_stack t)"
  shows "pending i (bm_stack (handle_listener_error n e now s)) = pending i (bm_stack s)"
    and "call_of i t (handle_listener_error n e now s) = []"
    and "bm_next s \<le> bm_next (handle_listener_error n e now s)"
  using report_failure_parts [OF assms]
  by (simp_all add: handle_listener_error_def) (simp add: call_of_def)

lemma dispatch_turn_shows: "dispatch_turn s = Some s' \<Longrightarrow> step_shows i s s'"
  by (auto simp: dispatch_turn_def step_shows_def turn_of_def call_of_def split: list.splits frame.splits if_splits)

lemma quiet_step_shows:
  assumes "quiet_step s s'" and "i < bm_next s"
  shows "step_shows i s s'"
  using assms(1)
proof cases
  case turn
  then show ?thesis by (rule dispatch_turn_shows)
next
  case (ended r now)
  then obtain j ev l st where st: "bm_stack s = Running j ev l # st"
    by (auto simp: listener_done_def split: list.splits frame.splits)
  have none: "turn_of i s = []" by (simp add: turn_of_def st)
  have "call_of i s (s\<lparr>bm_stack := st, bm_rejections := q\<rparr>) = []" "call_of i s (s\<lparr>bm_stack := st\<rparr>) = []" for q
    by (simp_all add: call_of_def st split: list.split frame.split)
  moreover note handle_listener_error_parts [of i "s\<lparr>bm_stack := st\<rparr>" s]
  ultimately show ?thesis using ended assms(2)
    by (auto simp: listener_done_def st Let_def step_shows_def none split: listener_result.splits option.splits)
next
  case (observed now)
  then obtain n e st where st: "bm_stack s = Observing n e # st"
    by (auto simp: observer_done_def split: list.splits frame.splits)
  then show ?thesis
    using observed assms(2) report_failure_parts [of i "s\<lparr>bm_bus := (bm_bus s)\<lparr>eb_notifying := False\<rparr>, bm_stack := st\<rparr>" s]
    by (auto simp: observer_done_def step_shows_def turn_of_def)
next
  case reported
  then show ?thesis
    by (auto simp: report_done_def step_shows_def turn_of_def call_of_def split: list.splits frame.splits)
next
  case (rejected k now)
  then obtain n e where "bm_stack s = []" and s': "s' = handle_listener_error n e now
      (s\<lparr>bm_rejections := take k (bm_rejections s) @ drop (Suc k) (bm_rejections s)\<rparr>)"
    by (auto simp: handle_rejection_def split: if_splits prod.splits)
  then show ?thesis using assms(2)
    handle_listener_error_parts [of i "s\<lparr>bm_rejections := take k (bm_rejections s) @ drop (Suc k) (bm_rejections s)\<rparr>" s n e now]
    by (simp add: step_shows_def turn_of_def)
qed

lemma bus_step_shows:
  assumes "bus_step s s'" and "i < bm_next s"
  shows "step_shows i s s'"
proof (cases "quiet_step s s'")
  case True
  then show ?thesis using assms(2) by (rule quiet_step_shows)
next
  case False
  then have user: "user_turn s" using assms(1) by (auto elim: bus_step.cases)
  then have none: "turn_of i s = []" by (auto simp: user_turn_def turn_of_def split: list.splits frame.splits)
  have same: "call_of i s (s\<lparr>bm_bus := b\<rparr>) = []" "call_of i s (s\<lparr>bm_bus := b, bm_next := m\<rparr>) = []" "call_of i s s = []" for b m
    by (simp_all add: call_of_def split: list.split frame.split)
  from assms(1) show ?thesis
    by cases (use False assms(2) none same begin_emit_parts in \<open>auto simp: step_shows_def\<close>)
qed

text \<open>Along a run: what is left is taken turn by turn, and the registered ones of it are called.\<close>

lemma run_shows:
  assumes "bus_run (s # run)" and "i < bm_next s" and "pending i (bm_stack (last (s # run))) = []"
  shows "map fst (turns i (s # run)) = pending i (bm_stack s) \<and>
    calls i (s # run) = map fst (filter snd (turns i (s # run)))"
  using assms
proof (induction run arbitrary: s)
  case Nil
  have "turn_of i s = []" using Nil(3) by (auto simp: turn_of_def split: list.split frame.split if_splits)
  then show ?case using Nil(3) by (simp add: turns_def)
next
  case (Cons s' run)
  have step: "step_shows i s s'" using Cons.prems(1,2) by (simp add: bus_step_shows)
  then have "map fst (turns i (s' # run)) = pending i (bm_stack s') \<and>
      calls i (s' # run) = map fst (filter snd (turns i (s' # run)))"
    using Cons.prems by (intro Cons.IH) (simp_all add: step_shows_def)
  then show ?case using step by (simp add: step_shows_def turns_def)
qed

lemma emission_served:
  assumes "bus_ok s" and "map_of (eb_listeners (bm_bus s)) (name_of ev) = Some ls"
    and "bus_run (begin_emit ev s # run)"
    and "\<And>e rest. Dispatch (bm_next s) e rest \<notin> set (bm_stack (last (begin_emit ev s # run)))"
  shows "map fst (turns (bm_next s) (begin_emit ev s # run)) = ls \<and>
    calls (bm_next s) (begin_emit ev s # run) = map fst (filter snd (turns (bm_next s) (begin_emit ev s # run))) \<and>
    distinct ls"
proof -
  have "listeners_of (bm_bus s) (name_of ev) = ls" using assms(2) by (simp add: listeners_of_def)
  then have "distinct ls" using assms(1) by (auto simp: bus_ok_def sets_ok_def)
  moreover have "pending (bm_next s) (bm_stack (begin_emit ev s)) = ls"
    using assms(1,2) by (simp add: begin_emit_def bus_ok_def emissions_ok_def)
  moreover have "bm_next s < bm_next (begin_emit ev s)" using assms(2) by (simp add: begin_emit_def)
  ultimately show ?thesis using run_shows [OF assms(3) _ pending_ended [OF assms(4)]] by simp
qed

section \<open>Dispatch ends\<close>

text \<open>
  What a failure of a listener of \<open>n\<close> may still cost: nothing more for the internal error event, whose
  failures are only logged, otherwise one report and the dispatch of the internal error event to at most
  \<open>M\<close> listeners.
\<close>

definition failure_weight :: "nat \<Rightarrow> event_name \<Rightarrow> nat" where
  "failure_weight M n = (if n = EInternalError then 0 else 2 + 4 * M)"

fun frame_weight :: "nat \<Rightarrow> frame \<Rightarrow> nat" where
  "frame_weight M (Dispatch _ ev ls) = 1 + length ls * (4 + failure_weight M (name_of ev))"
| "frame_weight M (Running _ ev _) = 3 + failure_weight M (name_of ev)"
| "frame_weight M (Observing n _) = 1 + failure_weight M n"
| "frame_weight M Reporting = 1"

definition bus_weight :: "bus_machine \<Rightarrow> nat" where
  "bus_weight s =
    sum_list (map (frame_weight (eb_max (bm_bus s))) (bm_stack s)) +
    sum_list (map (\<lambda>(n, _). 2 + failure_weight (eb_max (bm_bus s)) n) (bm_rejections s))"

lemma report_failure_weight:
  assumes "sets_ok m (bm_bus s)"
  shows "bus_weight (report_failure n e now s) \<le> bus_weight s + failure_weight (eb_max (bm_bus s)) n"
proof (cases "n \<noteq> EInternalError \<and> \<not> eb_internal (bm_bus s)")
  case True
  show ?thesis
  proof (cases "map_of (eb_listeners (bm_bus s)) EInternalError")
    case None
    then show ?thesis using True by (simp add: report_failure_def begin_emit_def bus_weight_def failure_weight_def)
  next
    case (Some ls)
    then have "length ls \<le> eb_max (bm_bus s)"
      using assms by (auto simp: sets_ok_def listeners_of_def dest!: spec [of _ EInternalError])
    then show ?thesis using True Some
      by (simp add: report_failure_def begin_emit_def bus_weight_def failure_weight_def)
  qed
next
  case False
  then show ?thesis by (auto simp: report_failure_def)
qed

lemma handle_listener_error_weight:
  assumes "sets_ok m (bm_bus s)"
  shows "bus_weight (handle_listener_error n e now s) \<le> bus_weight s + 1 + failure_weight (eb_max (bm_bus s)) n"
  using report_failure_weight [OF assms, of n e now] by (auto simp: handle_listener_error_def bus_weight_def)

lemma bus_off_max [simp]: "eb_max (snd (bus_off n t b)) = eb_max b"
  using bus_off_listeners [of n t b, OF prod.collapse [symmetric]] by (simp add: same_flags_def)

lemma rejection_weight:
  fixes g :: "'a \<Rightarrow> nat"
  assumes "k < length xs"
  shows "sum_list (map g xs) = sum_list (map g (take k xs @ drop (Suc k) xs)) + g (xs ! k)"
proof -
  have "sum_list (map g xs) = sum_list (map g (take k xs @ xs ! k # drop (Suc k) xs))"
    by (simp only: id_take_nth_drop [OF assms, symmetric])
  then show ?thesis by simp
qed

lemma dispatch_turn_weight: "dispatch_turn s = Some s' \<Longrightarrow> bus_weight s' < bus_weight s"
  by (auto simp: dispatch_turn_def bus_weight_def split: list.splits frame.splits if_splits stored.splits)

lemma quiet_step_weight: "quiet_step s s' \<Longrightarrow> bus_ok s \<Longrightarrow> bus_weight s' < bus_weight s"
proof (induction rule: quiet_step.induct)
  case (turn s s')
  then show ?case by (simp add: dispatch_turn_weight)
next
  case (ended r now s s')
  then obtain i ev l st where st: "bm_stack s = Running i ev l # st"
    by (auto simp: listener_done_def split: list.splits frame.splits)
  have "sets_ok (bm_next s) (bm_bus (s\<lparr>bm_stack := st\<rparr>))" using ended(2) by (simp add: bus_ok_def)
  note h = handle_listener_error_weight [OF this]
  have "bus_weight s = bus_weight (s\<lparr>bm_stack := st\<rparr>) + 3 + failure_weight (eb_max (bm_bus s)) (name_of ev)"
    by (simp add: bus_weight_def st)
  note w = this
  have "bus_weight (s\<lparr>bm_stack := st\<rparr>) < bus_weight s" using w by simp
  moreover have "bus_weight (s\<lparr>bm_stack := st, bm_rejections := bm_rejections s @ [(name_of ev, e)]\<rparr>) < bus_weight s" for e
    by (simp add: bus_weight_def st)
  moreover have "bus_weight (handle_listener_error (name_of ev) e now (s\<lparr>bm_stack := st\<rparr>)) < bus_weight s" for e
    using h [of "name_of ev" e now] w by simp
  ultimately show ?case using ended(1)
    by (auto simp: listener_done_def st Let_def split: listener_result.splits option.splits)
next
  case (observed now s s')
  then obtain n e st where st: "bm_stack s = Observing n e # st"
    by (auto simp: observer_done_def split: list.splits frame.splits)
  let ?t = "s\<lparr>bm_bus := (bm_bus s)\<lparr>eb_notifying := False\<rparr>, bm_stack := st\<rparr>"
  have "sets_ok (bm_next s) (bm_bus ?t)" using observed(2) by (simp add: bus_ok_def)
  note h = report_failure_weight [OF this, of n e now]
  have "bus_weight s = bus_weight ?t + 1 + failure_weight (eb_max (bm_bus s)) n"
    by (simp add: bus_weight_def st)
  then show ?case using observed(1) h by (simp add: observer_done_def st le_imp_less_Suc)
next
  case (reported s s')
  then show ?case by (auto simp: report_done_def bus_weight_def split: list.splits frame.splits)
next
  case (rejected k now s s')
  obtain n e where ne: "bm_rejections s ! k = (n, e)" by fastforce
  let ?t = "s\<lparr>bm_rejections := take k (bm_rejections s) @ drop (Suc k) (bm_rejections s)\<rparr>"
  from rejected have k: "k < length (bm_rejections s)" and s': "s' = handle_listener_error n e now ?t"
    by (auto simp: handle_rejection_def ne split: if_splits)
  have "sets_ok (bm_next s) (bm_bus ?t)" using rejected(2) by (simp add: bus_ok_def)
  note h = handle_listener_error_weight [OF this, of n e now]
  have "bus_weight s = bus_weight ?t + 2 + failure_weight (eb_max (bm_bus s)) n"
    unfolding bus_weight_def by (subst rejection_weight [OF k]) (simp add: ne)
  then show ?case using h by (simp add: s')
qed

lemma quiet_run_bounded: "(quiet_step ^^ n) s s' \<Longrightarrow> bus_ok s \<Longrightarrow> n + bus_weight s' \<le> bus_weight s \<and> bus_ok s'"
proof (induction n arbitrary: s')
  case (Suc n)
  then obtain t where "(quiet_step ^^ n) s t" "quiet_step t s'" by auto
  then show ?case using Suc.IH [of t] Suc.prems(2) quiet_step_weight [of t s'] quiet_step_ok [of t s'] by auto
qed simp

text \<open>As long as a call is active or a rejection waits, some step is possible.\<close>

lemma quiet_progress:
  assumes "bm_stack s \<noteq> [] \<or> bm_rejections s \<noteq> []"
  shows "\<exists>s'. quiet_step s s'"
proof (cases "bm_stack s")
  case Nil
  then have "handle_rejection 0 now s \<noteq> None" for now
    using assms by (auto simp: handle_rejection_def split: prod.splits)
  then show ?thesis using quiet_step.rejected by blast
next
  case (Cons f st)
  show ?thesis
  proof (cases f)
    case (Dispatch i ev ls)
    then have "dispatch_turn s \<noteq> None" using Cons by (auto simp: dispatch_turn_def split: list.splits)
    then show ?thesis using quiet_step.turn by blast
  next
    case (Running i ev l)
    then have "listener_done Returned [] s \<noteq> None" using Cons by (simp add: listener_done_def Let_def)
    then show ?thesis using quiet_step.ended by blast
  next
    case (Observing n e)
    then have "observer_done [] s \<noteq> None" using Cons by (simp add: observer_done_def)
    then show ?thesis using quiet_step.observed by blast
  next
    case Reporting
    then have "report_done s \<noteq> None" using Cons by (simp add: report_done_def)
    then show ?thesis using quiet_step.reported by blast
  qed
qed

section \<open>A run\<close>

text \<open>A once listener fails; there is no observer, and nobody listens to the internal error event.\<close>

definition demo_bus :: event_bus where
  "demo_bus = \<lparr>eb_listeners = [], eb_max = 100, eb_observer = False, eb_internal = False, eb_notifying = False\<rparr>"

lemma demo_bus_new: "new_event_bus NoOptions = Inr demo_bus"
  by (simp add: new_event_bus_def resolve_options_def demo_bus_def DEFAULT_MAX_LISTENERS_def)

definition demo_event :: runtime_event where
  "demo_event = Started ''r'' ''now''"

definition demo_failing :: bus_machine where
  "demo_failing = \<lparr>bm_bus = demo_bus\<lparr>eb_listeners := [(EStarted, [])]\<rparr>,
    bm_stack = [Running 1 demo_event (Once 0 7), Dispatch 1 demo_event []], bm_rejections = [], bm_next = 2, bm_trace = [(1, Once 0 7, True)]\<rparr>"

definition demo_reporting :: bus_machine where
  "demo_reporting = demo_failing\<lparr>bm_bus := (bm_bus demo_failing)\<lparr>eb_internal := True\<rparr>,
    bm_stack := [Reporting, Dispatch 1 demo_event []]\<rparr>"

definition demo_done :: bus_machine where
  "demo_done = demo_failing\<lparr>bm_stack := []\<rparr>"

lemma demo_failing_reached: "bus_steps (idle_machine demo_bus) demo_failing"
proof -
  let ?b = "demo_bus\<lparr>eb_listeners := [(EStarted, [Once 0 7])]\<rparr>"
  let ?s = "(idle_machine demo_bus)\<lparr>bm_bus := ?b, bm_next := 1\<rparr>"
  have on: "bus_once 0 EStarted 7 demo_bus = (Inr (CallOff EStarted (Once 0 7)), ?b)"
    by (simp add: bus_once_def bus_on_def get_or_create_listeners_def set_listeners_def listeners_of_def set_add_def
        demo_bus_def)
  have "bus_step (idle_machine demo_bus) ?s"
    using bus_step.calls_once [of "idle_machine demo_bus", where n = EStarted and k = 7] on
    by (simp add: user_turn_def idle_machine_def)
  moreover have "bus_step ?s (begin_emit demo_event ?s)"
    by (rule calls_emit) (simp add: user_turn_def idle_machine_def)
  moreover have "dispatch_turn (begin_emit demo_event ?s) = Some demo_failing"
    by (simp add: begin_emit_def dispatch_turn_def idle_machine_def demo_event_def demo_failing_def listeners_of_def
        bus_off_def set_listeners_def set_del_def demo_bus_def)
  ultimately show ?thesis
    by (meson quiet turn converse_rtranclp_into_rtranclp rtranclp.rtrancl_refl)
qed

lemma demo_reports: "quiet_step demo_failing demo_reporting"
proof (rule ended)
  show "listener_done (Raised (ThrownError (Inr (JStr ''boom'')))) ''now'' demo_failing = Some demo_reporting"
    by (simp add: listener_done_def handle_listener_error_def report_failure_def begin_emit_def demo_failing_def
        demo_reporting_def demo_bus_def demo_event_def)
qed

lemma demo_finishes: "(quiet_step ^^ 3) demo_failing demo_done"
proof -
  let ?s = "demo_failing\<lparr>bm_stack := [Dispatch 1 demo_event []]\<rparr>"
  have "report_done demo_reporting = Some ?s"
    by (simp add: report_done_def demo_reporting_def demo_failing_def demo_bus_def)
  moreover have "dispatch_turn ?s = Some demo_done" by (simp add: dispatch_turn_def demo_done_def)
  ultimately show ?thesis
    using demo_reports by (auto simp: numeral_eq_Suc intro: reported turn)
qed

lemma demo_done_reached: "bus_steps (idle_machine demo_bus) demo_done"
proof -
  have "bus_steps demo_failing demo_done"
    using relpowp_imp_rtranclp [OF demo_finishes] by (rule rtranclp_mono [THEN predicate2D, rotated]) (auto intro: quiet)
  then show ?thesis using demo_failing_reached by auto
qed
text \<open>The first of two listeners takes the second one off while it runs.\<close>

definition demo_at :: "frame list \<Rightarrow> stored list \<Rightarrow> nat \<Rightarrow> (nat \<times> stored \<times> bool) list \<Rightarrow> bus_machine" where
  "demo_at st ls next tr = \<lparr>bm_bus = demo_bus\<lparr>eb_listeners := [(EStarted, ls)]\<rparr>, bm_stack = st, bm_rejections = [],
    bm_next = next, bm_trace = tr\<rparr>"

definition demo_pair :: bus_machine where
  "demo_pair = demo_at [] [Plain 1, Plain 2] 0 []"

definition demo_rest :: "bus_machine list" where
  "demo_rest =
    [demo_at [Running 0 demo_event (Plain 1), Dispatch 0 demo_event [Plain 2]] [Plain 1, Plain 2] 1 [(0, Plain 1, True)],
     demo_at [Running 0 demo_event (Plain 1), Dispatch 0 demo_event [Plain 2]] [Plain 1] 1 [(0, Plain 1, True)],
     demo_at [Dispatch 0 demo_event [Plain 2]] [Plain 1] 1 [(0, Plain 1, True)],
     demo_at [Dispatch 0 demo_event []] [Plain 1] 1 [(0, Plain 1, True), (0, Plain 2, False)],
     demo_at [] [Plain 1] 1 [(0, Plain 1, True), (0, Plain 2, False)]]"

lemma demo_pair_begun: "begin_emit demo_event demo_pair = demo_at [Dispatch 0 demo_event [Plain 1, Plain 2]] [Plain 1, Plain 2] 1 []"
  by (simp add: begin_emit_def demo_pair_def demo_at_def demo_event_def)

lemma demo_pair_reached: "bus_steps (idle_machine demo_bus) demo_pair"
proof -
  have on: "bus_on EStarted (Plain 1) demo_bus = (Inr (CallOff EStarted (Plain 1)), demo_bus\<lparr>eb_listeners := [(EStarted, [Plain 1])]\<rparr>)"
    "bus_on EStarted (Plain 2) (demo_bus\<lparr>eb_listeners := [(EStarted, [Plain 1])]\<rparr>) =
      (Inr (CallOff EStarted (Plain 2)), demo_bus\<lparr>eb_listeners := [(EStarted, [Plain 1, Plain 2])]\<rparr>)"
    by (simp_all add: bus_on_def get_or_create_listeners_def set_listeners_def listeners_of_def set_add_def demo_bus_def)
  have "bus_step (idle_machine demo_bus) (demo_at [] [Plain 1] 0 [])"
    using bus_step.calls_on [of "idle_machine demo_bus", where n = EStarted and k = 1] on(1)
    by (simp add: user_turn_def idle_machine_def demo_at_def)
  moreover have "bus_step (demo_at [] [Plain 1] 0 []) demo_pair"
    using bus_step.calls_on [of "demo_at [] [Plain 1] 0 []", where n = EStarted and k = 2] on(2)
    by (simp add: user_turn_def demo_pair_def demo_at_def)
  ultimately show ?thesis by auto
qed

lemma demo_pair_run: "bus_run (begin_emit demo_event demo_pair # demo_rest)"
proof -
  let ?calling = "[Running 0 demo_event (Plain 1), Dispatch 0 demo_event [Plain 2]]" and ?t = "[(0, Plain 1, True)]"
  have "dispatch_turn (demo_at [Dispatch 0 demo_event [Plain 1, Plain 2]] [Plain 1, Plain 2] 1 []) = Some (demo_at ?calling [Plain 1, Plain 2] 1 ?t)"
    "dispatch_turn (demo_at [Dispatch 0 demo_event [Plain 2]] [Plain 1] 1 ?t) = Some (demo_at [Dispatch 0 demo_event []] [Plain 1] 1 (?t @ [(0, Plain 2, False)]))"
    "dispatch_turn (demo_at [Dispatch 0 demo_event []] [Plain 1] 1 (?t @ [(0, Plain 2, False)])) = Some (demo_at [] [Plain 1] 1 (?t @ [(0, Plain 2, False)]))"
    by (simp_all add: dispatch_turn_def demo_at_def listeners_of_def demo_event_def)
  moreover have "listener_done Returned [] (demo_at ?calling [Plain 1] 1 ?t) = Some (demo_at [Dispatch 0 demo_event [Plain 2]] [Plain 1] 1 ?t)"
    by (simp add: listener_done_def demo_at_def)
  moreover have "bus_step (demo_at ?calling [Plain 1, Plain 2] 1 ?t) (demo_at ?calling [Plain 1] 1 ?t)"
    using bus_step.calls_off [of "demo_at ?calling [Plain 1, Plain 2] 1 ?t" EStarted "Plain 2"]
    by (simp add: user_turn_def demo_at_def bus_off_def set_listeners_def set_del_def)
  ultimately show ?thesis
    by (simp add: demo_pair_begun demo_rest_def quiet turn ended [of Returned "[]"])
qed

end
