(* ===== verification/Agent_Runtime.thy ===== *)
theory Agent_Runtime
  imports Task_Safety Keyed_Stores Runtime_Events
begin

text \<open>
  \<open>AgentRuntime\<close> of \<open>src/runtime/agent-runtime.ts\<close>: start, stop with its drain, and \<open>executeTask\<close> over
  the task runner. \<open>executeTask\<close> is cut at the points where other code may run: at its awaits and at
  the emissions, whose listeners may call the runtime again. The logger is taken not to call the runtime,
  and the reconciliation step may emit any receipt once the runtime was started.

  A call of \<open>executeTask\<close> has a number, which is also the identity of its \<open>inFlightPromise\<close> and of the
  call of \<open>TaskRunner.run\<close> it makes. The second part puts one runtime on top of the system of
  \<open>Task_Safety\<close>.
\<close>

section \<open>The runtime\<close>

text \<open>Where \<open>stop\<close> is: in the drain with the promises it waits for, about to finish, or done.\<close>

datatype stop_phase = NotStopping | Draining "nat list" | Finishing | StopDone

record agent_runtime =
  ag_id :: string
  ag_started :: bool
  ag_stopped :: bool
  ag_tasks :: "string list"
  ag_promises :: "(string, nat) table"
  ag_resolved :: "nat list"
  ag_stop :: stop_phase
  ag_drain :: "nat option"
  ag_clear :: bool
  ag_agents :: agent_manager
  ag_executor :: executor

definition new_agent_runtime :: "string \<Rightarrow> agent_manager \<Rightarrow> executor \<Rightarrow> agent_runtime" where
  "new_agent_runtime i agents ex = \<lparr>ag_id = i, ag_started = False, ag_stopped = False, ag_tasks = [],
    ag_promises = [], ag_resolved = [], ag_stop = NotStopping, ag_drain = None, ag_clear = False,
    ag_agents = agents, ag_executor = ex\<rparr>"

definition is_running :: "agent_runtime \<Rightarrow> bool" where
  "is_running r = ag_started r"

definition in_flight_task_count :: "agent_runtime \<Rightarrow> nat" where
  "in_flight_task_count r = length (ag_tasks r)"

definition runtime_start :: "string \<Rightarrow> agent_runtime \<Rightarrow> unit res \<times> agent_runtime \<times> runtime_event list" where
  "runtime_start now r =
    (if ag_started r
     then (Inl (RuntimeError RUNTIME_ALREADY_STARTED ''AgentRuntime has already been started.'' None), r, [])
     else if ag_stopped r
     then (Inl (RuntimeError RUNTIME_ALREADY_STOPPED
       ''AgentRuntime has already been stopped and cannot be restarted.'' None), r, [])
     else (Inr (), r\<lparr>ag_started := True\<rparr>, [Started (ag_id r) now]))"

section \<open>Stopping\<close>

definition drain_range_error :: js_error where
  "drain_range_error = RangeErr (''drainTimeoutMs must be an integer between 0 and '' @
    nat_str (nat MAX_TIMER_DELAY_MS) @ ''.'')"

text \<open>
  The synchronous part of \<open>stop\<close>, up to the first await of \<open>finishStop\<close>. \<open>Inr True\<close>: the promise of this
  or an earlier stop; \<open>Inr False\<close>: nothing to stop.
\<close>

definition drain_phase :: "nat option \<Rightarrow> agent_runtime \<Rightarrow> stop_phase" where
  "drain_phase drain r =
    (case drain of
       None \<Rightarrow> Finishing
     | Some ms \<Rightarrow> if 0 < ms \<and> ag_promises r \<noteq> [] then Draining (map snd (ag_promises r)) else Finishing)"

definition runtime_stop :: "jsnum option \<Rightarrow> bool \<Rightarrow> agent_runtime \<Rightarrow> bool res \<times> agent_runtime" where
  "runtime_stop drain clear r =
    (if ag_stop r \<noteq> NotStopping then (Inr True, r)
     else if \<not> ag_started r \<or> ag_stopped r then (Inr False, r)
     else if (case drain of None \<Rightarrow> False | Some v \<Rightarrow> \<not> integer_within 0 MAX_TIMER_DELAY_MS v)
     then (Inl drain_range_error, r)
     else let d = map_option (\<lambda>v. nat (num_int v)) drain in
       (Inr True, r\<lparr>ag_stopped := True, ag_started := False, ag_drain := d, ag_clear := clear,
         ag_stop := drain_phase d r\<rparr>))"

text \<open>The race of \<open>awaitInFlightTasks\<close>: every promise it waits for is resolved, or the timer fires.\<close>

definition drain_over :: "bool \<Rightarrow> agent_runtime \<Rightarrow> agent_runtime option" where
  "drain_over timer r =
    (case ag_stop r of
       Draining ps \<Rightarrow> if timer \<or> set ps \<subseteq> set (ag_resolved r) then Some (r\<lparr>ag_stop := Finishing\<rparr>) else None
     | _ \<Rightarrow> None)"

text \<open>The rest of \<open>finishStop\<close>: the event, whether the listeners are cleared, and the runtime.\<close>

definition stranded_tasks :: "agent_runtime \<Rightarrow> string list" where
  "stranded_tasks r = (case ag_drain r of None \<Rightarrow> [] | Some _ \<Rightarrow> ag_tasks r)"

definition finish_stop :: "string \<Rightarrow> int \<Rightarrow> agent_runtime \<Rightarrow> (runtime_event \<times> bool \<times> agent_runtime) option" where
  "finish_stop now elapsed r =
    (case ag_stop r of
       Finishing \<Rightarrow> Some (
         Stopped (ag_id r) now (if stranded_tasks r = [] then None else Some (stranded_tasks r)) (Some elapsed),
         ag_clear r,
         r\<lparr>ag_tasks := [], ag_promises := [], ag_stop := StopDone\<rparr>)
     | _ \<Rightarrow> None)"

section \<open>Executing a task\<close>

definition duplicate_task_error :: "string \<Rightarrow> js_error" where
  "duplicate_task_error t = RuntimeError DUPLICATE_IN_FLIGHT_TASK
    (''Task '' @ quoted t @ '' is already in flight.'') (Some [(''taskId'', JStr t)])"

text \<open>Up to the emission of the received event; \<open>x\<close> is the call.\<close>

definition execute_begin ::
  "nat \<Rightarrow> runtime_task \<Rightarrow> string \<Rightarrow> agent_runtime \<Rightarrow> agent_instance res \<times> agent_runtime \<times> runtime_event list" where
  "execute_begin x t now r =
    (case and_then (assert_runtime_started (ag_started r)) (\<lambda>_. assert_task_fields t) of
       Inl e \<Rightarrow> (Inl e, r, [])
     | Inr _ \<Rightarrow>
         if ta_task t \<in> set (ag_tasks r) then (Inl (duplicate_task_error (ta_task t)), r, [])
         else (case get_or_create (ag_agents r) (JStr (ta_agent t)) now of
             Inl e \<Rightarrow> (Inl e, r, [])
           | Inr (agent, agents) \<Rightarrow>
               (Inr agent,
                r\<lparr>ag_agents := agents, ag_tasks := set_add (ta_task t) (ag_tasks r),
                  ag_promises := AList.update (ta_task t) x (ag_promises r)\<rparr>,
                [TaskReceived (ag_id r) (ta_task t) (ta_agent t)])))"

text \<open>What is emitted when \<open>run\<close> has settled.\<close>

definition failure_reason :: "js_error \<Rightarrow> string" where
  "failure_reason e = (case error_message e of Some m \<Rightarrow> m | None \<Rightarrow> ''Unknown runtime failure.'')"

definition announcement :: "string \<Rightarrow> runtime_task \<Rightarrow> task_result res \<Rightarrow> runtime_event" where
  "announcement i t outcome =
    (case outcome of
       Inr res \<Rightarrow> TaskCompleted i (ta_task t) (ta_agent t) (ta_tool t) (tr_duration res)
     | Inl e \<Rightarrow> TaskFailed i (ta_task t) (ta_agent t) (failure_reason e))"

definition release_task :: "nat \<Rightarrow> runtime_task \<Rightarrow> agent_runtime \<Rightarrow> agent_runtime" where
  "release_task x t r =
    (let r = r\<lparr>ag_executor := reset (ta_task t) (ag_executor r)\<rparr> in
     if map_of (ag_promises r) (ta_task t) = Some x
     then r\<lparr>ag_tasks := set_del (ta_task t) (ag_tasks r),
       ag_promises := AList.delete (ta_task t) (ag_promises r), ag_resolved := x # ag_resolved r\<rparr>
     else r)"

datatype exec_phase =
    Reserved
  | InRun
  | Announced "task_result res"
  | Deferred nat "task_result res"
  | Released "task_result res"

text \<open>The \<open>finally\<close> block, given what \<open>getActiveExecution\<close> answers.\<close>

definition execute_finally ::
  "nat \<Rightarrow> runtime_task \<Rightarrow> task_result res \<Rightarrow> nat option \<Rightarrow> agent_runtime \<Rightarrow> exec_phase \<times> agent_runtime" where
  "execute_finally x t outcome active r =
    (case active of
       None \<Rightarrow> (Released outcome, release_task x t r)
     | Some y \<Rightarrow> (Deferred y outcome, r))"

section \<open>Reconciling\<close>

text \<open>\<open>Inr\<close> comes with the event that is emitted.\<close>

definition runtime_reconcile ::
  "'s reconcile_env \<Rightarrow> string \<Rightarrow> agent_runtime \<Rightarrow> 's \<Rightarrow> (receipt \<times> runtime_event) res \<times> 's" where
  "runtime_reconcile env t r s =
    (case and_then (assert_runtime_started (ag_started r)) (\<lambda>_.
        assert_non_empty_value (JStr t) ''taskId'' INVALID_TASK) of
       Inl e \<Rightarrow> (Inl e, s)
     | Inr _ \<Rightarrow>
         if t \<in> set (ag_tasks r)
         then (Inl (reconcile_error TASK_RECONCILIATION_CONFLICT
           (''Task '' @ quoted t @ '' is still reserved by this runtime and cannot be reconciled.'') t), s)
         else (case reconcile env t s of
             (Inl e, s) \<Rightarrow> (Inl e, s)
           | (Inr receipt, s) \<Rightarrow> (Inr (receipt, TaskReconciled (ag_id r) receipt), s)))"

section \<open>One runtime over the task system\<close>

record execution =
  xc_task :: runtime_task
  xc_phase :: exec_phase

text \<open>\<open>wo_runner\<close> is the task runner of the runtime. An event is tagged with the call it belongs to.\<close>

record runtime_world =
  wo_system :: system
  wo_runner :: nat
  wo_runtime :: agent_runtime
  wo_execs :: "nat \<Rightarrow> execution option"
  wo_events :: "(nat option \<times> runtime_event) list"

definition emits :: "nat option \<Rightarrow> runtime_event list \<Rightarrow> runtime_world \<Rightarrow> runtime_world" where
  "emits x evs w = w\<lparr>wo_events := wo_events w @ map (Pair x) evs\<rparr>"

definition with_runtime :: "agent_runtime \<Rightarrow> runtime_world \<Rightarrow> runtime_world" where
  "with_runtime r w = w\<lparr>wo_runtime := r\<rparr>"

definition with_exec :: "nat \<Rightarrow> execution \<Rightarrow> runtime_world \<Rightarrow> runtime_world" where
  "with_exec x e w = w\<lparr>wo_execs := (wo_execs w)(x \<mapsto> e)\<rparr>"

text \<open>The call of \<open>run\<close> with the context \<open>executeTask\<close> built: its task and agent are those of the task.\<close>

definition run_called :: "nat \<Rightarrow> runtime_task \<Rightarrow> nat \<Rightarrow> system \<Rightarrow> system" where
  "run_called x t p s = with_call x \<lparr>ca_runner = p, ca_task = t,
    ca_wait = run_begin t (ta_task t) (Some (ta_agent t)) (sy_runners s p),
    ca_answer = None, ca_invoked = False, ca_live = False\<rparr> s"

text \<open>
  Pieces of the runtime, and steps of the rest of the system: its stores, tools and timers, and other
  callers of this or other runners, which number their calls differently. The system may also let the
  runtime's own process crash; the runtime would then end, and what it still does here is more than it
  can do. The release of a claim by \<open>reconcileUnknownOutcome\<close> is a step of the system; its event may come
  after a stop, but never before the start its guard asks for.
\<close>

inductive world_step :: "runtime_world \<Rightarrow> runtime_world \<Rightarrow> bool" where
  start: "runtime_start now (wo_runtime w) = (res, r, evs) \<Longrightarrow> world_step w (emits None evs (with_runtime r w))"
| stop: "runtime_stop drain clear (wo_runtime w) = (res, r) \<Longrightarrow> world_step w (with_runtime r w)"
| drained: "drain_over timer (wo_runtime w) = Some r \<Longrightarrow> world_step w (with_runtime r w)"
| finish: "finish_stop now elapsed (wo_runtime w) = Some (ev, clear, r) \<Longrightarrow>
    world_step w (emits None [ev] (with_runtime r w))"
| reject: "execute_begin x t now (wo_runtime w) = (Inl e, r, evs) \<Longrightarrow> world_step w (emits None evs (with_runtime r w))"
| accept: "wo_execs w x = None \<Longrightarrow> sy_calls (wo_system w) x = None \<Longrightarrow>
    execute_begin x t now (wo_runtime w) = (Inr agent, r, evs) \<Longrightarrow>
    world_step w (emits (Some x) evs (with_exec x \<lparr>xc_task = t, xc_phase = Reserved\<rparr> (with_runtime r w)))"
| run: "wo_execs w x = Some \<lparr>xc_task = t, xc_phase = Reserved\<rparr> \<Longrightarrow>
    world_step w (with_exec x \<lparr>xc_task = t, xc_phase = InRun\<rparr>
      (w\<lparr>wo_system := run_called x t (wo_runner w) (wo_system w)\<rparr>))"
| settled: "wo_execs w x = Some \<lparr>xc_task = t, xc_phase = InRun\<rparr> \<Longrightarrow> sy_calls (wo_system w) x = Some c \<Longrightarrow>
    ca_wait c = Finished outcome \<Longrightarrow>
    world_step w (emits (Some x) [announcement (ag_id (wo_runtime w)) t outcome]
      (with_exec x \<lparr>xc_task = t, xc_phase = Announced outcome\<rparr> w))"
| cleanup: "wo_execs w x = Some \<lparr>xc_task = t, xc_phase = Announced outcome\<rparr> \<Longrightarrow>
    execute_finally x t outcome (map_of (ru_active (sy_runners (wo_system w) (wo_runner w))) (ta_task t))
      (wo_runtime w) = (ph, r) \<Longrightarrow>
    world_step w (with_exec x \<lparr>xc_task = t, xc_phase = ph\<rparr> (with_runtime r w))"
| deferred: "wo_execs w x = Some \<lparr>xc_task = t, xc_phase = Deferred y outcome\<rparr> \<Longrightarrow>
    sy_calls (wo_system w) y = Some d \<Longrightarrow> \<not> ca_live d \<Longrightarrow>
    world_step w (with_exec x \<lparr>xc_task = t, xc_phase = Released outcome\<rparr>
      (with_runtime (release_task x t (wo_runtime w)) w))"
| reconciled: "ag_started (wo_runtime w) \<or> ag_stopped (wo_runtime w) \<Longrightarrow>
    world_step w (emits None [TaskReconciled (ag_id (wo_runtime w)) receipt] w)"
| elsewhere: "system_step (wo_system w) s \<Longrightarrow>
    (\<And>x. wo_execs w x \<noteq> None \<Longrightarrow> sy_calls (wo_system w) x = None \<Longrightarrow> sy_calls s x = None) \<Longrightarrow>
    world_step w (w\<lparr>wo_system := s\<rparr>)"

abbreviation world_steps :: "runtime_world \<Rightarrow> runtime_world \<Rightarrow> bool" where
  "world_steps \<equiv> world_step\<^sup>*\<^sup>*"

definition fresh_world :: "(nat \<Rightarrow> nat option) \<Rightarrow> nat \<Rightarrow> string \<Rightarrow> agent_manager \<Rightarrow> executor \<Rightarrow> runtime_world" where
  "fresh_world timeouts p i agents ex = \<lparr>wo_system = fresh_system timeouts, wo_runner = p,
    wo_runtime = new_agent_runtime i agents ex, wo_execs = (\<lambda>_. None), wo_events = []\<rparr>"

section \<open>What the system keeps of a call\<close>

text \<open>The tool of a live call is the active execution of its task: what \<open>getActiveExecution\<close> relies on.\<close>

definition active_ok :: "system \<Rightarrow> bool" where
  "active_ok s \<longleftrightarrow> (\<forall>x c. sy_calls s x = Some c \<longrightarrow> ca_live c \<longrightarrow>
    map_of (ru_active (sy_runners s (ca_runner c))) (task_id c) = Some x)"

lemma resume_active:
  assumes "resume x st co el c r = Some (w, r')"
  shows "ru_active r' = (if starts c then AList.update (task_id c) x (ru_active r) else ru_active r)"
  using assms
  by (cases rule: resume_cases)
    (auto simp: after_has_def after_claim_def after_append_def after_release_def starts_def
      forget_unknown_def mark_unknown_def split: sum.splits bool.splits)

lemma active_others:
  assumes "safe s" "active_ok s" "sy_calls s x = Some c" "sy_calls s y = Some d" "ca_live d" "x \<noteq> y"
    and "holding c \<or> ca_live c"
  shows "task_id c \<noteq> task_id d"
  using call_ok_owner [OF safe_call(1) [OF assms(1,3)] assms(7)]
    call_ok_owner [OF safe_call(1) [OF assms(1,4)]] assms(5,6) by auto

lemma active_frame:
  assumes "active_ok s" and "\<And>p. ru_active (sy_runners s' p) = ru_active (sy_runners s p)"
    and "\<And>y d. sy_calls s' y = Some d \<Longrightarrow> ca_live d \<Longrightarrow>
      \<exists>e. sy_calls s y = Some e \<and> ca_live e \<and> ca_task e = ca_task d \<and> ca_runner e = ca_runner d"
  shows "active_ok s'"
  using assms unfolding active_ok_def by metis

lemma active_step:
  assumes step: "system_step s s'" and safe: "safe s" and ok: "active_ok s"
  shows "active_ok s'"
  using step
proof cases
  case (tool_settles x c out)
  show ?thesis
    unfolding active_ok_def
  proof (intro allI impI)
    fix y d assume y: "sy_calls s' y = Some d" and live: "ca_live d"
    then have ne: "y \<noteq> x" using tool_settles(1) by auto
    then have d: "sy_calls s y = Some d" using y tool_settles(1) by simp
    have "task_id d \<noteq> task_id c"
      using active_others [OF safe ok tool_settles(2) d live] ne tool_settles(3) by auto
    moreover have "map_of (ru_active (sy_runners s (ca_runner d))) (task_id d) = Some y"
      using ok d live by (simp add: active_ok_def)
    ultimately show "map_of (ru_active (sy_runners s' (ca_runner d))) (task_id d) = Some y"
      by (auto simp: tool_settles(1) execution_settled_def delete_conv')
  qed
next
  case (timer x c ms out r)
  then have "ru_active r = ru_active (sy_runners s (ca_runner c))"
    by (auto simp: timer_fires_def mark_unknown_def)
  then show ?thesis
    by (intro active_frame [OF ok]) (use timer(2) in \<open>auto simp: timer(1) split: if_splits\<close>)
next
  case (resume x c st co el w r)
  show ?thesis
    unfolding active_ok_def
  proof (intro allI impI)
    fix y d assume y: "sy_calls s' y = Some d" and live: "ca_live d"
    note a = resume_active [OF resume(3)]
    show "map_of (ru_active (sy_runners s' (ca_runner d))) (task_id d) = Some y"
    proof (cases "y = x")
      case True
      then have d: "d = resumed w c" using y resume(1) by simp
      show ?thesis
        using ok resume(2) live by (auto simp: active_ok_def resume(1) d a True update_conv')
    next
      case False
      then have d: "sy_calls s y = Some d" using y resume(1) by simp
      have "starts c \<Longrightarrow> task_id c \<noteq> task_id d"
        using active_others [OF safe ok resume(2) d live] False by (auto simp: starts_def holding_def)
      moreover have "map_of (ru_active (sy_runners s (ca_runner d))) (task_id d) = Some y"
        using ok d live by (simp add: active_ok_def)
      ultimately show ?thesis by (auto simp: resume(1) a update_conv')
    qed
  qed
next
  case (crash p)
  show ?thesis
    unfolding active_ok_def
  proof (intro allI impI)
    fix y d assume y: "sy_calls s' y = Some d" and live: "ca_live d"
    obtain e where e: "sy_calls s y = Some e" "d = (if ca_runner e = p then crashed_call e else e)"
      using y unfolding crash by auto
    have "\<not> ca_live (crashed_call e)" by (simp add: crashed_call_def)
    then have "ca_runner e \<noteq> p" using live e(2) by auto
    then have d: "sy_calls s y = Some d" and r: "ca_runner d \<noteq> p" using e by simp_all
    then show "map_of (ru_active (sy_runners s' (ca_runner d))) (task_id d) = Some y"
      using ok live by (simp add: active_ok_def crash)
  qed
next
  case (reconcile t x c p)
  then show ?thesis by (intro active_frame [OF ok]) (auto simp: forget_unknown_def)
qed (rule active_frame [OF ok]; auto split: if_splits)+

text \<open>A call keeps its task and runner; once it is over it stays over, and an ended tool stays ended.\<close>

definition persists :: "call \<Rightarrow> call \<Rightarrow> bool" where
  "persists c c' \<longleftrightarrow> ca_task c' = ca_task c \<and> ca_runner c' = ca_runner c \<and>
    (finished c \<longrightarrow> finished c' \<and> (ca_live c' \<longrightarrow> ca_live c))"

lemma persists_refl [simp]: "persists c c"
  by (simp add: persists_def)

lemma resume_not_finished: "resume x st co el c r = Some v \<Longrightarrow> \<not> finished c"
  by (auto simp: resume_def finished_def split: awaiting.splits option.splits answer.splits)

lemma call_persists:
  assumes step: "system_step s s'" and x: "sy_calls s x = Some c"
  shows "\<exists>c'. sy_calls s' x = Some c' \<and> persists c c'"
  using step
proof cases
  case (resume y d st co el w r)
  then show ?thesis using x resume_not_finished [OF resume(3)] by (auto simp: persists_def)
next
  case (crash p)
  then show ?thesis using x by (auto simp: persists_def crashed_call_def finished_def)
qed (use x in \<open>auto simp: persists_def finished_def answered_def\<close>)

section \<open>The invariant\<close>

fun released :: "exec_phase \<Rightarrow> bool" where
  "released (Released _) = True"
| "released _ = False"

text \<open>The call of \<open>run\<close> that belongs to an execution, by its phase.\<close>

fun phase_ok :: "nat \<Rightarrow> exec_phase \<Rightarrow> call option \<Rightarrow> bool" where
  "phase_ok x Reserved c = (c = None)"
| "phase_ok x InRun c = (c \<noteq> None)"
| "phase_ok x (Announced _) c = (\<exists>d. c = Some d \<and> finished d)"
| "phase_ok x (Deferred y _) c = (\<exists>d. c = Some d \<and> finished d \<and> (ca_live d \<longrightarrow> y = x))"
| "phase_ok x (Released _) c = (\<exists>d. c = Some d \<and> finished d \<and> \<not> ca_live d)"

definition calls_ok :: "nat \<Rightarrow> system \<Rightarrow> (nat \<Rightarrow> execution option) \<Rightarrow> bool" where
  "calls_ok p s execs \<longleftrightarrow> (\<forall>x e. execs x = Some e \<longrightarrow> phase_ok x (xc_phase e) (sy_calls s x) \<and>
    (\<forall>c. sy_calls s x = Some c \<longrightarrow> ca_task c = xc_task e \<and> ca_runner c = p))"

text \<open>
  The reservations are exactly the executions not yet released, until the runtime has stopped. A drain
  waits for all of them, and a resolved promise belongs to a released execution.
\<close>

definition runtime_ok :: "agent_runtime \<Rightarrow> (nat \<Rightarrow> execution option) \<Rightarrow> bool" where
  "runtime_ok r execs \<longleftrightarrow>
    ag_tasks r = map fst (ag_promises r) \<and> distinct (map fst (ag_promises r)) \<and>
    (if ag_stop r = StopDone then ag_promises r = []
     else \<forall>k x. map_of (ag_promises r) k = Some x \<longleftrightarrow>
       (\<exists>e. execs x = Some e \<and> ta_task (xc_task e) = k \<and> \<not> released (xc_phase e))) \<and>
    (ag_stopped r \<longleftrightarrow> ag_stop r \<noteq> NotStopping) \<and> (ag_started r \<longrightarrow> ag_stop r = NotStopping) \<and>
    (\<forall>x \<in> set (ag_resolved r). \<exists>e. execs x = Some e \<and> released (xc_phase e)) \<and>
    (\<forall>ps. ag_stop r = Draining ps \<longrightarrow> snd ` set (ag_promises r) \<subseteq> set ps)"

definition world_ok :: "runtime_world \<Rightarrow> bool" where
  "world_ok w \<longleftrightarrow> safe (wo_system w) \<and> active_ok (wo_system w) \<and>
    calls_ok (wo_runner w) (wo_system w) (wo_execs w) \<and> runtime_ok (wo_runtime w) (wo_execs w)"

lemma world_simps [simp]:
  "wo_system (emits x evs w) = wo_system w" "wo_runner (emits x evs w) = wo_runner w"
  "wo_runtime (emits x evs w) = wo_runtime w" "wo_execs (emits x evs w) = wo_execs w"
  "wo_events (emits x evs w) = wo_events w @ map (Pair x) evs"
  "wo_system (with_runtime r w) = wo_system w" "wo_runner (with_runtime r w) = wo_runner w"
  "wo_runtime (with_runtime r w) = r" "wo_execs (with_runtime r w) = wo_execs w"
  "wo_events (with_runtime r w) = wo_events w"
  "wo_system (with_exec y e w) = wo_system w" "wo_runner (with_exec y e w) = wo_runner w"
  "wo_runtime (with_exec y e w) = wo_runtime w" "wo_execs (with_exec y e w) = (wo_execs w)(y \<mapsto> e)"
  "wo_events (with_exec y e w) = wo_events w"
  by (simp_all add: emits_def with_runtime_def with_exec_def)

lemma phase_ok_persists:
  assumes "phase_ok x ph c" and "c = Some d" and "persists d d'"
  shows "phase_ok x ph (Some d')"
  using assms by (cases ph) (auto simp: persists_def)

lemma calls_ok_elsewhere:
  assumes ok: "calls_ok p s execs" and step: "system_step s s'"
    and new: "\<And>x. execs x \<noteq> None \<Longrightarrow> sy_calls s x = None \<Longrightarrow> sy_calls s' x = None"
  shows "calls_ok p s' execs"
  unfolding calls_ok_def
proof (intro allI impI)
  fix x e assume e: "execs x = Some e"
  then have old: "phase_ok x (xc_phase e) (sy_calls s x)"
    "\<And>c. sy_calls s x = Some c \<Longrightarrow> ca_task c = xc_task e \<and> ca_runner c = p"
    using ok by (auto simp: calls_ok_def)
  show "phase_ok x (xc_phase e) (sy_calls s' x) \<and>
    (\<forall>c. sy_calls s' x = Some c \<longrightarrow> ca_task c = xc_task e \<and> ca_runner c = p)"
  proof (cases "sy_calls s x")
    case None
    then show ?thesis using new [of x] e old(1) by simp
  next
    case (Some c)
    obtain c' where c': "sy_calls s' x = Some c'" "persists c c'" using call_persists [OF step Some] by blast
    then show ?thesis
      using phase_ok_persists [OF old(1) Some c'(2)] old(2) [OF Some] by (simp add: persists_def)
  qed
qed

lemma calls_ok_exec:
  assumes "calls_ok p s execs" and "execs x = Some e" and "xc_task e' = xc_task e"
    and "phase_ok x (xc_phase e') (sy_calls s x)"
  shows "calls_ok p s (execs(x \<mapsto> e'))"
  using assms by (auto simp: calls_ok_def)

lemma calls_okD:
  assumes "calls_ok p s execs" and "execs x = Some \<lparr>xc_task = t, xc_phase = ph\<rparr>"
  shows "phase_ok x ph (sy_calls s x)" and "sy_calls s x = Some c \<Longrightarrow> ca_task c = t \<and> ca_runner c = p"
  using assms by (fastforce simp: calls_ok_def)+

lemma runtime_ok_exec:
  assumes "runtime_ok r execs" and "execs x = Some e" and "xc_task e' = xc_task e"
    and "\<not> released (xc_phase e)" and "\<not> released (xc_phase e')"
  shows "runtime_ok r (execs(x \<mapsto> e'))"
  using assms unfolding runtime_ok_def by (auto split: if_splits)

text \<open>Releasing ends the reservation of the execution, and only that one.\<close>

lemma release_task_ok:
  assumes ok: "runtime_ok r execs" and e: "execs x = Some e" "\<not> released (xc_phase e)"
    and e': "xc_task e' = xc_task e" "released (xc_phase e')"
  shows "runtime_ok (release_task x (xc_task e) r) (execs(x \<mapsto> e'))"
proof (cases "ag_stop r = StopDone")
  case True
  then show ?thesis using ok e' by (auto simp: runtime_ok_def release_task_def Let_def)
next
  case False
  let ?k = "ta_task (xc_task e)"
  have own: "map_of (ag_promises r) ?k = Some x" using ok e False by (auto simp: runtime_ok_def)
  have keys: "ag_tasks r = map fst (ag_promises r)" "distinct (map fst (ag_promises r))"
    using ok unfolding runtime_ok_def by metis+
  have iff: "map_of (ag_promises r) k = Some y \<longleftrightarrow>
    (\<exists>e. execs y = Some e \<and> ta_task (xc_task e) = k \<and> \<not> released (xc_phase e))" for k y
    using ok False by (simp add: runtime_ok_def)
  have "map_of (AList.delete ?k (ag_promises r)) k = Some y \<longleftrightarrow>
    (\<exists>f. (execs(x \<mapsto> e')) y = Some f \<and> ta_task (xc_task f) = k \<and> \<not> released (xc_phase f))" for k y
    using iff [of k y] iff [of ?k y] own e e' by (auto simp: delete_conv' split: if_splits)
  moreover have "set_del ?k (ag_tasks r) = map fst (AList.delete ?k (ag_promises r))"
    by (simp add: keys(1) set_del_def delete_keys removeAll_filter_not_eq) metis
  moreover have "\<forall>ps. ag_stop r = Draining ps \<longrightarrow> snd ` set (AList.delete ?k (ag_promises r)) \<subseteq> set ps"
    using ok unfolding runtime_ok_def by (auto simp: AList.delete_eq)
  moreover have "\<forall>y \<in> insert x (set (ag_resolved r)). \<exists>f. (execs(x \<mapsto> e')) y = Some f \<and> released (xc_phase f)"
    using ok e' unfolding runtime_ok_def by auto
  moreover have "(ag_stopped r \<longleftrightarrow> ag_stop r \<noteq> NotStopping) \<and> (ag_started r \<longrightarrow> ag_stop r = NotStopping)"
    using ok unfolding runtime_ok_def by blast
  moreover have "distinct (map fst (AList.delete ?k (ag_promises r)))"
    using keys(2) by (rule distinct_delete)
  ultimately show ?thesis
    using own False unfolding runtime_ok_def release_task_def Let_def by simp
qed

lemma execute_begin_Inr:
  assumes "execute_begin x t now r = (Inr agent, r', evs)"
  shows "ag_started r \<and> ta_task t \<notin> set (ag_tasks r) \<and> evs = [TaskReceived (ag_id r) (ta_task t) (ta_agent t)] \<and>
    (\<exists>agents. r' = r\<lparr>ag_agents := agents, ag_tasks := ag_tasks r @ [ta_task t],
      ag_promises := AList.update (ta_task t) x (ag_promises r)\<rparr>)"
proof -
  have "ag_started r"
    using assms by (cases "ag_started r") (auto simp: execute_begin_def assert_runtime_started_def split: sum.splits)
  then show ?thesis using assms
    by (auto simp: execute_begin_def set_add_def split: sum.splits if_splits)
qed

lemma execute_begin_Inl: "execute_begin x t now r = (Inl e, r', evs) \<Longrightarrow> r' = r \<and> evs = []"
  by (auto simp: execute_begin_def split: sum.splits if_splits)

lemma accept_ok:
  assumes ok: "runtime_ok r execs" and new: "execs x = None"
    and beg: "execute_begin x t now r = (Inr agent, r', evs)"
  shows "runtime_ok r' (execs(x \<mapsto> \<lparr>xc_task = t, xc_phase = Reserved\<rparr>))"
proof -
  note b = execute_begin_Inr [OF beg]
  then obtain agents where r': "r' = r\<lparr>ag_agents := agents, ag_tasks := ag_tasks r @ [ta_task t],
      ag_promises := AList.update (ta_task t) x (ag_promises r)\<rparr>" by blast
  have started: "ag_started r" "ag_stop r = NotStopping" "\<not> ag_stopped r" using ok b by (auto simp: runtime_ok_def)
  have free: "ta_task t \<notin> set (map fst (ag_promises r))" and d: "distinct (map fst (ag_promises r))"
    and keys: "ag_tasks r = map fst (ag_promises r)"
    using ok b unfolding runtime_ok_def by metis+
  have iff: "map_of (ag_promises r) k = Some y \<longleftrightarrow>
    (\<exists>e. execs y = Some e \<and> ta_task (xc_task e) = k \<and> \<not> released (xc_phase e))" for k y
    using ok started by (simp add: runtime_ok_def)
  have none: "map_of (ag_promises r) (ta_task t) = None" using free by (simp add: map_of_eq_None_iff)
  let ?e = "\<lparr>xc_task = t, xc_phase = Reserved\<rparr>"
  have "map_of (AList.update (ta_task t) x (ag_promises r)) k = Some y \<longleftrightarrow>
    (\<exists>f. (execs(x \<mapsto> ?e)) y = Some f \<and> ta_task (xc_task f) = k \<and> \<not> released (xc_phase f))" for k y
    using iff [of k y] none new by (cases "y = x"; cases "k = ta_task t") (auto simp: update_conv')
  moreover have "ag_tasks r @ [ta_task t] = map fst (AList.update (ta_task t) x (ag_promises r))"
    using free by (simp add: keys update_keys)
  moreover have "distinct (map fst (AList.update (ta_task t) x (ag_promises r)))" using d by (rule distinct_update)
  moreover have "\<forall>y \<in> set (ag_resolved r). \<exists>f. (execs(x \<mapsto> ?e)) y = Some f \<and> released (xc_phase f)"
    using ok new unfolding runtime_ok_def by auto
  ultimately show ?thesis
    using started unfolding runtime_ok_def r' by (intro conjI) simp_all
qed

lemma stop_ok:
  assumes ok: "runtime_ok r execs" and stop: "runtime_stop drain clear r = (res, r')"
  shows "runtime_ok r' execs"
proof (cases "r' = r")
  case False
  then have not_yet: "ag_stop r = NotStopping" "ag_started r"
    using stop by (auto simp: runtime_stop_def Let_def split: if_splits)
  from False obtain d where r': "r' = r\<lparr>ag_stopped := True, ag_started := False, ag_drain := d, ag_clear := clear,
         ag_stop := drain_phase d r\<rparr>"
    using stop by (auto simp: runtime_stop_def Let_def split: if_splits)
  have "drain_phase d r \<noteq> NotStopping" "drain_phase d r \<noteq> StopDone"
    "\<forall>ps. drain_phase d r = Draining ps \<longrightarrow> snd ` set (ag_promises r) \<subseteq> set ps"
    by (simp_all add: drain_phase_def split: option.splits)
  then show ?thesis using ok not_yet unfolding runtime_ok_def r' by simp
qed (use ok in simp)

lemma drain_ok:
  assumes ok: "runtime_ok r execs" and over: "drain_over timer r = Some r'"
  shows "runtime_ok r' execs"
proof -
  obtain ps where "ag_stop r = Draining ps" "r' = r\<lparr>ag_stop := Finishing\<rparr>"
    using over by (auto simp: drain_over_def split: stop_phase.splits if_splits)
  then show ?thesis using ok by (simp add: runtime_ok_def)
qed

lemma finish_ok:
  assumes ok: "runtime_ok r execs" and finish: "finish_stop now elapsed r = Some (ev, clear, r')"
  shows "runtime_ok r' execs"
proof -
  have "ag_stop r = Finishing" "r' = r\<lparr>ag_tasks := [], ag_promises := [], ag_stop := StopDone\<rparr>"
    using finish by (auto simp: finish_stop_def split: stop_phase.splits)
  then show ?thesis using ok by (simp add: runtime_ok_def)
qed

lemma start_ok:
  assumes ok: "runtime_ok r execs" and start: "runtime_start now r = (res, r', evs)"
  shows "runtime_ok r' execs"
  using ok start by (auto simp: runtime_ok_def runtime_start_def split: if_splits)

lemma calls_ok_run:
  assumes ok: "calls_ok p s execs" and x: "execs x = Some \<lparr>xc_task = t, xc_phase = Reserved\<rparr>"
  shows "calls_ok p (run_called x t p s) (execs(x \<mapsto> \<lparr>xc_task = t, xc_phase = InRun\<rparr>))"
  using ok by (auto simp: calls_ok_def run_called_def)

lemma world_step_ok:
  assumes step: "world_step w w'" and ok: "world_ok w"
  shows "world_ok w'"
  using step
proof cases
  case (start now res r evs)
  then show ?thesis using ok start_ok [OF _ start(2)] by (simp add: world_ok_def)
next
  case (stop drain clear res r)
  then show ?thesis using ok stop_ok [OF _ stop(2)] by (simp add: world_ok_def)
next
  case (drained timer r)
  then show ?thesis using ok drain_ok [OF _ drained(2)] by (simp add: world_ok_def)
next
  case (finish now elapsed ev clear r)
  then show ?thesis using ok finish_ok [OF _ finish(2)] by (simp add: world_ok_def)
next
  case (reject x t now e r evs)
  then show ?thesis using ok execute_begin_Inl [OF reject(2)] by (simp add: world_ok_def)
next
  case (accept x t now agent r evs)
  then have "calls_ok (wo_runner w) (wo_system w) ((wo_execs w)(x \<mapsto> \<lparr>xc_task = t, xc_phase = Reserved\<rparr>))"
    using ok by (auto simp: world_ok_def calls_ok_def)
  then show ?thesis using ok accept_ok [OF _ _ accept(4), of "wo_execs w"] accept(2)
    by (simp add: world_ok_def accept(1))
next
  case (run x t)
  have c: "calls_ok (wo_runner w) (wo_system w) (wo_execs w)" using ok by (simp add: world_ok_def)
  have none: "sy_calls (wo_system w) x = None" using calls_okD(1) [OF c run(2)] by simp
  have sub: "system_step (wo_system w) (run_called x t (wo_runner w) (wo_system w))"
    unfolding run_called_def by (rule submit) (rule none)
  have "runtime_ok (wo_runtime w) ((wo_execs w)(x \<mapsto> \<lparr>xc_task = t, xc_phase = InRun\<rparr>))"
    by (rule runtime_ok_exec [where execs = "wo_execs w" and x = x, OF _ run(2)]) (use ok in \<open>simp_all add: world_ok_def\<close>)
  then show ?thesis
    using ok safe_step [OF sub] active_step [OF sub] calls_ok_run [OF c run(2)]
    by (simp add: world_ok_def run(1) with_exec_def)
next
  case (settled x t c outcome)
  have "calls_ok (wo_runner w) (wo_system w) ((wo_execs w)(x \<mapsto> \<lparr>xc_task = t, xc_phase = Announced outcome\<rparr>))"
    by (rule calls_ok_exec [where execs = "wo_execs w" and x = x, OF _ settled(2)]) (use ok settled in \<open>simp_all add: world_ok_def finished_def\<close>)
  moreover have "runtime_ok (wo_runtime w) ((wo_execs w)(x \<mapsto> \<lparr>xc_task = t, xc_phase = Announced outcome\<rparr>))"
    by (rule runtime_ok_exec [where execs = "wo_execs w" and x = x, OF _ settled(2)]) (use ok in \<open>simp_all add: world_ok_def\<close>)
  ultimately show ?thesis using ok by (simp add: world_ok_def settled(1))
next
  case (cleanup x t outcome ph r)
  have calls: "calls_ok (wo_runner w) (wo_system w) (wo_execs w)" and act: "active_ok (wo_system w)"
    and run: "runtime_ok (wo_runtime w) (wo_execs w)"
    using ok by (simp_all add: world_ok_def)
  obtain c where c: "sy_calls (wo_system w) x = Some c" "finished c" "ca_task c = t" "ca_runner c = wo_runner w"
    using calls cleanup(2) by (fastforce simp: calls_ok_def)
  let ?active = "map_of (ru_active (sy_runners (wo_system w) (wo_runner w))) (ta_task t)"
  have live: "ca_live c \<Longrightarrow> ?active = Some x"
    using act c unfolding active_ok_def by metis
  have "phase_ok x ph (sy_calls (wo_system w) x)"
    using cleanup(3) c live by (auto simp: execute_finally_def split: option.splits)
  then have "calls_ok (wo_runner w) (wo_system w) ((wo_execs w)(x \<mapsto> \<lparr>xc_task = t, xc_phase = ph\<rparr>))"
    by (intro calls_ok_exec [OF calls cleanup(2)]) simp_all
  moreover have "runtime_ok r ((wo_execs w)(x \<mapsto> \<lparr>xc_task = t, xc_phase = ph\<rparr>))"
  proof (cases ?active)
    case None
    then have "ph = Released outcome" "r = release_task x t (wo_runtime w)"
      using cleanup(3) by (auto simp: execute_finally_def)
    then show ?thesis using release_task_ok [OF run cleanup(2), of "\<lparr>xc_task = t, xc_phase = ph\<rparr>"] by simp
  next
    case (Some y)
    then have "ph = Deferred y outcome" "r = wo_runtime w" using cleanup(3) by (auto simp: execute_finally_def)
    then show ?thesis using runtime_ok_exec [OF run cleanup(2), of "\<lparr>xc_task = t, xc_phase = ph\<rparr>"] by simp
  qed
  ultimately show ?thesis using ok by (simp add: world_ok_def cleanup(1))
next
  case (deferred x t y outcome d)
  have calls: "calls_ok (wo_runner w) (wo_system w) (wo_execs w)" and run: "runtime_ok (wo_runtime w) (wo_execs w)"
    using ok by (simp_all add: world_ok_def)
  have "phase_ok x (Deferred y outcome) (sy_calls (wo_system w) x)"
    using calls deferred(2) by (fastforce simp: calls_ok_def)
  then have "phase_ok x (Released outcome) (sy_calls (wo_system w) x)" using deferred(3,4) by auto
  then have "calls_ok (wo_runner w) (wo_system w) ((wo_execs w)(x \<mapsto> \<lparr>xc_task = t, xc_phase = Released outcome\<rparr>))"
    by (intro calls_ok_exec [OF calls deferred(2)]) simp_all
  then show ?thesis
    using ok release_task_ok [OF run deferred(2), of "\<lparr>xc_task = t, xc_phase = Released outcome\<rparr>"]
    by (simp add: world_ok_def deferred(1))
next
  case (reconciled receipt)
  then show ?thesis using ok by (simp add: world_ok_def)
next
  case (elsewhere s)
  then show ?thesis
    using ok safe_step [OF elsewhere(2)] active_step [OF elsewhere(2)] calls_ok_elsewhere [OF _ elsewhere(2,3)]
    by (simp add: world_ok_def)
qed

lemma world_reachable_ok: "world_steps (fresh_world ts p i agents ex) w \<Longrightarrow> world_ok w"
proof (induction rule: rtranclp_induct)
  case base
  show ?case
    by (simp add: world_ok_def fresh_world_def safe_fresh active_ok_def fresh_system_def calls_ok_def runtime_ok_def
        new_agent_runtime_def safe_fresh [unfolded fresh_system_def])
next
  case (step w w')
  then show ?case by (blast intro: world_step_ok)
qed

section \<open>The protocol of the events\<close>

text \<open>
  What a listener may rely on: one start, then receipts of tasks until the one stop; outcomes may come
  after the stop, when a task outlived the drain.
\<close>

datatype life = Idle | Up | Down

fun life_step :: "life \<Rightarrow> runtime_event \<Rightarrow> life option" where
  "life_step Idle (Started _ _) = Some Up"
| "life_step Up (Stopped _ _ _ _) = Some Down"
| "life_step Up (TaskReceived _ _ _) = Some Up"
| "life_step l (TaskCompleted _ _ _ _ _) = (if l = Idle then None else Some l)"
| "life_step l (TaskFailed _ _ _ _) = (if l = Idle then None else Some l)"
| "life_step l (TaskReconciled _ _) = (if l = Idle then None else Some l)"
| "life_step _ _ = None"

fun life_run :: "life \<Rightarrow> runtime_event list \<Rightarrow> life option" where
  "life_run l [] = Some l"
| "life_run l (e # es) = (case life_step l e of None \<Rightarrow> None | Some l' \<Rightarrow> life_run l' es)"

lemma life_run_append:
  "life_run l (es @ fs) = (case life_run l es of None \<Rightarrow> None | Some l' \<Rightarrow> life_run l' fs)"
  by (induction es arbitrary: l) (auto split: option.splits)

definition life_of :: "agent_runtime \<Rightarrow> life" where
  "life_of r = (if ag_stop r = StopDone then Down else if ag_started r \<or> ag_stopped r then Up else Idle)"

text \<open>The events of one execution by its phase.\<close>

fun phase_events :: "string \<Rightarrow> runtime_task \<Rightarrow> exec_phase \<Rightarrow> runtime_event list" where
  "phase_events i t Reserved = [TaskReceived i (ta_task t) (ta_agent t)]"
| "phase_events i t InRun = [TaskReceived i (ta_task t) (ta_agent t)]"
| "phase_events i t (Announced o') = [TaskReceived i (ta_task t) (ta_agent t), announcement i t o']"
| "phase_events i t (Deferred _ o') = [TaskReceived i (ta_task t) (ta_agent t), announcement i t o']"
| "phase_events i t (Released o') = [TaskReceived i (ta_task t) (ta_agent t), announcement i t o']"

definition events_of :: "nat \<Rightarrow> runtime_world \<Rightarrow> runtime_event list" where
  "events_of x w = map snd (filter (\<lambda>(y, _). y = Some x) (wo_events w))"

definition trace_ok :: "runtime_world \<Rightarrow> bool" where
  "trace_ok w \<longleftrightarrow> life_run Idle (map snd (wo_events w)) = Some (life_of (wo_runtime w)) \<and>
    (\<forall>x. events_of x w = (case wo_execs w x of None \<Rightarrow> []
      | Some e \<Rightarrow> phase_events (ag_id (wo_runtime w)) (xc_task e) (xc_phase e))) \<and>
    (wo_execs w = (\<lambda>_. None) \<or> life_of (wo_runtime w) \<noteq> Idle)"

lemma events_of_emits: "events_of x (emits y evs w) = events_of x w @ (if y = Some x then evs else [])"
  by (induction evs) (auto simp: events_of_def emits_def)

lemma events_of_same: "wo_events w' = wo_events w \<Longrightarrow> events_of x w' = events_of x w"
  by (simp add: events_of_def)

lemma events_of_with [simp]:
  "events_of x (with_runtime r w) = events_of x w" "events_of x (with_exec y e w) = events_of x w"
  by (rule events_of_same; simp)+

lemma announcement_life: "l \<noteq> Idle \<Longrightarrow> life_step l (announcement i t o') = Some l"
  by (cases o') (simp_all add: announcement_def)

lemma release_task_fields [simp]:
  "ag_started (release_task x t r) = ag_started r" "ag_stopped (release_task x t r) = ag_stopped r"
  "ag_stop (release_task x t r) = ag_stop r" "ag_id (release_task x t r) = ag_id r"
  by (simp_all add: release_task_def Let_def)

lemma release_task_life [simp]: "life_of (release_task x t r) = life_of r"
  by (simp add: life_of_def)

text \<open>A step of the runtime that emits at most one event of its own.\<close>

lemma trace_runtime:
  assumes ok: "trace_ok w" and id: "ag_id r = ag_id (wo_runtime w)"
    and run: "life_run (life_of (wo_runtime w)) evs = Some (life_of r)"
    and idle: "life_of (wo_runtime w) \<noteq> Idle \<longrightarrow> life_of r \<noteq> Idle"
  shows "trace_ok (emits None evs (with_runtime r w))"
  using assms unfolding trace_ok_def
  by (auto simp: events_of_emits life_run_append comp_def split: option.splits)

lemma trace_exec:
  assumes ok: "trace_ok w" and id: "ag_id r = ag_id (wo_runtime w)" and life: "life_of r = life_of (wo_runtime w)"
    and not_idle: "life_of r \<noteq> Idle"
    and evs: "phase_events (ag_id r) (xc_task e) (xc_phase e) = events_of x w @ evs"
    and run: "life_run (life_of r) evs = Some (life_of r)"
  shows "trace_ok (emits (Some x) evs (with_exec x e (with_runtime r w)))"
  using assms unfolding trace_ok_def
  by (auto simp: events_of_emits life_run_append comp_def split: option.splits)

lemma emits_nothing [simp]: "emits x [] w = w" "with_runtime (wo_runtime w) w = w"
  by (simp_all add: emits_def with_runtime_def)

lemma trace_ok_system: "trace_ok (w\<lparr>wo_system := s\<rparr>) = trace_ok w"
  by (simp add: trace_ok_def events_of_def cong: option.case_cong)

lemma with_exec_system: "with_exec x e (w\<lparr>wo_system := s\<rparr>) = (with_exec x e w)\<lparr>wo_system := s\<rparr>"
  by (simp add: with_exec_def)

lemma trace_step:
  assumes step: "world_step w w'" and wok: "world_ok w" and ok: "trace_ok w"
  shows "trace_ok w'"
proof -
  let ?r = "wo_runtime w"
  have r_ok: "runtime_ok ?r (wo_execs w)" using wok by (simp add: world_ok_def)
  have flags: "ag_stopped ?r \<longleftrightarrow> ag_stop ?r \<noteq> NotStopping" "ag_started ?r \<Longrightarrow> ag_stop ?r = NotStopping"
    using r_ok by (simp_all add: runtime_ok_def)
  have busy: "life_of ?r \<noteq> Idle" if "wo_execs w x = Some e" for x e
    using ok that by (auto simp: trace_ok_def)
  have evs: "events_of x w = phase_events (ag_id ?r) (xc_task e) (xc_phase e)" if "wo_execs w x = Some e" for x e
    using ok that by (simp add: trace_ok_def)
  show ?thesis
    using step
  proof cases
    case (start now res r evs)
    show ?thesis unfolding start(1)
      by (rule trace_runtime [OF ok])
        (use start(2) flags in \<open>auto simp: runtime_start_def life_of_def split: if_splits\<close>)
  next
    case (stop drain clear res r)
    have "trace_ok (emits None [] (with_runtime r w))"
      by (rule trace_runtime [OF ok])
        (use stop(2) flags in \<open>auto simp: runtime_stop_def life_of_def drain_phase_def Let_def split: if_splits option.splits\<close>)
    then show ?thesis by (simp add: stop(1))
  next
    case (drained timer r)
    have "trace_ok (emits None [] (with_runtime r w))"
      by (rule trace_runtime [OF ok])
        (use drained(2) flags in \<open>auto simp: drain_over_def life_of_def split: if_splits stop_phase.splits\<close>)
    then show ?thesis by (simp add: drained(1))
  next
    case (finish now elapsed ev clear r)
    show ?thesis unfolding finish(1)
      by (rule trace_runtime [OF ok])
        (use finish(2) flags in \<open>auto simp: finish_stop_def life_of_def split: if_splits stop_phase.splits\<close>)
  next
    case (reject x t now e r evs)
    then show ?thesis using ok execute_begin_Inl [OF reject(2)] by simp
  next
    case (accept x t now agent r evs)
    note b = execute_begin_Inr [OF accept(4)]
    have none: "events_of x w = []" using ok accept(2) by (simp add: trace_ok_def)
    show ?thesis unfolding accept(1)
      by (rule trace_exec [OF ok]) (use b none flags in \<open>auto simp: life_of_def\<close>)
  next
    case (run x t)
    have "trace_ok (emits (Some x) [] (with_exec x \<lparr>xc_task = t, xc_phase = InRun\<rparr> (with_runtime ?r w)))"
      by (rule trace_exec [OF ok]) (simp_all add: busy [OF run(2)] evs [OF run(2)])
    then show ?thesis by (simp add: run(1) with_exec_system trace_ok_system)
  next
    case (settled x t c outcome)
    have "trace_ok (emits (Some x) [announcement (ag_id ?r) t outcome]
        (with_exec x \<lparr>xc_task = t, xc_phase = Announced outcome\<rparr> (with_runtime ?r w)))"
      by (rule trace_exec [OF ok])
        (simp_all add: busy [OF settled(2)] evs [OF settled(2)] announcement_life)
    then show ?thesis by (simp add: settled(1))
  next
    case (cleanup x t outcome ph r)
    have "trace_ok (emits (Some x) [] (with_exec x \<lparr>xc_task = t, xc_phase = ph\<rparr> (with_runtime r w)))"
      by (rule trace_exec [OF ok])
        (use cleanup(3) busy [OF cleanup(2)] evs [OF cleanup(2)] in
          \<open>auto simp: execute_finally_def split: option.splits\<close>)
    then show ?thesis by (simp add: cleanup(1))
  next
    case (deferred x t y outcome d)
    have "trace_ok (emits (Some x) [] (with_exec x \<lparr>xc_task = t, xc_phase = Released outcome\<rparr>
        (with_runtime (release_task x t ?r) w)))"
      by (rule trace_exec [OF ok]) (simp_all add: busy [OF deferred(2)] evs [OF deferred(2)])
    then show ?thesis by (simp add: deferred(1))
  next
    case (reconciled receipt)
    have "trace_ok (emits None [TaskReconciled (ag_id ?r) receipt] (with_runtime ?r w))"
      by (rule trace_runtime [OF ok]) (use reconciled(2) flags in \<open>auto simp: life_of_def\<close>)
    then show ?thesis by (simp add: reconciled(1))
  next
    case (elsewhere s)
    then show ?thesis using ok by (simp add: trace_ok_system)
  qed
qed

lemma world_reachable_trace: "world_steps (fresh_world ts p i agents ex) w \<Longrightarrow> trace_ok w"
proof (induction rule: rtranclp_induct)
  case base
  show ?case by (simp add: trace_ok_def fresh_world_def events_of_def life_of_def new_agent_runtime_def)
next
  case (step w w')
  then show ?case using world_reachable_ok [OF step(1)] by (blast intro: trace_step)
qed

section \<open>What the reservations mean\<close>

lemma live_reserved:
  assumes ok: "world_ok w" and e: "wo_execs w x = Some e" and c: "sy_calls (wo_system w) x = Some c" "ca_live c"
  shows "\<not> released (xc_phase e)"
proof -
  have "phase_ok x (xc_phase e) (sy_calls (wo_system w) x)"
    using ok e unfolding world_ok_def calls_ok_def by blast
  then have "phase_ok x (xc_phase e) (Some c)" by (simp only: c(1))
  then show ?thesis using c(2) by (cases "xc_phase e") auto
qed

lemma reservation_unique:
  assumes ok: "world_ok w" and on: "ag_stop (wo_runtime w) \<noteq> StopDone"
    and e: "wo_execs w x = Some e" "\<not> released (xc_phase e)" and f: "wo_execs w y = Some f" "\<not> released (xc_phase f)"
    and same: "ta_task (xc_task e) = ta_task (xc_task f)"
  shows "x = y"
proof -
  have "runtime_ok (wo_runtime w) (wo_execs w)" using ok by (simp add: world_ok_def)
  then have iff: "map_of (ag_promises (wo_runtime w)) k = Some z \<longleftrightarrow>
      (\<exists>e. wo_execs w z = Some e \<and> ta_task (xc_task e) = k \<and> \<not> released (xc_phase e))" for k z
    using on by (simp add: runtime_ok_def)
  have "map_of (ag_promises (wo_runtime w)) (ta_task (xc_task e)) = Some x" using iff e by blast
  moreover have "map_of (ag_promises (wo_runtime w)) (ta_task (xc_task e)) = Some y" using iff f same by auto
  ultimately show ?thesis by simp
qed

lemma reserved_refused:
  assumes ok: "world_ok w" and on: "ag_started (wo_runtime w)"
    and e: "wo_execs w x = Some e" "\<not> released (xc_phase e)" and same: "ta_task t = ta_task (xc_task e)"
  shows "\<exists>err. execute_begin y t now (wo_runtime w) = (Inl err, wo_runtime w, [])"
proof -
  have r: "runtime_ok (wo_runtime w) (wo_execs w)" using ok by (simp add: world_ok_def)
  then have "map_of (ag_promises (wo_runtime w)) (ta_task t) = Some x"
    using on e same by (auto simp: runtime_ok_def)
  then have "ta_task t \<in> set (map fst (ag_promises (wo_runtime w)))" by (metis map_of_SomeD list.set_map image_eqI fst_conv)
  then have "ta_task t \<in> set (ag_tasks (wo_runtime w))" using r by (simp add: runtime_ok_def)
  then show ?thesis by (auto simp: execute_begin_def split: sum.splits)
qed

lemma full_drain:
  assumes ok: "world_ok w" and over: "drain_over False (wo_runtime w) = Some r"
  shows "ag_tasks r = [] \<and> (\<forall>x e. wo_execs w x = Some e \<longrightarrow> released (xc_phase e))"
proof -
  let ?r = "wo_runtime w"
  obtain ps where ps: "ag_stop ?r = Draining ps" "set ps \<subseteq> set (ag_resolved ?r)" and r: "r = ?r\<lparr>ag_stop := Finishing\<rparr>"
    using over by (auto simp: drain_over_def split: stop_phase.splits if_splits)
  have ok: "runtime_ok ?r (wo_execs w)" using ok by (simp add: world_ok_def)
  then have iff: "map_of (ag_promises ?r) k = Some z \<longleftrightarrow>
      (\<exists>e. wo_execs w z = Some e \<and> ta_task (xc_task e) = k \<and> \<not> released (xc_phase e))" for k z
    using ps by (simp add: runtime_ok_def)
  have rel: "released (xc_phase e)" if "wo_execs w x = Some e" for x e
  proof (rule ccontr)
    assume "\<not> released (xc_phase e)"
    then have "map_of (ag_promises ?r) (ta_task (xc_task e)) = Some x" using iff that by blast
    then have "x \<in> snd ` set (ag_promises ?r)" by (force dest: map_of_SomeD)
    then have "x \<in> set (ag_resolved ?r)" using ok ps unfolding runtime_ok_def by blast
    then show False using ok that \<open>\<not> released (xc_phase e)\<close> unfolding runtime_ok_def by fastforce
  qed
  then have "ag_promises ?r = []" using iff by (metis map_of_eq_None_iff not_None_eq list.set_intros(1) list.exhaust
    map_of_Cons_code(2) prod.exhaust)
  then show ?thesis using rel ok by (simp add: r runtime_ok_def)
qed

section \<open>Runs\<close>

lemma elsewhere_steps:
  assumes "system_steps s s'" and "\<And>x. wo_execs w x \<noteq> None \<Longrightarrow> sy_calls s x \<noteq> None"
  shows "world_steps (w\<lparr>wo_system := s\<rparr>) (w\<lparr>wo_system := s'\<rparr>)"
  using assms(1)
proof (induction rule: rtranclp_induct)
  case (step t u)
  have persist: "\<exists>c'. sy_calls t x = Some c'" if "sy_calls s x = Some c" for x c
    using step(1) that by (induction arbitrary: rule: rtranclp_induct) (auto dest: call_persists)
  have "world_step (w\<lparr>wo_system := t\<rparr>) ((w\<lparr>wo_system := t\<rparr>)\<lparr>wo_system := u\<rparr>)"
  proof (rule elsewhere)
    show "system_step (wo_system (w\<lparr>wo_system := t\<rparr>)) u" using step(2) by simp
    fix x assume "wo_execs (w\<lparr>wo_system := t\<rparr>) x \<noteq> None" "sy_calls (wo_system (w\<lparr>wo_system := t\<rparr>)) x = None"
    then show "sy_calls u x = None" using assms(2) [of x] persist [of x] by auto
  qed
  then show ?case using step.IH by simp
qed simp

definition demo_runtime :: "bool \<Rightarrow> bool \<Rightarrow> stop_phase \<Rightarrow> string list \<Rightarrow> (string, nat) table \<Rightarrow> nat list \<Rightarrow> agent_runtime" where
  "demo_runtime started stopped stopping tasks promises resolved = \<lparr>ag_id = ''r'', ag_started = started,
    ag_stopped = stopped, ag_tasks = tasks, ag_promises = promises, ag_resolved = resolved, ag_stop = stopping,
    ag_drain = (if stopped then Some 5 else None), ag_clear = False,
    ag_agents = \<lparr>instances = (if resolved = [] \<and> tasks = [] then [] else [(''a'', \<lparr>agent_id = ''a'', created_at = ''now''\<rparr>)]),
      max_instances = 10, eviction_count = 0\<rparr>,
    ag_executor = \<lparr>ex_counts = [], ex_quota = None, ex_cap = 10\<rparr>\<rparr>"

definition demo_rt_world :: "system \<Rightarrow> agent_runtime \<Rightarrow> exec_phase \<Rightarrow> runtime_event list \<Rightarrow> runtime_world" where
  "demo_rt_world s r ph evs = \<lparr>wo_system = s, wo_runner = 0, wo_runtime = r,
    wo_execs = [0 \<mapsto> \<lparr>xc_task = demo_task, xc_phase = ph\<rparr>],
    wo_events = (None, Started ''r'' ''now'') # map (Pair (Some 0)) (TaskReceived ''r'' ''t1'' ''a'' # evs)\<rparr>"

definition demo_fresh_world :: runtime_world where
  "demo_fresh_world = fresh_world (\<lambda>_. None) 0 ''r'' \<lparr>instances = [], max_instances = 10, eviction_count = 0\<rparr>
    \<lparr>ex_counts = [], ex_quota = None, ex_cap = 10\<rparr>"

lemma demo_accepted:
  "world_steps demo_fresh_world (demo_rt_world (demo_state Map.empty None [] [])
    (demo_runtime True False NotStopping [''t1''] [(''t1'', 0)] []) Reserved [])" (is "world_steps _ ?w2")
proof -
  let ?w1 = "emits None [Started ''r'' ''now''] (with_runtime (demo_runtime True False NotStopping [] [] []) demo_fresh_world)"
  have s: "sy_calls (wo_system ?w1) 0 = None" "wo_execs ?w1 0 = None"
    by (simp_all add: demo_fresh_world_def fresh_world_def fresh_system_def)
  have "world_step demo_fresh_world ?w1"
    by (rule start [where now = "''now''" and res = "Inr ()"])
      (simp add: demo_fresh_world_def fresh_world_def new_agent_runtime_def runtime_start_def demo_runtime_def)
  moreover have "execute_begin 0 demo_task ''now'' (wo_runtime ?w1) =
      (Inr \<lparr>agent_id = ''a'', created_at = ''now''\<rparr>, demo_runtime True False NotStopping [''t1''] [(''t1'', 0)] [],
       [TaskReceived ''r'' ''t1'' ''a''])"
    by (simp add: execute_begin_def demo_runtime_def demo_task_def assert_task_fields_def assert_runtime_started_def
        assert_non_empty_value_def blank_def js_trim_def Let_def strip_ws.simps ws_seqs_def get_or_create_def set_add_def)
  from accept [OF s(2,1) this] have "world_step ?w1 ?w2"
    by (simp add: demo_rt_world_def demo_fresh_world_def fresh_world_def demo_fresh emits_def with_exec_def with_runtime_def)
  ultimately show ?thesis by (meson rtranclp.rtrancl_into_rtrancl rtranclp.rtrancl_refl)
qed

lemma demo_run:
  "world_step (demo_rt_world (demo_state Map.empty None [] []) r Reserved evs)
    (demo_rt_world (demo_state [0 \<mapsto> demo_call AwaitClaim None False False] None [] []) r InRun evs)"
proof -
  let ?s = "demo_state Map.empty None [] []"
  have b: "run_begin demo_task (ta_task demo_task) (Some (ta_agent demo_task)) (sy_runners ?s 0) = AwaitClaim"
    using demo_begin [of "sy_runners ?s 0"] by (simp add: demo_state_def demo_task_def)
  have "run_called 0 demo_task 0 ?s = demo_state [0 \<mapsto> demo_call AwaitClaim None False False] None [] []"
    by (simp add: run_called_def b demo_call_def) (simp add: demo_state_def with_call_def)
  then show ?thesis
    using run [of "demo_rt_world ?s r Reserved evs" 0 demo_task] by (simp add: demo_rt_world_def with_exec_def)
qed

lemma demo_rt_world_system: "demo_rt_world s r ph evs = (demo_rt_world s' r ph evs)\<lparr>wo_system := s\<rparr>"
  by (simp add: demo_rt_world_def)

lemma demo_rt_world_fields [simp]:
  "wo_system (demo_rt_world s r ph evs) = s" "wo_runtime (demo_rt_world s r ph evs) = r"
  "wo_execs (demo_rt_world s r ph evs) = [0 \<mapsto> \<lparr>xc_task = demo_task, xc_phase = ph\<rparr>]"
  "wo_runner (demo_rt_world s r ph evs) = 0"
  by (simp_all add: demo_rt_world_def)

text \<open>The tool of the first call runs.\<close>

definition demo_live_world :: runtime_world where
  "demo_live_world = demo_rt_world (demo_state [0 \<mapsto> demo_call AwaitExecution None True True] (Some 0) [] [(''t1'', 0)])
    (demo_runtime True False NotStopping [''t1''] [(''t1'', 0)] []) InRun []"

lemma demo_live_reached: "world_steps demo_fresh_world demo_live_world"
proof -
  let ?r = "demo_runtime True False NotStopping [''t1''] [(''t1'', 0)] []"
  let ?w = "demo_rt_world (demo_state [0 \<mapsto> demo_call AwaitClaim None False False] None [] []) ?r InRun []"
  have "world_steps (?w\<lparr>wo_system := demo_state [0 \<mapsto> demo_call AwaitClaim None False False] None [] []\<rparr>)
      (?w\<lparr>wo_system := demo_state [0 \<mapsto> demo_call AwaitExecution None True True] (Some 0) [] [(''t1'', 0)]\<rparr>)"
    by (rule elsewhere_steps [OF demo_invoked]) (simp add: demo_state_simps split: if_splits)
  then have "world_steps ?w demo_live_world" by (simp add: demo_rt_world_def demo_live_world_def)
  moreover note demo_accepted demo_run [of ?r "[]"]
  ultimately show ?thesis by (meson rtranclp.rtrancl_into_rtrancl rtranclp_trans)
qed

text \<open>A stop waits for the call, whose claim fails; when it has been released the drain is over.\<close>

definition demo_drained_world :: runtime_world where
  "demo_drained_world = demo_rt_world (demo_state [0 \<mapsto> demo_call (Finished (Inl (PlainErr ''io''))) None False False] None [] [])
    (demo_runtime False True (Draining [0]) [] [] [0]) (Released (Inl (PlainErr ''io''))) [TaskFailed ''r'' ''t1'' ''a'' ''io'']"

lemma demo_drained_reached: "world_steps demo_fresh_world demo_drained_world"
proof -
  let ?e = "Inl (PlainErr ''io'')"
  let ?r = "demo_runtime True False NotStopping [''t1''] [(''t1'', 0)] []"
  let ?d = "demo_runtime False True (Draining [0]) [''t1''] [(''t1'', 0)] []"
  let ?s1 = "demo_state [0 \<mapsto> demo_call AwaitClaim None False False] None [] []"
  let ?s2 = "demo_state [0 \<mapsto> demo_call AwaitClaim (Some (AnswerFlag ?e)) False False] None [] []"
  let ?s3 = "demo_state [0 \<mapsto> demo_call (Finished ?e) None False False] None [] []"
  let ?evs = "[TaskFailed ''r'' ''t1'' ''a'' ''io'']"
  note evals = demo_state_simps demo_call_simps resume_def
  have "runtime_stop (Some (Fin 5 0)) False ?r = (Inr True, ?d)"
    by (simp add: runtime_stop_def demo_runtime_def drain_phase_def Let_def integer_within_def num_is_integer.simps
        num_int.simps MAX_TIMER_DELAY_MS_def)
  from stop [of _ _ "demo_rt_world (demo_state Map.empty None [] []) ?r Reserved []", simplified, OF this]
  have s1: "world_step (demo_rt_world (demo_state Map.empty None [] []) ?r Reserved [])
      (demo_rt_world (demo_state Map.empty None [] []) ?d Reserved [])"
    by (simp add: demo_rt_world_def with_runtime_def)
  have "system_step ?s1 ?s2"
    using system_step.store_refuse [of ?s1 0 "demo_call AwaitClaim None False False" "Inl (PlainErr ''io'')" "PlainErr ''io''"]
    by (simp add: evals)
  moreover have "system_step ?s2 ?s3"
    using system_step.resume [of ?s2 0 "demo_call AwaitClaim (Some (AnswerFlag (Inl (PlainErr ''io'')))) False False"
      "[]" "[]" 0 "Finished ?e" "\<lparr>ru_timeout = None, ru_unknown = [], ru_active = []\<rparr>"]
    by (simp add: evals after_claim_def)
  ultimately have "system_steps ?s1 ?s3" by (meson rtranclp.rtrancl_into_rtrancl rtranclp.rtrancl_refl)
  then have "world_steps ((demo_rt_world ?s1 ?d InRun [])\<lparr>wo_system := ?s1\<rparr>) ((demo_rt_world ?s1 ?d InRun [])\<lparr>wo_system := ?s3\<rparr>)"
    by (rule elsewhere_steps) (simp add: demo_state_simps split: if_splits)
  then have s2: "world_steps (demo_rt_world ?s1 ?d InRun []) (demo_rt_world ?s3 ?d InRun [])" by (simp add: demo_rt_world_def)
  have s3: "world_step (demo_rt_world ?s3 ?d InRun []) (demo_rt_world ?s3 ?d (Announced ?e) ?evs)"
    using settled [of "demo_rt_world ?s3 ?d InRun []" 0 demo_task "demo_call (Finished ?e) None False False" ?e]
    by (simp add: evals)
      (simp add: demo_rt_world_def emits_def with_exec_def announcement_def failure_reason_def demo_runtime_def demo_task_def)
  have "execute_finally 0 demo_task ?e None ?d =
      (Released ?e, demo_runtime False True (Draining [0]) [] [] [0])"
    by (simp add: execute_finally_def release_task_def demo_runtime_def demo_task_def reset_def set_del_def)
  then have s4: "world_step (demo_rt_world ?s3 ?d (Announced ?e) ?evs) demo_drained_world"
    using cleanup [of "demo_rt_world ?s3 ?d (Announced ?e) ?evs" 0 demo_task ?e]
    by (simp add: evals demo_drained_world_def) (simp add: demo_rt_world_def with_exec_def with_runtime_def)
  show ?thesis
    using demo_accepted s1 demo_run [of ?d "[]"] s2 s3 s4
    by (meson rtranclp.rtrancl_into_rtrancl rtranclp_trans)
qed

end
