(* ===== verification/Audit_Json.thy ===== *)
theory Audit_Json
  imports Payload_Digest Json_File
begin

text \<open>
  The canonical JSON of the audit ledger (\<open>src/audit/canonical-json.ts\<close>): \<open>audit_canonical\<close> on a value
  of the heap, \<open>audit_text\<close> on a document that \<open>JSON.parse\<close> returned; the two are related by what a heap
  value denotes. Then \<open>JSON.parse\<close> itself, as far as a line of the ledger needs it.

  The first argument of both encoders is \<open>MAX_CANONICAL_DEPTH + 1 - depth\<close>. A proxy is taken to answer as
  an ordinary object.
\<close>

section \<open>Errors\<close>

datatype audit_code =
    AUDIT_ALREADY_OPEN
  | AUDIT_CANONICALIZATION_FAILED
  | AUDIT_CORRUPTED
  | AUDIT_IO_FAILED
  | AUDIT_NON_REGULAR_FILE
  | AUDIT_RECORD_TOO_LARGE
  | AUDIT_UNHEALTHY

text \<open>The ledger's own error class, or any other error with its message.\<close>

datatype audit_error = AuditErr audit_code string | OtherErr js_error

type_synonym 'a ares = "audit_error + 'a"

fun audit_message :: "audit_error \<Rightarrow> string option" where
  "audit_message (AuditErr _ m) = Some m"
| "audit_message (OtherErr e) = error_message e"

definition not_canonical :: "string \<Rightarrow> audit_error" where
  "not_canonical m = AuditErr AUDIT_CANONICALIZATION_FAILED m"

section \<open>The canonical encoding\<close>

definition MAX_CANONICAL_DEPTH :: nat where
  "MAX_CANONICAL_DEPTH = 12"

definition MAX_STRING_BYTES :: nat where
  "MAX_STRING_BYTES = 16 * 1024"

definition depth_exceeded :: audit_error where
  "depth_exceeded = not_canonical ''Audit value exceeds the maximum canonicalization depth.''"

definition audit_string :: "string \<Rightarrow> string ares" where
  "audit_string s =
    (if MAX_STRING_BYTES < length s then Inl (not_canonical ''Audit string exceeds the maximum canonical size.'')
     else Inr (json_string s))"

definition audit_number :: "jsnum \<Rightarrow> string ares" where
  "audit_number v =
    (if \<not> num_is_finite v then Inl (not_canonical ''Audit numbers must be finite.'')
     else Inr (if v = NegZero then ''0'' else num_str v))"

definition unsupported_audit_type :: "string \<Rightarrow> audit_error" where
  "unsupported_audit_type t = not_canonical (''Unsupported audit value type: '' @ t @ ''.'')"

fun audit_leaf :: "jsval \<Rightarrow> string ares" where
  "audit_leaf JNull = Inr ''null''"
| "audit_leaf (JStr s) = audit_string s"
| "audit_leaf (JBool b) = Inr (if b then ''true'' else ''false'')"
| "audit_leaf (JNum v) = audit_number v"
| "audit_leaf JUndefined = Inl (unsupported_audit_type ''undefined'')"
| "audit_leaf (JBigInt _) = Inl (unsupported_audit_type ''bigint'')"
| "audit_leaf (JSymbol _) = Inl (unsupported_audit_type ''symbol'')"
| "audit_leaf (JFunction _) = Inl (unsupported_audit_type ''function'')"
| "audit_leaf (JRef _) = Inl (unsupported_audit_type ''object'')"

text \<open>A loop that stops at the first error.\<close>

fun map_res :: "('a \<Rightarrow> 'e + 'b) \<Rightarrow> 'a list \<Rightarrow> 'e + 'b list" where
  "map_res f [] = Inr []"
| "map_res f (x # xs) =
    (case f x of Inl e \<Rightarrow> Inl e | Inr y \<Rightarrow> (case map_res f xs of Inl e \<Rightarrow> Inl e | Inr ys \<Rightarrow> Inr (y # ys)))"

definition then_res :: "'e + 'a \<Rightarrow> ('a \<Rightarrow> 'e + 'b) \<Rightarrow> 'e + 'b" where
  "then_res r f = (case r of Inl e \<Rightarrow> Inl e | Inr x \<Rightarrow> f x)"

text \<open>An own enumerable data property, or the error of the array or object branch.\<close>

definition audit_property :: "js_object \<Rightarrow> string \<Rightarrow> audit_error \<Rightarrow> jsval ares" where
  "audit_property ob k err = (case own_property ob k of Some (Data True v) \<Rightarrow> Inr v | _ \<Rightarrow> Inl err)"

definition array_key_allowed :: "js_object \<Rightarrow> pkey \<Rightarrow> bool" where
  "array_key_allowed ob k =
    (case k of KSym _ \<Rightarrow> False | KStr s \<Rightarrow> s \<in> set (''length'' # map nat_str [0..<ob_length ob]))"

definition array_text :: "string list \<Rightarrow> string" where
  "array_text items = ''['' @ join '','' items @ '']''"

definition object_text :: "string list \<Rightarrow> string" where
  "object_text fs = ''{'' @ join '','' fs @ ''}''"

definition field_text :: "string \<Rightarrow> string \<Rightarrow> string" where
  "field_text k s = json_string k @ '':'' @ s"

primrec audit_canonical :: "nat \<Rightarrow> heap \<Rightarrow> jsval \<Rightarrow> loc list \<Rightarrow> string ares" where
  "audit_canonical 0 h v seen = Inl depth_exceeded"
| "audit_canonical (Suc n) h v seen =
    (case v of
       JRef l \<Rightarrow>
         let ob = heap_get h l in
         if l \<in> set seen then Inl (not_canonical ''Audit values must not contain cycles.'')
         else if ob_array ob then
           (if ob_proto ob \<noteq> ArrayPrototype
            then Inl (not_canonical ''Audit arrays must use the ordinary Array prototype.'')
            else
              then_res (map_res (\<lambda>i. then_res (audit_property ob (nat_str i)
                  (not_canonical ''Audit arrays must be dense ordinary data arrays.''))
                (\<lambda>w. audit_canonical n h w (l # seen))) [0..<ob_length ob]) (\<lambda>items.
              if \<exists>kd \<in> set (ob_props ob). \<not> array_key_allowed ob (fst kd)
              then Inl (not_canonical ''Audit arrays must not contain symbol or extra properties.'')
              else Inr (array_text items)))
         else if ob_proto ob \<noteq> ObjectPrototype \<and> ob_proto ob \<noteq> NullPrototype
         then Inl (not_canonical ''Audit objects must use a plain or null prototype.'')
         else if has_symbol_key ob
         then Inl (not_canonical ''Audit objects must not contain symbol properties.'')
         else
           then_res (map_res (\<lambda>k. then_res (audit_property ob k
               (not_canonical ''Audit objects must contain only enumerable data properties.''))
             (\<lambda>w. then_res (audit_canonical n h w (l # seen)) (\<lambda>s. Inr (field_text k s)))) (sorted_keys ob))
           (\<lambda>fs. Inr (object_text fs))
     | _ \<Rightarrow> audit_leaf v)"

definition canonical_audit_json :: "heap \<Rightarrow> jsval \<Rightarrow> string ares" where
  "canonical_audit_json h v = audit_canonical (Suc MAX_CANONICAL_DEPTH) h v []"

text \<open>The same on a document: its objects are plain, its arrays ordinary, its properties data.\<close>

primrec audit_text :: "nat \<Rightarrow> json \<Rightarrow> string ares" where
  "audit_text 0 t = Inl depth_exceeded"
| "audit_text (Suc n) t =
    (case t of
       JsNull \<Rightarrow> Inr ''null''
     | JsBool b \<Rightarrow> Inr (if b then ''true'' else ''false'')
     | JsNum v \<Rightarrow> audit_number v
     | JsStr s \<Rightarrow> audit_string s
     | JsArr ts \<Rightarrow> then_res (map_res (audit_text n) ts) (\<lambda>items. Inr (array_text items))
     | JsObj fs \<Rightarrow>
         then_res (map_res (\<lambda>k. then_res (case map_of fs k of None \<Rightarrow> Inl depth_exceeded | Some t \<Rightarrow> audit_text n t)
           (\<lambda>s. Inr (field_text k s))) (sort_strings (map fst fs))) (\<lambda>fs. Inr (object_text fs)))"

definition canonical_document :: "json \<Rightarrow> string ares" where
  "canonical_document t = audit_text (Suc MAX_CANONICAL_DEPTH) t"

text \<open>\<open>Object.keys\<close> are the enumerable string keys; those of a document are its keys.\<close>

definition enumerable_keys :: "js_object \<Rightarrow> string list" where
  "enumerable_keys ob = map fst (filter (\<lambda>(_, d). case d of Data b _ \<Rightarrow> b | Accessor b \<Rightarrow> b) (string_props ob))"

definition exact_audit_keys :: "string list \<Rightarrow> string list \<Rightarrow> bool" where
  "exact_audit_keys keys expected \<longleftrightarrow> sort_strings keys = sort_strings expected"

definition is_plain_audit_record :: "heap \<Rightarrow> jsval \<Rightarrow> bool" where
  "is_plain_audit_record h v =
    (case v of
       JRef l \<Rightarrow> (let ob = heap_get h l in \<not> ob_array ob \<and> (ob_proto ob = ObjectPrototype \<or> ob_proto ob = NullPrototype))
     | _ \<Rightarrow> False)"

section \<open>Reading JSON\<close>

text \<open>
  \<open>JSON.parse\<close>: white space, literals, strings with their escapes, numbers by the grammar. \<open>R\<close> gives the
  number a literal denotes. A code unit escape becomes the bytes of its UTF-8 encoding; a lone surrogate
  has none and is outside the model.
\<close>

definition json_ws :: "char \<Rightarrow> bool" where
  "json_ws c \<longleftrightarrow> c \<in> {CHR 0x20, CHR 0x09, CHR 0x0A, CHR 0x0D}"

definition skip_ws :: "string \<Rightarrow> string" where
  "skip_ws s = dropWhile json_ws s"

definition hex_value :: "char \<Rightarrow> nat option" where
  "hex_value c =
    (let n = (of_char c :: nat) in
     if 48 \<le> n \<and> n \<le> 57 then Some (n - 48)
     else if 65 \<le> n \<and> n \<le> 70 then Some (n - 55)
     else if 97 \<le> n \<and> n \<le> 102 then Some (n - 87)
     else None)"

fun code_unit :: "string \<Rightarrow> (nat \<times> string) option" where
  "code_unit (a # b # c # d # rest) =
    (case (hex_value a, hex_value b, hex_value c, hex_value d) of
       (Some a, Some b, Some c, Some d) \<Rightarrow> Some (((a * 16 + b) * 16 + c) * 16 + d, rest)
     | _ \<Rightarrow> None)"
| "code_unit _ = None"

definition utf8_bytes :: "nat \<Rightarrow> string" where
  "utf8_bytes n =
    (if n < 0x80 then [char_of n]
     else if n < 0x800 then [char_of (0xC0 + n div 0x40), char_of (0x80 + n mod 0x40)]
     else if n < 0x10000
     then [char_of (0xE0 + n div 0x1000), char_of (0x80 + n div 0x40 mod 0x40), char_of (0x80 + n mod 0x40)]
     else [char_of (0xF0 + n div 0x40000), char_of (0x80 + n div 0x1000 mod 0x40),
       char_of (0x80 + n div 0x40 mod 0x40), char_of (0x80 + n mod 0x40)])"

definition unicode_escape :: "string \<Rightarrow> (string \<times> string) option" where
  "unicode_escape s =
    (case code_unit s of
       None \<Rightarrow> None
     | Some (u, rest) \<Rightarrow>
         if u < 0xD800 \<or> 0xE000 \<le> u then Some (utf8_bytes u, rest)
         else if 0xDC00 \<le> u then None
         else (case rest of
             a # b # rest \<Rightarrow>
               (case code_unit rest of
                  Some (l, rest) \<Rightarrow>
                    if a = CHR 0x5C \<and> b = CHR ''u'' \<and> 0xDC00 \<le> l \<and> l < 0xE000
                    then Some (utf8_bytes (0x10000 + (u - 0xD800) * 0x400 + (l - 0xDC00)), rest) else None
                | None \<Rightarrow> None)
           | _ \<Rightarrow> None))"

text \<open>What follows a backslash.\<close>

definition escape_seq :: "string \<Rightarrow> (string \<times> string) option" where
  "escape_seq s =
    (case s of
       [] \<Rightarrow> None
     | c # cs \<Rightarrow>
         if c = CHR ''u'' then unicode_escape cs
         else if c = CHR ''/'' then Some (''/'', cs)
         else map_option (\<lambda>d. ([d], cs)) (unescape c))"

text \<open>The rest of a string literal after its opening quote.\<close>

primrec string_body :: "nat \<Rightarrow> string \<Rightarrow> (string \<times> string) option" where
  "string_body 0 s = None"
| "string_body (Suc n) s =
    (case s of
       [] \<Rightarrow> None
     | c # cs \<Rightarrow>
         if c = CHR 0x22 then Some ([], cs)
         else if c = CHR 0x5C then
           (case escape_seq cs of
              None \<Rightarrow> None
            | Some (b, rest) \<Rightarrow> map_option (\<lambda>(r, rest). (b @ r, rest)) (string_body n rest))
         else if (of_char c :: nat) < 32 then None
         else map_option (\<lambda>(r, rest). (c # r, rest)) (string_body n cs))"

definition read_string :: "string \<Rightarrow> (string \<times> string) option" where
  "read_string s = string_body (length s) s"

text \<open>A number literal and what follows it.\<close>

definition digits_of :: "string \<Rightarrow> (string \<times> string) option" where
  "digits_of s = (if takeWhile is_digit s = [] then None else Some (takeWhile is_digit s, dropWhile is_digit s))"

definition scan_int :: "string \<Rightarrow> (string \<times> string) option" where
  "scan_int s =
    (case s of
       [] \<Rightarrow> None
     | c # cs \<Rightarrow> if c = CHR ''0'' then Some (''0'', cs) else digits_of s)"

definition scan_frac :: "string \<Rightarrow> (string \<times> string) option" where
  "scan_frac s =
    (case s of
       c # cs \<Rightarrow> if c = CHR ''.'' then map_option (\<lambda>(ds, r). (c # ds, r)) (digits_of cs) else Some ([], s)
     | [] \<Rightarrow> Some ([], s))"

definition scan_exp :: "string \<Rightarrow> (string \<times> string) option" where
  "scan_exp s =
    (case s of
       c # cs \<Rightarrow>
         if c = CHR ''e'' \<or> c = CHR ''E''
         then (case cs of
             d # ds \<Rightarrow>
               if d = CHR ''+'' \<or> d = CHR ''-''
               then map_option (\<lambda>(x, r). (c # d # x, r)) (digits_of ds)
               else map_option (\<lambda>(x, r). (c # x, r)) (digits_of cs)
           | [] \<Rightarrow> None)
         else Some ([], s)
     | [] \<Rightarrow> Some ([], s))"

definition then_scan :: "(string \<times> string) option \<Rightarrow> (string \<Rightarrow> (string \<times> string) option) \<Rightarrow> (string \<times> string) option" where
  "then_scan r f = (case r of None \<Rightarrow> None | Some (a, s) \<Rightarrow> map_option (\<lambda>(b, s). (a @ b, s)) (f s))"

definition scan_unsigned :: "string \<Rightarrow> (string \<times> string) option" where
  "scan_unsigned s = then_scan (then_scan (scan_int s) scan_frac) scan_exp"

definition scan_number :: "string \<Rightarrow> (string \<times> string) option" where
  "scan_number s =
    (case s of
       c # cs \<Rightarrow> if c = CHR ''-'' then map_option (\<lambda>(a, r). (c # a, r)) (scan_unsigned cs) else scan_unsigned s
     | [] \<Rightarrow> None)"

definition literal :: "string \<Rightarrow> json \<Rightarrow> string \<Rightarrow> (json \<times> string) option" where
  "literal word v s = (if prefix word s then Some (v, drop (length word) s) else None)"

text \<open>
  The recursive part. \<open>parse_items\<close> and \<open>parse_fields\<close> read the elements up to the closing bracket; a later
  field replaces an earlier one of the same key.
\<close>

fun parse_value :: "(string \<Rightarrow> jsnum) \<Rightarrow> nat \<Rightarrow> string \<Rightarrow> (json \<times> string) option"
  and parse_items :: "(string \<Rightarrow> jsnum) \<Rightarrow> nat \<Rightarrow> string \<Rightarrow> (json list \<times> string) option"
  and parse_fields :: "(string \<Rightarrow> jsnum) \<Rightarrow> nat \<Rightarrow> (string \<times> json) list \<Rightarrow> string \<Rightarrow> (json \<times> string) option" where
  "parse_value R 0 s = None"
| "parse_value R (Suc n) s =
    (case skip_ws s of
       [] \<Rightarrow> None
     | c # cs \<Rightarrow>
         if c = CHR ''n'' then literal ''null'' JsNull (c # cs)
         else if c = CHR ''t'' then literal ''true'' (JsBool True) (c # cs)
         else if c = CHR ''f'' then literal ''false'' (JsBool False) (c # cs)
         else if c = CHR 0x22 then map_option (\<lambda>(x, r). (JsStr x, r)) (read_string cs)
         else if c = CHR ''['' then
           (if prefix '']'' (skip_ws cs) then Some (JsArr [], tl (skip_ws cs))
            else map_option (\<lambda>(ts, r). (JsArr ts, r)) (parse_items R n cs))
         else if c = CHR ''{'' then
           (if prefix ''}'' (skip_ws cs) then Some (JsObj [], tl (skip_ws cs))
            else parse_fields R n [] cs)
         else map_option (\<lambda>(x, r). (JsNum (R x), r)) (scan_number (c # cs)))"
| "parse_items R 0 s = None"
| "parse_items R (Suc n) s =
    (case parse_value R n s of
       None \<Rightarrow> None
     | Some (t, r) \<Rightarrow>
         (case skip_ws r of
            c # cs \<Rightarrow>
              if c = CHR '']'' then Some ([t], cs)
              else if c = CHR '','' then map_option (\<lambda>(ts, r). (t # ts, r)) (parse_items R n cs)
              else None
          | [] \<Rightarrow> None))"
| "parse_fields R 0 fs s = None"
| "parse_fields R (Suc n) fs s =
    (case skip_ws s of
       q # s1 \<Rightarrow>
         (if q \<noteq> CHR 0x22 then None else
          (case read_string s1 of
             None \<Rightarrow> None
           | Some (k, s2) \<Rightarrow>
               (case skip_ws s2 of
                  colon # s3 \<Rightarrow>
                    (if colon \<noteq> CHR '':'' then None else
                     (case parse_value R n s3 of
                        None \<Rightarrow> None
                      | Some (t, s4) \<Rightarrow>
                          (case skip_ws s4 of
                             c # s5 \<Rightarrow>
                               if c = CHR ''}'' then Some (JsObj (AList.update k t fs), s5)
                               else if c = CHR '','' then parse_fields R n (AList.update k t fs) s5
                               else None
                           | [] \<Rightarrow> None)))
                | [] \<Rightarrow> None)))
     | [] \<Rightarrow> None)"

text \<open>Every call reads at least one character, so twice the length is enough calls in a row.\<close>

definition json_parse :: "(string \<Rightarrow> jsnum) \<Rightarrow> string \<Rightarrow> json option" where
  "json_parse R s =
    (case parse_value R (2 * length s + 1) s of
       None \<Rightarrow> None
     | Some (t, r) \<Rightarrow> if skip_ws r = [] then Some t else None)"

section \<open>Reading back a string\<close>

lemma audit_number_Inr: "audit_number v = Inr s \<longleftrightarrow> num_is_finite v \<and> s = num_str v"
  by (cases v) (auto simp: audit_number_def)

lemma hex_value_digit: "d < 16 \<Longrightarrow> hex_value (hex_digit d) = Some d"
  by (auto simp: hex_value_def hex_digit_def Let_def)

lemma string_body_escape:
  "string_body (Suc n) (json_escape c @ rest) = map_option (\<lambda>(r, rest). (c # r, rest)) (string_body n rest)"
proof -
  have "of_char c \<in> {34, 92, 8, 12, 10, 13, 9 :: nat} \<or>
      (of_char c :: nat) < 32 \<and> of_char c \<notin> {8, 9, 10, 12, 13 :: nat} \<or>
      32 \<le> (of_char c :: nat) \<and> of_char c \<notin> {34, 92 :: nat}"
    by auto
  then consider (named) "of_char c \<in> {34, 92, 8, 12, 10, 13, 9 :: nat}"
    | (ctl) "(of_char c :: nat) < 32" "of_char c \<notin> {8, 9, 10, 12, 13 :: nat}"
    | (plain) "32 \<le> (of_char c :: nat)" "of_char c \<notin> {34, 92 :: nat}"
    by blast
  then show ?thesis
  proof cases
    case named
    then have "c \<in> {CHR 0x22, CHR 0x5C, CHR 0x08, CHR 0x0C, CHR 0x0A, CHR 0x0D, CHR 0x09}"
      by (simp add: of_char_nat_literals)
    then show ?thesis
      by (elim insertE emptyE) (simp_all add: json_escape_def escape_seq_def unescape_def Let_def)
  next
    case ctl
    define n where "n = (of_char c :: nat)"
    have d: "n div 16 < 16" "n mod 16 < 16" "n div 16 * 16 + n mod 16 = n" using ctl(1) by (auto simp: n_def)
    have hex: "hex_value (hex_digit (n div 16)) = Some (n div 16)" "hex_value (hex_digit (n mod 16)) = Some (n mod 16)"
      "hex_value (CHR ''0'') = Some 0"
      using d by (simp_all add: hex_value_digit) (simp add: hex_value_def)
    have "code_unit (CHR ''0'' # CHR ''0'' # hex_digit (n div 16) # hex_digit (n mod 16) # rest) = Some (n, rest)"
      using d hex by simp
    moreover have "n < 0x80" "n < 0xD800" using ctl(1) by (simp_all add: n_def)
    moreover have "char_of n = c" by (simp add: n_def)
    ultimately have "unicode_escape (CHR ''0'' # CHR ''0'' # hex_digit (n div 16) # hex_digit (n mod 16) # rest) =
        Some ([c], rest)"
      by (simp add: unicode_escape_def utf8_bytes_def)
    then show ?thesis using ctl
      by (simp add: json_escape_def escape_seq_def Let_def n_def)
  next
    case plain
    then have "c \<noteq> CHR 0x22" "c \<noteq> CHR 0x5C" by auto
    with plain show ?thesis by (simp add: json_escape_def Let_def)
  qed
qed

lemma string_body_text:
  "length s < n \<Longrightarrow> string_body n (concat (map json_escape s) @ CHR 0x22 # rest) = Some (s, rest)"
proof (induction s arbitrary: n)
  case Nil
  then show ?case by (cases n) auto
next
  case (Cons c s)
  then obtain m where n: "n = Suc m" and m: "length s < m" by (cases n) auto
  show ?case using Cons.IH [OF m] unfolding n by (simp add: string_body_escape del: string_body.simps)
qed

lemma json_escape_nonempty: "json_escape c \<noteq> []"
  by (simp add: json_escape_def Let_def)

lemma escape_length: "length s \<le> length (concat (map json_escape s))"
proof (induction s)
  case (Cons c s)
  then show ?case using json_escape_nonempty [of c] by (cases "json_escape c") auto
qed simp

lemma read_string_text [simp]: "read_string (concat (map json_escape s) @ CHR 0x22 # rest) = Some (s, rest)"
  unfolding read_string_def by (rule string_body_text) (use escape_length [of s] in simp)

section \<open>Reading back a number literal\<close>

definition digits1 :: "string \<Rightarrow> bool" where
  "digits1 s \<longleftrightarrow> s \<noteq> [] \<and> list_all is_digit s"

definition number_text :: "string \<Rightarrow> bool" where
  "number_text s \<longleftrightarrow> (\<exists>i f x. s = i @ f @ x \<and>
    (i = ''0'' \<or> digits1 i \<and> hd i \<noteq> CHR ''0'') \<and>
    (f = [] \<or> (\<exists>ds. f = CHR ''.'' # ds \<and> digits1 ds)) \<and>
    (x = [] \<or> (\<exists>c ds. x = CHR ''e'' # c # ds \<and> (c = CHR ''+'' \<or> c = CHR ''-'') \<and> digits1 ds)))"

lemma number_textI:
  assumes "s = i @ f @ x" and "i = ''0'' \<or> digits1 i \<and> hd i \<noteq> CHR ''0''"
    and "f = [] \<or> (\<exists>ds. f = CHR ''.'' # ds \<and> digits1 ds)"
    and "x = [] \<or> (\<exists>c ds. x = CHR ''e'' # c # ds \<and> (c = CHR ''+'' \<or> c = CHR ''-'') \<and> digits1 ds)"
  shows "number_text s"
  using assms unfolding number_text_def by blast

definition no_digit :: "string \<Rightarrow> bool" where
  "no_digit r = (case r of [] \<Rightarrow> True | c # _ \<Rightarrow> \<not> is_digit c)"

lemma digits_of_app: "digits1 ds \<Longrightarrow> no_digit r \<Longrightarrow> digits_of (ds @ r) = Some (ds, r)"
  unfolding digits1_def no_digit_def digits_of_def
  by (cases r) (auto simp: list_all_iff takeWhile_append2 dropWhile_append2 takeWhile_tail takeWhile_eq_Nil_iff hd_append)

lemma not_digits [simp]:
  "\<not> is_digit (CHR ''.'')" "\<not> is_digit (CHR ''e'')" "\<not> is_digit (CHR ''E'')" "\<not> is_digit (CHR '','')"
  "\<not> is_digit (CHR '']'')" "\<not> is_digit (CHR ''}'')" "\<not> is_digit (CHR ''+'')" "\<not> is_digit (CHR ''-'')"
  by (simp_all add: is_digit_def)

lemma no_digit_simps [simp]: "no_digit []" "no_digit (c # r) \<longleftrightarrow> \<not> is_digit c"
  by (simp_all add: no_digit_def)

lemma ends_head:
  assumes "ends (c # r)"
  shows "\<not> is_digit c" "c \<noteq> CHR ''.''" "c \<noteq> CHR ''e''" "c \<noteq> CHR ''E''"
  using assms by (auto simp: separator_def)

lemma ends_no_digit: "ends r \<Longrightarrow> no_digit r"
  by (cases r) (use ends_head in auto)

lemma scan_exp_text:
  assumes "x = [] \<or> (\<exists>c ds. x = CHR ''e'' # c # ds \<and> (c = CHR ''+'' \<or> c = CHR ''-'') \<and> digits1 ds)" and "ends r"
  shows "scan_exp (x @ r) = Some (x, r)"
  using assms(1)
proof (elim disjE exE conjE)
  assume "x = []"
  then show ?thesis using ends_head assms(2) by (cases r) (auto simp: scan_exp_def)
next
  fix c ds assume x: "x = CHR ''e'' # c # ds" "digits1 ds" and "c = CHR ''+''"
  then show ?thesis using digits_of_app [OF x(2) ends_no_digit [OF assms(2)]] by (simp add: scan_exp_def)
next
  fix c ds assume x: "x = CHR ''e'' # c # ds" "digits1 ds" and "c = CHR ''-''"
  then show ?thesis using digits_of_app [OF x(2) ends_no_digit [OF assms(2)]] by (simp add: scan_exp_def)
qed

lemma scan_frac_text:
  assumes "f = [] \<or> (\<exists>ds. f = CHR ''.'' # ds \<and> digits1 ds)" and "no_digit r" and "r = [] \<or> hd r \<noteq> CHR ''.''"
  shows "scan_frac (f @ r) = Some (f, r)"
  using assms(1)
proof (elim disjE exE conjE)
  assume "f = []"
  then show ?thesis using assms(3) by (cases r) (auto simp: scan_frac_def)
next
  fix ds assume f: "f = CHR ''.'' # ds" "digits1 ds"
  then show ?thesis using digits_of_app [OF f(2) assms(2)] by (simp add: scan_frac_def)
qed

lemma scan_int_text:
  assumes "i = ''0'' \<or> digits1 i \<and> hd i \<noteq> CHR ''0''" and "no_digit r"
  shows "scan_int (i @ r) = Some (i, r)"
proof (cases i)
  case Nil
  then show ?thesis using assms(1) by (simp add: digits1_def)
next
  case (Cons c cs)
  then show ?thesis using assms digits_of_app [of i r] by (auto simp: scan_int_def)
qed

lemma scan_unsigned_text:
  assumes "number_text s" and "ends r"
  shows "scan_unsigned (s @ r) = Some (s, r)"
proof -
  obtain i f x where s: "s = i @ f @ x" and i: "i = ''0'' \<or> digits1 i \<and> hd i \<noteq> CHR ''0''"
    and f: "f = [] \<or> (\<exists>ds. f = CHR ''.'' # ds \<and> digits1 ds)"
    and x: "x = [] \<or> (\<exists>c ds. x = CHR ''e'' # c # ds \<and> (c = CHR ''+'' \<or> c = CHR ''-'') \<and> digits1 ds)"
    using assms(1) unfolding number_text_def by blast
  have xr: "no_digit (x @ r)" "x @ r = [] \<or> hd (x @ r) \<noteq> CHR ''.''"
    using x ends_no_digit [OF assms(2)] ends_head assms(2) by (auto; cases r; auto)+
  then have fxr: "no_digit (f @ x @ r)" using f by auto
  show ?thesis
    using scan_int_text [OF i fxr] scan_frac_text [OF f xr] scan_exp_text [OF x assms(2)]
    by (simp add: scan_unsigned_def then_scan_def s)
qed

lemma digits1_nat_str: "digits1 (nat_str n)"
  using nat_str_digits [of n] by (simp add: digits1_def list_all_iff)

lemma nat_str_hd: "0 < n \<Longrightarrow> hd (nat_str n) \<noteq> CHR ''0''"
proof (induction n rule: nat_str.induct)
  case (1 n)
  show ?case
  proof (cases "n < 10")
    case True
    then have "digit_val (digit_char n) = n" by (simp add: digit_char_val)
    moreover have "digit_val (CHR ''0'') = 0" by (simp add: digit_val_def)
    ultimately show ?thesis using True 1(2) by (auto simp: nat_str.simps [of n])
  next
    case False
    then have "0 < n div 10" by auto
    with 1(1) [OF False] False show ?thesis by (simp add: nat_str.simps [of n] hd_append)
  qed
qed

lemma digits1_append: "list_all is_digit a \<Longrightarrow> list_all is_digit b \<Longrightarrow> a @ b \<noteq> [] \<Longrightarrow> digits1 (a @ b)"
  by (simp add: digits1_def)

lemma all_digits_sub: "digits1 s \<Longrightarrow> list_all is_digit (take k s) \<and> list_all is_digit (drop k s)"
  by (auto simp: digits1_def list_all_iff dest: in_set_takeD in_set_dropD)

lemma zeros_digits: "list_all is_digit (replicate k (CHR ''0''))"
  by (simp add: list_all_iff is_digit_def)

lemma exponent_text: "\<exists>c ds. CHR ''e'' # (if x < 0 then ''-'' else ''+'') @ nat_str k = CHR ''e'' # c # ds \<and>
  (c = CHR ''+'' \<or> c = CHR ''-'') \<and> digits1 ds"
  using digits1_nat_str by auto

lemma number_text_pos:
  assumes "0 < d"
  shows "number_text (pos_decimal_str d e)"
proof -
  define ds where "ds = nat_str d"
  define k where "k = int (length ds)"
  define n where "n = k + e"
  have ds: "digits1 ds" "hd ds \<noteq> CHR ''0''" "ds \<noteq> []"
    using digits1_nat_str nat_str_hd [OF assms] by (simp_all add: ds_def)
  have k: "0 < k" using ds(3) by (simp add: k_def)
  note sub = all_digits_sub [OF ds(1)]
  note forms = pos_decimal_str_def Let_def ds_def [symmetric] k_def [symmetric] n_def [symmetric]
  consider (a) "k \<le> n \<and> n \<le> 21" | (b) "\<not> (k \<le> n \<and> n \<le> 21)" "0 < n \<and> n \<le> 21"
    | (c) "\<not> (k \<le> n \<and> n \<le> 21)" "\<not> (0 < n \<and> n \<le> 21)" "- 6 < n \<and> n \<le> 0"
    | (d) "\<not> (k \<le> n \<and> n \<le> 21)" "\<not> (0 < n \<and> n \<le> 21)" "\<not> (- 6 < n \<and> n \<le> 0)" by blast
  then show ?thesis
  proof cases
    case a
    have "pos_decimal_str d e = ds @ replicate (nat (n - k)) (CHR ''0'')"
      unfolding forms by (simp only: if_P [OF a])
    then show ?thesis
      by (intro number_textI [of _ "ds @ replicate (nat (n - k)) (CHR ''0'')" "[]" "[]"])
        (use ds zeros_digits in \<open>simp_all add: digits1_def\<close>)
  next
    case b
    have form: "pos_decimal_str d e = take (nat n) ds @ ''.'' @ drop (nat n) ds"
      unfolding forms by (simp only: if_not_P [OF b(1)] if_P [OF b(2)])
    have "\<not> length ds \<le> nat n" using b by (auto simp: k_def)
    then have "drop (nat n) ds \<noteq> []" by simp
    moreover have "take (nat n) ds \<noteq> []" "hd (take (nat n) ds) \<noteq> CHR ''0''" using b ds by (auto simp: hd_take)
    ultimately show ?thesis
      by (intro number_textI [of _ "take (nat n) ds" "''.'' @ drop (nat n) ds" "[]"])
        (use sub in \<open>simp_all add: digits1_def form\<close>)
  next
    case c
    have "pos_decimal_str d e = ''0.'' @ replicate (nat (- n)) (CHR ''0'') @ ds"
      unfolding forms by (simp only: if_not_P [OF c(1)] if_not_P [OF c(2)] if_P [OF c(3)])
    then show ?thesis
      by (intro number_textI [of _ "''0''" "''.'' @ replicate (nat (- n)) (CHR ''0'') @ ds" "[]"])
        (use ds zeros_digits in \<open>simp_all add: digits1_def\<close>)
  next
    case d
    define x where "x = CHR ''e'' # (if n - 1 < 0 then ''-'' else ''+'') @ nat_str (nat \<bar>n - 1\<bar>)"
    have x: "\<exists>c ds. x = CHR ''e'' # c # ds \<and> (c = CHR ''+'' \<or> c = CHR ''-'') \<and> digits1 ds"
      unfolding x_def by (rule exponent_text)
    have form: "pos_decimal_str d e = (if k = 1 then ds @ x else take 1 ds @ ''.'' @ drop 1 ds @ x)"
      unfolding forms x_def by (simp only: if_not_P [OF d(1)] if_not_P [OF d(2)] if_not_P [OF d(3)]) simp
    show ?thesis
    proof (cases "k = 1")
      case True
      then show ?thesis
        by (intro number_textI [of _ ds "[]" x]) (use form ds x in simp_all)
    next
      case False
      then have "\<not> length ds \<le> 1" using k unfolding k_def by linarith
      then have "drop 1 ds \<noteq> []" by simp
      moreover have "take 1 ds \<noteq> []" "hd (take 1 ds) \<noteq> CHR ''0''" using ds by (auto simp: hd_take)
      ultimately show ?thesis
        by (intro number_textI [of _ "take 1 ds" "''.'' @ drop 1 ds" x])
          (use form False sub x in \<open>simp_all add: digits1_def\<close>)
    qed
  qed
qed

lemma number_text_start: "number_text s \<Longrightarrow> \<exists>c cs. s = c # cs \<and> is_digit c"
  unfolding number_text_def digits1_def by (auto simp: list_all_iff neq_Nil_conv is_digit_def)

lemma number_text_zero: "number_text ''0''"
  unfolding number_text_def by (intro exI [of _ "''0''"] exI [of _ "[]"]) simp

lemma num_str_shape:
  assumes "num_is_finite v"
  shows "number_text (num_str v) \<or> (\<exists>s. num_str v = CHR ''-'' # s \<and> number_text s)"
  using assms number_text_zero number_text_pos by (cases v) auto

lemma scan_number_text:
  assumes "num_is_finite v" and "ends r"
  shows "scan_number (num_str v @ r) = Some (num_str v, r)"
  using num_str_shape [OF assms(1)]
proof (elim disjE exE conjE)
  assume n: "number_text (num_str v)"
  obtain c cs where c: "num_str v = c # cs" "is_digit c" using number_text_start [OF n] by blast
  then have "c \<noteq> CHR ''-''" by auto
  then show ?thesis using scan_unsigned_text [OF n assms(2)] c by (simp add: scan_number_def)
next
  fix s assume s: "num_str v = CHR ''-'' # s" "number_text s"
  then show ?thesis using scan_unsigned_text [OF s(2) assms(2)] by (simp add: scan_number_def)
qed

lemma num_str_start:
  assumes "num_is_finite v"
  obtains c cs where "num_str v = c # cs" "is_digit c \<or> c = CHR ''-''"
  using num_str_shape [OF assms] number_text_start by blast

section \<open>Reading back a document\<close>

text \<open>
  What \<open>JSON.parse\<close> makes of the canonical text of a document: the fields sorted, every number read from
  its text. Keys of an object are distinct.
\<close>

primrec parsed_as :: "(string \<Rightarrow> jsnum) \<Rightarrow> nat \<Rightarrow> json \<Rightarrow> json" where
  "parsed_as R 0 t = t"
| "parsed_as R (Suc n) t =
    (case t of
       JsNum v \<Rightarrow> JsNum (R (num_str v))
     | JsArr ts \<Rightarrow> JsArr (map (parsed_as R n) ts)
     | JsObj fs \<Rightarrow> JsObj (map (\<lambda>k. (k, case map_of fs k of None \<Rightarrow> JsNull | Some u \<Rightarrow> parsed_as R n u))
         (sort_strings (map fst fs)))
     | JsNull \<Rightarrow> t | JsBool _ \<Rightarrow> t | JsStr _ \<Rightarrow> t)"

fun wf_doc :: "json \<Rightarrow> bool" where
  "wf_doc (JsArr ts) = list_all wf_doc ts"
| "wf_doc (JsObj fs) = (distinct (map fst fs) \<and> list_all (\<lambda>(k, u). wf_doc u) fs)"
| "wf_doc _ = True"

lemma map_res_Inr: "map_res f xs = Inr ys \<longleftrightarrow> list_all2 (\<lambda>x y. f x = Inr y) xs ys"
proof (induction xs arbitrary: ys)
  case (Cons x xs)
  show ?case by (auto simp: list_all2_Cons1 Cons.IH [symmetric] split: sum.splits)
qed auto

lemma then_res_Inr: "then_res r f = Inr y \<longleftrightarrow> (\<exists>x. r = Inr x \<and> f x = Inr y)"
  by (simp add: then_res_def split: sum.split)

lemma audit_string_Inr: "audit_string s = Inr x \<longleftrightarrow> length s \<le> MAX_STRING_BYTES \<and> x = json_string s"
  by (auto simp: audit_string_def)

lemma audit_text_cases [consumes 1, case_names null bool num str arr obj]:
  assumes "audit_text m t = Inr s"
  obtains (null) "t = JsNull" "s = ''null''"
  | (bool) b where "t = JsBool b" "s = (if b then ''true'' else ''false'')"
  | (num) v where "t = JsNum v" "num_is_finite v" "s = num_str v"
  | (str) x where "t = JsStr x" "length x \<le> MAX_STRING_BYTES" "s = json_string x"
  | (arr) n ts ss where "m = Suc n" "t = JsArr ts" "list_all2 (\<lambda>u x. audit_text n u = Inr x) ts ss" "s = array_text ss"
  | (obj) n fs ss where "m = Suc n" "t = JsObj fs"
      "list_all2 (\<lambda>k x. \<exists>u y. map_of fs k = Some u \<and> audit_text n u = Inr y \<and> x = field_text k y)
        (sort_strings (map fst fs)) ss"
      "s = object_text ss"
proof (cases m)
  case 0
  then show thesis using assms by simp
next
  case (Suc n)
  have field: "then_res (case map_of fs k of None \<Rightarrow> Inl depth_exceeded | Some t \<Rightarrow> audit_text n t)
      (\<lambda>s. Inr (field_text k s)) = Inr x \<longleftrightarrow>
    (\<exists>u y. map_of fs k = Some u \<and> audit_text n u = Inr y \<and> x = field_text k y)" for fs k x
    by (auto simp: then_res_Inr split: option.splits)
  show thesis
  proof (cases t)
    case (JsArr ts)
    then show thesis using assms Suc arr by (auto simp: then_res_Inr map_res_Inr)
  next
    case (JsObj fs)
    then have "\<exists>ss. list_all2 (\<lambda>k x. \<exists>u y. map_of fs k = Some u \<and> audit_text n u = Inr y \<and> x = field_text k y)
        (sort_strings (map fst fs)) ss \<and> s = object_text ss"
      using assms unfolding Suc by (simp add: then_res_Inr [of "map_res f xs" for f xs] map_res_Inr field) blast
    then show thesis using obj [OF Suc JsObj] by blast
  qed (use assms Suc null bool num str in \<open>auto simp: audit_number_Inr audit_string_Inr\<close>)
qed

lemma audit_text_start:
  assumes "audit_text m t = Inr s"
  shows "\<exists>c cs. s = c # cs \<and> \<not> json_ws c \<and> c \<noteq> CHR '']'' \<and> c \<noteq> CHR ''}''"
  using assms
proof (cases rule: audit_text_cases)
  case (num v)
  obtain c cs where "num_str v = c # cs" "is_digit c \<or> c = CHR ''-''" by (rule num_str_start [OF num(2)])
  then show ?thesis using num(3) by (auto simp: json_ws_def is_digit_def)
qed (auto simp: json_ws_def json_string_def array_text_def object_text_def)

lemma skip_ws_start: "\<not> json_ws c \<Longrightarrow> skip_ws (c # cs) = c # cs"
  by (simp add: skip_ws_def)

lemma no_ws [simp]:
  "\<not> json_ws (CHR '','')" "\<not> json_ws (CHR '']'')" "\<not> json_ws (CHR ''}'')" "\<not> json_ws (CHR '':'')"
  "\<not> json_ws (CHR 0x22)" "\<not> json_ws (CHR ''['')" "\<not> json_ws (CHR ''{'')"
  by (simp_all add: json_ws_def)

lemma join_more: "xs \<noteq> [] \<Longrightarrow> join sep (x # xs) = x @ sep @ join sep xs"
  by (cases xs) simp_all

definition reads :: "(string \<Rightarrow> jsnum) \<Rightarrow> nat \<Rightarrow> json \<Rightarrow> string \<Rightarrow> bool" where
  "reads R m t s \<longleftrightarrow>
    (\<forall>rest n. ends rest \<longrightarrow> 2 * length s \<le> n \<longrightarrow> parse_value R n (s @ rest) = Some (parsed_as R m t, rest))"

lemma parse_items_text:
  assumes "list_all2 (\<lambda>u x. reads R m u x) ts ss" and "ts \<noteq> []" and "2 * length (join '','' ss) + 1 \<le> n"
  shows "parse_items R n (join '','' ss @ CHR '']'' # rest) = Some (map (parsed_as R m) ts, rest)"
  using assms
proof (induction ts arbitrary: ss n)
  case (Cons u ts)
  then obtain x xs where ss: "ss = x # xs" and x: "reads R m u x" and xs: "list_all2 (reads R m) ts xs"
    by (auto simp: list_all2_Cons1)
  obtain k where n: "n = Suc k" using Cons.prems(3) by (cases n) auto
  show ?case
  proof (cases "ts = []")
    case True
    then have "xs = []" using xs by simp
    moreover have "parse_value R k (x @ CHR '']'' # rest) = Some (parsed_as R m u, CHR '']'' # rest)"
      using x Cons.prems(3) \<open>xs = []\<close> unfolding reads_def ss n by simp
    ultimately show ?thesis using True by (simp add: n ss skip_ws_start)
  next
    case False
    then have ne: "xs \<noteq> []" using xs by auto
    have j: "join '','' ss = x @ '','' @ join '','' xs" by (simp add: ss join_more ne)
    have "parse_value R k (x @ CHR '','' # join '','' xs @ CHR '']'' # rest) =
        Some (parsed_as R m u, CHR '','' # join '','' xs @ CHR '']'' # rest)"
      using x Cons.prems(3) unfolding reads_def j n by simp
    moreover have "parse_items R k (join '','' xs @ CHR '']'' # rest) = Some (map (parsed_as R m) ts, rest)"
      by (rule Cons.IH [OF xs False]) (use Cons.prems(3) in \<open>simp add: j n\<close>)
    ultimately show ?thesis by (simp add: n j skip_ws_start)
  qed
qed simp

lemma parse_fields_text:
  assumes "list_all2 (\<lambda>k x. \<exists>u y. reads R m u y \<and> x = field_text k y \<and> g k = parsed_as R m u) ks ss"
    and "ks \<noteq> []" and "distinct ks" and "set ks \<inter> set (map fst acc) = {}"
    and "2 * length (join '','' ss) + 1 \<le> n"
  shows "parse_fields R n acc (join '','' ss @ CHR ''}'' # rest) = Some (JsObj (acc @ map (\<lambda>k. (k, g k)) ks), rest)"
  using assms
proof (induction ks arbitrary: ss n acc)
  case (Cons k ks)
  then obtain x xs u y where ss: "ss = x # xs" and y: "reads R m u y" "x = field_text k y" "g k = parsed_as R m u"
    and xs: "list_all2 (\<lambda>k x. \<exists>u y. reads R m u y \<and> x = field_text k y \<and> g k = parsed_as R m u) ks xs"
    by (auto simp: list_all2_Cons1)
  obtain j where n: "n = Suc j" using Cons.prems(5) by (cases n) auto
  have new: "AList.update k (g k) acc = acc @ [(k, g k)]" using Cons.prems(4) by (simp add: keys_update_absent)
  have x: "x = CHR 0x22 # concat (map json_escape k) @ CHR 0x22 # CHR '':'' # y"
    by (simp add: y(2) field_text_def json_string_def)
  show ?case
  proof (cases "ks = []")
    case True
    then have e: "xs = []" using xs by simp
    have "parse_value R j (y @ CHR ''}'' # rest) = Some (g k, CHR ''}'' # rest)"
      using y(1) Cons.prems(5) unfolding reads_def ss n e y(3) by (simp add: x)
    then show ?thesis using True e by (simp add: n ss x skip_ws_start new)
  next
    case False
    then have ne: "xs \<noteq> []" using xs by auto
    have jo: "join '','' ss = x @ '','' @ join '','' xs" by (simp add: ss join_more ne)
    have "parse_value R j (y @ CHR '','' # join '','' xs @ CHR ''}'' # rest) =
        Some (g k, CHR '','' # join '','' xs @ CHR ''}'' # rest)"
      using y(1) Cons.prems(5) unfolding reads_def jo n y(3) by (simp add: x)
    moreover have "parse_fields R j (acc @ [(k, g k)]) (join '','' xs @ CHR ''}'' # rest) =
        Some (JsObj ((acc @ [(k, g k)]) @ map (\<lambda>k. (k, g k)) ks), rest)"
      by (rule Cons.IH [OF xs False]) (use Cons.prems in \<open>auto simp: jo n\<close>)
    ultimately show ?thesis by (simp add: n jo x skip_ws_start new)
  qed
qed simp

lemma wf_doc_field: "wf_doc (JsObj fs) \<Longrightarrow> map_of fs k = Some u \<Longrightarrow> wf_doc u"
  by (auto simp: list_all_iff dest: map_of_SomeD)

lemma sort_strings_Nil [simp]: "sort_strings [] = []"
  by (simp add: sort_strings_def)

lemma sort_strings_set [simp]: "set (sort_strings ks) = set ks" "distinct (sort_strings ks) = distinct ks"
  "sort_strings ks = [] \<longleftrightarrow> ks = []"
  by (simp_all add: sort_strings_def) (metis set_empty2 set_sort sort_strings_def)

lemma first_char:
  assumes "is_digit c \<or> c = CHR ''-''"
  shows "c \<noteq> CHR ''n''" "c \<noteq> CHR ''t''" "c \<noteq> CHR ''f''" "c \<noteq> CHR 0x22" "c \<noteq> CHR ''[''" "c \<noteq> CHR ''{''" "\<not> json_ws c"
  using assms by (auto simp: is_digit_def json_ws_def)

lemma parse_text:
  assumes "audit_text m t = Inr s" and "wf_doc t"
  shows "reads R m t s"
  using assms
proof (induction m arbitrary: t s)
  case (Suc m)
  show ?case
    unfolding reads_def
  proof (intro allI impI)
    fix rest n assume rest: "ends rest" and n: "2 * length s \<le> n"
    obtain c0 cs0 where "s = c0 # cs0" using audit_text_start [OF Suc.prems(1)] by blast
    then obtain j where j: "n = Suc j" using n by (cases n) auto
    show "parse_value R n (s @ rest) = Some (parsed_as R (Suc m) t, rest)"
      using Suc.prems(1)
    proof (cases rule: audit_text_cases)
      case null
      then show ?thesis by (simp add: j skip_ws_def json_ws_def literal_def)
    next
      case (bool b)
      then show ?thesis by (cases b) (simp_all add: j skip_ws_def json_ws_def literal_def)
    next
      case (num v)
      obtain c cs where c: "num_str v = c # cs" "is_digit c \<or> c = CHR ''-''" by (rule num_str_start [OF num(2)])
      have "scan_number (num_str v @ rest) = Some (num_str v, rest)" by (rule scan_number_text [OF num(2) rest])
      then show ?thesis using num first_char [OF c(2)] by (simp add: j c(1) skip_ws_start)
    next
      case (str x)
      then show ?thesis by (simp add: j json_string_def skip_ws_start)
    next
      case (arr k ts ss)
      have r: "list_all2 (\<lambda>u x. reads R m u x) ts ss"
        using arr(3) Suc.prems(2) Suc.IH arr(1,2)
        by (auto simp: list_all2_conv_all_nth list_all_length)
      show ?thesis
      proof (cases "ts = []")
        case True
        then show ?thesis using arr by (simp add: j array_text_def skip_ws_start)
      next
        case False
        then obtain u us where "ts = u # us" by (cases ts) auto
        then obtain x xs where ss: "ss = x # xs" "audit_text k u = Inr x" using arr(3) by (auto simp: list_all2_Cons1)
        then obtain c cs where c: "x = c # cs" "\<not> json_ws c" "c \<noteq> CHR '']''" using audit_text_start by blast
        then obtain cs' where join: "join '','' ss = c # cs'" using ss by (cases xs) auto
        have "parse_items R j (join '','' ss @ CHR '']'' # rest) = Some (map (parsed_as R m) ts, rest)"
          by (rule parse_items_text [OF r False]) (use n arr in \<open>simp add: j array_text_def\<close>)
        then show ?thesis using arr c(2,3) by (simp add: j array_text_def skip_ws_start join)
      qed
    next
      case (obj k fs ss)
      define g where "g = (\<lambda>k. case map_of fs k of None \<Rightarrow> JsNull | Some u \<Rightarrow> parsed_as R m u)"
      have r: "list_all2 (\<lambda>k x. \<exists>u y. reads R m u y \<and> x = field_text k y \<and> g k = parsed_as R m u)
          (sort_strings (map fst fs)) ss"
        using obj(3)
      proof (rule list_all2_mono)
        fix k' x assume "\<exists>u y. map_of fs k' = Some u \<and> audit_text k u = Inr y \<and> x = field_text k' y"
        then obtain u y where u: "map_of fs k' = Some u" "audit_text k u = Inr y" "x = field_text k' y" by blast
        have "wf_doc u" using wf_doc_field [OF _ u(1)] Suc.prems(2) obj(2) by simp
        then have "reads R m u y" using Suc.IH u(2) obj(1) by simp
        then show "\<exists>u y. reads R m u y \<and> x = field_text k' y \<and> g k' = parsed_as R m u"
          using u by (auto simp: g_def)
      qed
      have d: "distinct (sort_strings (map fst fs))" using Suc.prems(2) obj(2) by simp
      show ?thesis
      proof (cases "fs = []")
        case True
        then have "sort_strings (map fst fs) = []" by simp
        then show ?thesis using obj True by (simp add: j object_text_def skip_ws_start)
      next
        case False
        then have ne: "sort_strings (map fst fs) \<noteq> []" by simp
        then obtain a as where "sort_strings (map fst fs) = a # as" by (cases "sort_strings (map fst fs)") auto
        then obtain x xs where ss: "ss = x # xs" "\<exists>y. x = field_text a y" using obj(3) by (auto simp: list_all2_Cons1)
        then obtain cs' where join: "join '','' ss = CHR 0x22 # cs'"
          by (cases xs) (auto simp: field_text_def json_string_def)
        have "parse_fields R j [] (join '','' ss @ CHR ''}'' # rest) =
            Some (JsObj ([] @ map (\<lambda>k. (k, g k)) (sort_strings (map fst fs))), rest)"
          by (rule parse_fields_text [OF r ne d]) (use n obj in \<open>simp_all add: j object_text_def\<close>)
        then show ?thesis using obj(2,4) by (simp add: j object_text_def skip_ws_start join g_def)
      qed
    qed
  qed
qed simp

lemma json_parse_text:
  assumes "audit_text m t = Inr s" and "wf_doc t"
  shows "json_parse R s = Some (parsed_as R m t)"
proof -
  have "ends [] \<longrightarrow> 2 * length s \<le> 2 * length s + 1 \<longrightarrow>
      parse_value R (2 * length s + 1) (s @ []) = Some (parsed_as R m t, [])"
    using parse_text [OF assms, of R] unfolding reads_def by blast
  then have "parse_value R (2 * length s + 1) s = Some (parsed_as R m t, [])" by (simp del: parse_value.simps)
  then show ?thesis by (simp add: json_parse_def skip_ws_def)
qed

text \<open>A canonical text is never a proper prefix of another text at the place where a value may end.\<close>

lemma audit_text_unique:
  assumes "audit_text m t = Inr s" "audit_text m' t' = Inr s'" "wf_doc t" "wf_doc t'" "ends r" "ends r'" "s @ r = s' @ r'"
  shows "s = s' \<and> r = r'"
proof -
  define n where "n = 2 * (length s + length s')"
  have "parse_value (\<lambda>_. NaN) n (s @ r) = Some (parsed_as (\<lambda>_. NaN) m t, r)"
    using parse_text [OF assms(1,3), of "\<lambda>_. NaN"] assms(5) unfolding reads_def n_def by simp
  moreover have "parse_value (\<lambda>_. NaN) n (s' @ r') = Some (parsed_as (\<lambda>_. NaN) m' t', r')"
    using parse_text [OF assms(2,4), of "\<lambda>_. NaN"] assms(6) unfolding reads_def n_def by simp
  ultimately show ?thesis using assms(7) by simp
qed

text \<open>\<open>R\<close> reads the text of every number of the document back as that number.\<close>

fun doc_numbers :: "json \<Rightarrow> jsnum list" where
  "doc_numbers (JsNum v) = [v]"
| "doc_numbers (JsArr ts) = concat (map doc_numbers ts)"
| "doc_numbers (JsObj fs) = concat (map (\<lambda>(k, u). doc_numbers u) fs)"
| "doc_numbers _ = []"

definition reads_numbers :: "(string \<Rightarrow> jsnum) \<Rightarrow> json \<Rightarrow> bool" where
  "reads_numbers R t \<longleftrightarrow>
    (\<forall>v \<in> set (doc_numbers t). num_is_finite (R (num_str v)) \<and> num_str (R (num_str v)) = num_str v)"

lemma reads_numbers_simps [simp]:
  "reads_numbers R (JsArr ts) \<longleftrightarrow> (\<forall>u \<in> set ts. reads_numbers R u)"
  "reads_numbers R (JsObj fs) \<longleftrightarrow> (\<forall>(k, u) \<in> set fs. reads_numbers R u)"
  "reads_numbers R (JsNum v) \<longleftrightarrow> num_is_finite (R (num_str v)) \<and> num_str (R (num_str v)) = num_str v"
  "reads_numbers R JsNull" "reads_numbers R (JsBool b)" "reads_numbers R (JsStr s)"
  by (auto simp: reads_numbers_def)

lemma sort_strings_idem [simp]: "sort_strings (sort_strings ks) = sort_strings ks"
  by (simp add: sort_strings_def sort_key_id_if_sorted)

lemma audit_text_JsObj:
  "audit_text (Suc n) (JsObj fs) = Inr s \<longleftrightarrow>
    (\<exists>ss. list_all2 (\<lambda>k x. \<exists>u y. map_of fs k = Some u \<and> audit_text n u = Inr y \<and> x = field_text k y)
      (sort_strings (map fst fs)) ss \<and> s = object_text ss)"
proof -
  have field: "then_res (case map_of fs k of None \<Rightarrow> Inl depth_exceeded | Some t \<Rightarrow> audit_text n t)
      (\<lambda>s. Inr (field_text k s)) = Inr x \<longleftrightarrow>
    (\<exists>u y. map_of fs k = Some u \<and> audit_text n u = Inr y \<and> x = field_text k y)" for k x
    by (auto simp: then_res_Inr split: option.splits)
  show ?thesis by (simp add: then_res_Inr [of "map_res f xs" for f xs] map_res_Inr field) blast
qed

lemma map_of_keys: "map_of (map (\<lambda>k. (k, f k)) ks) k = (if k \<in> set ks then Some (f k) else None)"
  by (induction ks) auto

lemma audit_text_parsed:
  assumes "audit_text m t = Inr s" and "wf_doc t" and "reads_numbers R t"
  shows "audit_text m (parsed_as R m t) = Inr s"
  using assms
proof (induction m arbitrary: t s)
  case (Suc m)
  show ?case
    using Suc.prems(1)
  proof (cases rule: audit_text_cases)
    case (num v)
    then show ?thesis using Suc.prems(3) by (simp add: audit_number_Inr)
  next
    case (arr k ts ss)
    have km: "k = m" using arr(1) by simp
    have "list_all2 (\<lambda>u x. audit_text m u = Inr x) (map (parsed_as R m) ts) ss"
      using arr(3) Suc.IH Suc.prems(2,3) unfolding km arr(2)
      by (auto simp: list_all2_conv_all_nth list_all_length)
    then show ?thesis by (auto simp: arr(2,4) then_res_Inr map_res_Inr)
  next
    case (obj k fs ss)
    have km: "k = m" using obj(1) by simp
    define g where "g = (\<lambda>k. case map_of fs k of None \<Rightarrow> JsNull | Some u \<Rightarrow> parsed_as R m u)"
    have p: "parsed_as R (Suc m) t = JsObj (map (\<lambda>k. (k, g k)) (sort_strings (map fst fs)))"
      by (simp add: obj(2) g_def cong: list.map_cong)
    have keys: "map fst (map (\<lambda>k. (k, g k)) ks) = ks" for ks by (induction ks) auto
    have "list_all2 (\<lambda>k x. \<exists>u y. map_of (map (\<lambda>k. (k, g k)) (sort_strings (map fst fs))) k = Some u \<and>
        audit_text m u = Inr y \<and> x = field_text k y) (sort_strings (map fst fs)) ss"
      using obj(3)
    proof (rule list.rel_mono_strong)
      fix k' x assume k': "k' \<in> set (sort_strings (map fst fs))"
        and "\<exists>u y. map_of fs k' = Some u \<and> audit_text k u = Inr y \<and> x = field_text k' y"
      then obtain u y where u: "map_of fs k' = Some u" "audit_text m u = Inr y" "x = field_text k' y"
        unfolding km by blast
      have "wf_doc u" using wf_doc_field [OF _ u(1)] Suc.prems(2) obj(2) by simp
      moreover have "reads_numbers R u" using Suc.prems(3) obj(2) u(1) by (auto dest: map_of_SomeD)
      ultimately have "audit_text m (parsed_as R m u) = Inr y" using Suc.IH u(2) by blast
      then show "\<exists>u y. map_of (map (\<lambda>k. (k, g k)) (sort_strings (map fst fs))) k' = Some u \<and>
          audit_text m u = Inr y \<and> x = field_text k' y"
        using k' u by (auto simp: map_of_keys g_def)
    qed
    then show ?thesis unfolding p audit_text_JsObj keys sort_strings_idem obj(4) by blast
  qed (use Suc.prems in \<open>auto simp: audit_string_Inr\<close>)
qed simp

section \<open>The document a value denotes\<close>

definition option_list :: "'a option list \<Rightarrow> 'a list option" where
  "option_list xs = (if None \<in> set xs then None else Some (map the xs))"

primrec heap_doc :: "nat \<Rightarrow> heap \<Rightarrow> jsval \<Rightarrow> json option" where
  "heap_doc 0 h v = None"
| "heap_doc (Suc n) h v =
    (let field = (\<lambda>ob k. case own_property ob k of Some (Data _ w) \<Rightarrow> heap_doc n h w | _ \<Rightarrow> None) in
     case v of
       JNull \<Rightarrow> Some JsNull
     | JBool b \<Rightarrow> Some (JsBool b)
     | JNum v \<Rightarrow> Some (JsNum v)
     | JStr s \<Rightarrow> Some (JsStr s)
     | JRef l \<Rightarrow>
         let ob = heap_get h l in
         if ob_array ob
         then map_option JsArr (option_list (map (\<lambda>i. field ob (nat_str i)) [0..<ob_length ob]))
         else map_option JsObj (option_list (map (\<lambda>k. map_option (Pair k) (field ob k)) (sorted_keys ob)))
     | _ \<Rightarrow> None)"

text \<open>Property keys of an object are distinct.\<close>

definition distinct_keys :: "heap \<Rightarrow> bool" where
  "distinct_keys h \<longleftrightarrow> (\<forall>(l, ob) \<in> set h. distinct (map fst (ob_props ob)))"

lemma option_list_choose:
  assumes "\<And>x. x \<in> set xs \<Longrightarrow> f x = Some (g x)"
  shows "option_list (map f xs) = Some (map g xs)"
  using assms by (auto simp: option_list_def comp_def)

lemma distinct_string_props:
  assumes "distinct (map fst ps)"
  shows "distinct (map fst (List.map_filter (\<lambda>(k, d). map_option (\<lambda>s. (s, d)) (key_string k)) ps))"
  using assms
proof (induction ps)
  case (Cons p ps)
  obtain k d where p: "p = (k, d)" by (cases p)
  have "s \<notin> fst ` set (List.map_filter (\<lambda>(k, d). map_option (\<lambda>s. (s, d)) (key_string k)) ps)" if "k = KStr s" for s
  proof
    assume "s \<in> fst ` set (List.map_filter (\<lambda>(k, d). map_option (\<lambda>s. (s, d)) (key_string k)) ps)"
    then obtain k' d' where "(k', d') \<in> set ps" "key_string k' = Some s"
      by (auto simp: List.map_filter_def)
    then have "KStr s \<in> fst ` set ps" by (cases k') (auto simp: rev_image_eqI)
    then show False using Cons.prems that p by auto
  qed
  then show ?case using Cons by (cases k) (auto simp: p List.map_filter_simps)
qed (simp add: List.map_filter_simps)

lemma distinct_sorted_keys: "distinct_keys h \<Longrightarrow> distinct (sorted_keys (heap_get h l))"
  unfolding sorted_keys_def string_props_def
  by (auto simp: heap_get_def distinct_keys_def plain_object_def intro!: distinct_string_props split: option.split
      dest!: map_of_SomeD)

lemma audit_property_Inr: "audit_property ob k e = Inr w \<longleftrightarrow> own_property ob k = Some (Data True w)"
  by (auto simp: audit_property_def split: option.splits descriptor.splits bool.splits)

lemma audit_leaf_doc:
  "audit_leaf v = Inr s \<Longrightarrow> \<exists>t. heap_doc (Suc n) h v = Some t \<and> audit_text (Suc n) t = Inr s \<and> wf_doc t"
  by (cases v) (auto simp: Let_def)

lemma audit_canonical_doc:
  assumes "audit_canonical n h v seen = Inr s" and "distinct_keys h"
  shows "\<exists>t. heap_doc n h v = Some t \<and> audit_text n t = Inr s \<and> wf_doc t"
  using assms(1)
proof (induction n arbitrary: v seen s)
  case (Suc n)
  show ?case
  proof (cases "\<exists>l. v = JRef l")
    case False
    then have "audit_leaf v = Inr s" using Suc.prems by (cases v) auto
    then show ?thesis by (rule audit_leaf_doc)
  next
    case True
    then obtain l where v: "v = JRef l" by blast
    let ?ob = "heap_get h l"
    let ?field = "\<lambda>k. case own_property ?ob k of Some (Data _ w) \<Rightarrow> heap_doc n h w | _ \<Rightarrow> None"
    show ?thesis
    proof (cases "ob_array ?ob")
      case arr: True
      then obtain ss where ss: "list_all2 (\<lambda>i x. \<exists>w. own_property ?ob (nat_str i) = Some (Data True w) \<and>
          audit_canonical n h w (l # seen) = Inr x) [0..<ob_length ?ob] ss" and s: "s = array_text ss"
        using Suc.prems by (auto simp: v Let_def then_res_Inr map_res_Inr audit_property_Inr split: if_splits)
      have ex: "\<exists>t. ?field (nat_str i) = Some t \<and> audit_text n t = Inr x \<and> wf_doc t"
        if "own_property ?ob (nat_str i) = Some (Data True w)" "audit_canonical n h w (l # seen) = Inr x" for i w x
        using Suc.IH [OF that(2)] that(1) by simp
      define g where "g = (\<lambda>i. the (?field (nat_str i)))"
      have all: "list_all2 (\<lambda>i x. ?field (nat_str i) = Some (g i) \<and> audit_text n (g i) = Inr x \<and> wf_doc (g i)) [0..<ob_length ?ob] ss"
        by (rule list_all2_mono [OF ss]) (use ex in \<open>fastforce simp: g_def\<close>)
      have "option_list (map (\<lambda>i. ?field (nat_str i)) [0..<ob_length ?ob]) = Some (map g [0..<ob_length ?ob])"
        by (rule option_list_choose) (use all in \<open>auto simp: list_all2_conv_all_nth\<close>)
      then have "heap_doc (Suc n) h v = Some (JsArr (map g [0..<ob_length ?ob]))" using arr by (simp add: v Let_def)
      moreover have "list_all2 (\<lambda>u x. audit_text n u = Inr x) (map g [0..<ob_length ?ob]) ss"
        using all by (auto simp: list_all2_conv_all_nth)
      then have "audit_text (Suc n) (JsArr (map g [0..<ob_length ?ob])) = Inr s"
        by (auto simp: then_res_Inr map_res_Inr s)
      moreover have "wf_doc (JsArr (map g [0..<ob_length ?ob]))"
        using all by (auto simp: list_all2_conv_all_nth list_all_length)
      ultimately show ?thesis by blast
    next
      case obj: False
      let ?ks = "sorted_keys ?ob"
      obtain ss where ss: "list_all2 (\<lambda>k x. \<exists>w y. own_property ?ob k = Some (Data True w) \<and>
          audit_canonical n h w (l # seen) = Inr y \<and> x = field_text k y) ?ks ss" and s: "s = object_text ss"
      proof -
        have "then_res (map_res (\<lambda>k. then_res (audit_property ?ob k
               (not_canonical ''Audit objects must contain only enumerable data properties.''))
             (\<lambda>w. then_res (audit_canonical n h w (l # seen)) (\<lambda>s. Inr (field_text k s)))) ?ks)
           (\<lambda>fs. Inr (object_text fs)) = Inr s"
          using Suc.prems obj by (simp add: v Let_def split: if_splits)
        moreover have "then_res (audit_property ?ob k e)
            (\<lambda>w. then_res (audit_canonical n h w (l # seen)) (\<lambda>s. Inr (field_text k s))) = Inr x \<longleftrightarrow>
          (\<exists>w y. own_property ?ob k = Some (Data True w) \<and> audit_canonical n h w (l # seen) = Inr y \<and> x = field_text k y)"
          for k e x
          by (auto simp: then_res_Inr audit_property_Inr)
        ultimately show thesis using that
          by (simp add: then_res_Inr [of "map_res f xs" for f xs] map_res_Inr) blast
      qed
      define g where "g = (\<lambda>k. the (?field k))"
      have all: "list_all2 (\<lambda>k x. ?field k = Some (g k) \<and> wf_doc (g k) \<and>
          (\<exists>y. audit_text n (g k) = Inr y \<and> x = field_text k y)) ?ks ss"
      proof (rule list_all2_mono [OF ss])
        fix k x assume "\<exists>w y. own_property ?ob k = Some (Data True w) \<and>
          audit_canonical n h w (l # seen) = Inr y \<and> x = field_text k y"
        then obtain w y where w: "own_property ?ob k = Some (Data True w)" "audit_canonical n h w (l # seen) = Inr y"
          "x = field_text k y" by blast
        then show "?field k = Some (g k) \<and> wf_doc (g k) \<and> (\<exists>y. audit_text n (g k) = Inr y \<and> x = field_text k y)"
          using Suc.IH [OF w(2)] by (auto simp: g_def)
      qed
      have "option_list (map (\<lambda>k. map_option (Pair k) (?field k)) ?ks) = Some (map (\<lambda>k. (k, g k)) ?ks)"
      proof (rule option_list_choose)
        fix k assume "k \<in> set ?ks"
        then obtain i where i: "i < length ?ks" "k = ?ks ! i" by (auto simp: in_set_conv_nth)
        have "?field k = Some (g k)" using list_all2_nthD [OF all i(1)] i(2) by blast
        then show "map_option (Pair k) (?field k) = Some (k, g k)" by simp
      qed
      then have "heap_doc (Suc n) h v = Some (JsObj (map (\<lambda>k. (k, g k)) ?ks))" using obj by (simp add: v Let_def)
      moreover have keys: "map fst (map (\<lambda>k. (k, g k)) ?ks) = ?ks" by (simp add: comp_def)
      have d: "distinct ?ks" by (rule distinct_sorted_keys [OF assms(2)])
      have sorted: "sort_strings ?ks = ?ks" by (simp add: sorted_keys_def)
      have "list_all2 (\<lambda>k x. \<exists>u y. map_of (map (\<lambda>k. (k, g k)) ?ks) k = Some u \<and>
          audit_text n u = Inr y \<and> x = field_text k y) ?ks ss"
        by (rule list.rel_mono_strong [OF all]) (auto simp: map_of_keys)
      then have "audit_text (Suc n) (JsObj (map (\<lambda>k. (k, g k)) ?ks)) = Inr s"
        unfolding audit_text_JsObj keys sorted s by blast
      moreover have "wf_doc (JsObj (map (\<lambda>k. (k, g k)) ?ks))"
        using all d by (auto simp: comp_def list_all2_conv_all_nth list_all_length)
      ultimately show ?thesis by blast
    qed
  qed
qed simp

end
