(* ===== verification/Audit_Ledger.thy ===== *)
theory Audit_Ledger
  imports Audit_Json Event_Bus Js_Double Approval_Store
begin

text \<open>
  The audit ledger of \<open>src/audit/\<close>: a file of lines, each the canonical JSON of a record that carries the
  digest of its predecessor. \<open>runtime-audit-schema.ts\<close> (records), \<open>runtime-audit-verifier.ts\<close> (a whole
  file), \<open>runtime-audit-ledger.ts\<close> (the writer and its listeners on the event bus).

  \<open>H\<close> is SHA-256 in hexadecimal, \<open>R\<close> the number a JSON literal denotes, \<open>G\<close> what a getter of an event object
  answers. The file system answers through arguments: what a look at the path finds, what a write wrote. A
  file is the text that \<open>readFileSync\<close> decodes; bytes that are not UTF-8 are replaced there.
\<close>

section \<open>Records\<close>

definition RUNTIME_AUDIT_VERSION :: string where
  "RUNTIME_AUDIT_VERSION = ''agentlily.runtime-audit/v1''"

definition DEFAULT_RUNTIME_AUDIT_MAX_RECORD_BYTES :: int where
  "DEFAULT_RUNTIME_AUDIT_MAX_RECORD_BYTES = 64 * 1024"

definition RUNTIME_AUDIT_EVENT_NAMES :: "event_name list" where
  "RUNTIME_AUDIT_EVENT_NAMES = [EInternalError, EStarted, EStopped, ETaskReceived, ETaskCompleted, ETaskFailed,
    ETaskReconciled, EToolInvoked, EToolDenied]"

definition is_audit_event_name :: "string \<Rightarrow> bool" where
  "is_audit_event_name s \<longleftrightarrow> s \<in> set (map event_name_str RUNTIME_AUDIT_EVENT_NAMES)"

definition resolve_max_record_bytes :: "jsnum option \<Rightarrow> nat ares" where
  "resolve_max_record_bytes v =
    (let r = (case v of None \<Rightarrow> Fin DEFAULT_RUNTIME_AUDIT_MAX_RECORD_BYTES 0 | Some v \<Rightarrow> v) in
     if \<not> num_is_safe_integer r \<or> num_int r < 1
     then Inl (OtherErr (RangeErr ''maxRecordBytes must be a positive safe integer.''))
     else Inr (nat (num_int r)))"

definition EVENT_FIELDS :: "string list" where
  "EVENT_FIELDS = [''name'', ''payload'']"

definition RECORD_FIELDS :: "string list" where
  "RECORD_FIELDS = [''event'', ''previousDigest'', ''recordDigest'', ''sequence'', ''version'']"

text \<open>\<open>event.k\<close> on a plain object.\<close>

definition member_value :: "(loc \<Rightarrow> string \<Rightarrow> jsval) \<Rightarrow> heap \<Rightarrow> loc \<Rightarrow> string \<Rightarrow> jsval" where
  "member_value G h l k =
    (case own_property (heap_get h l) k of Some (Data _ v) \<Rightarrow> v | Some (Accessor _) \<Rightarrow> G l k | None \<Rightarrow> JUndefined)"

definition assert_event_for_audit :: "(loc \<Rightarrow> string \<Rightarrow> jsval) \<Rightarrow> heap \<Rightarrow> jsval \<Rightarrow> unit ares" where
  "assert_event_for_audit G h ev =
    (let failure = Inl (not_canonical ''Audit events must contain exactly name and payload.'') in
     case ev of
       JRef l \<Rightarrow>
         if \<not> is_plain_audit_record h ev \<or> \<not> exact_audit_keys (enumerable_keys (heap_get h l)) EVENT_FIELDS then failure
         else if \<not> (case member_value G h l ''name'' of JStr s \<Rightarrow> is_audit_event_name s | _ \<Rightarrow> False)
         then Inl (not_canonical ''Audit event name is not part of the runtime event catalog.'')
         else then_res (canonical_audit_json h (member_value G h l ''payload'')) (\<lambda>_. Inr ())
     | _ \<Rightarrow> failure)"

text \<open>The fields of the hashed body and of the record, and the text of a new object with such fields.\<close>

definition digest_value :: "string option \<Rightarrow> jsval" where
  "digest_value d = (case d of None \<Rightarrow> JNull | Some s \<Rightarrow> JStr s)"

definition body_fields :: "jsval \<Rightarrow> string option \<Rightarrow> nat \<Rightarrow> (string \<times> jsval) list" where
  "body_fields ev prev n = [(''event'', ev), (''previousDigest'', digest_value prev),
    (''sequence'', JNum (num_of_nat n)), (''version'', JStr RUNTIME_AUDIT_VERSION)]"

definition record_fields :: "jsval \<Rightarrow> string option \<Rightarrow> nat \<Rightarrow> string \<Rightarrow> (string \<times> jsval) list" where
  "record_fields ev prev n d = body_fields ev prev n @ [(''recordDigest'', JStr d)]"

definition new_object_json :: "heap \<Rightarrow> (string \<times> jsval) list \<Rightarrow> string ares" where
  "new_object_json h fs =
    then_res (map_res (\<lambda>k. case map_of fs k of
        None \<Rightarrow> Inl depth_exceeded
      | Some v \<Rightarrow> then_res (audit_canonical MAX_CANONICAL_DEPTH h v []) (\<lambda>s. Inr (field_text k s)))
      (sort_strings (map fst fs))) (\<lambda>ss. Inr (object_text ss))"

text \<open>\<open>verifyParsedRuntimeAuditRecord\<close>: the digest, or what is wrong.\<close>

definition matches_head :: "json option \<Rightarrow> string option \<Rightarrow> bool" where
  "matches_head j head \<longleftrightarrow> j = Some (case head of None \<Rightarrow> JsNull | Some d \<Rightarrow> JsStr d)"

definition is_sequence :: "json option \<Rightarrow> nat \<Rightarrow> bool" where
  "is_sequence j n \<longleftrightarrow>
    (case j of
       Some (JsNum v) \<Rightarrow> num_is_safe_integer v \<and> strict_equal (JNum v) (JNum (num_of_nat n)) \<and> 1 \<le> n
     | _ \<Rightarrow> False)"

definition record_body :: "json \<Rightarrow> json" where
  "record_body t = JsObj (map (\<lambda>k. (k, case json_field t k of None \<Rightarrow> JsNull | Some v \<Rightarrow> v))
    [''event'', ''previousDigest'', ''sequence'', ''version''])"

definition uncanonicalizable :: "audit_error \<Rightarrow> string" where
  "uncanonicalizable e = (case audit_message e of
     None \<Rightarrow> ''event payload is not canonicalizable''
   | Some m \<Rightarrow> ''event payload is not canonicalizable: '' @ m)"

definition doc_keys :: "json \<Rightarrow> string list" where
  "doc_keys t = (case t of JsObj fs \<Rightarrow> map fst fs | _ \<Rightarrow> [])"

definition check_digest :: "(string \<Rightarrow> string) \<Rightarrow> json \<Rightarrow> json \<Rightarrow> string \<Rightarrow> string + string" where
  "check_digest H t event d =
    (case json_field event ''payload'' of
       None \<Rightarrow> Inl ''event fields are not exact''
     | Some payload \<Rightarrow>
         (case canonical_document payload of
            Inl e \<Rightarrow> Inl (uncanonicalizable e)
          | Inr _ \<Rightarrow>
              (case canonical_document (record_body t) of
                 Inl e \<Rightarrow> Inl (uncanonicalizable e)
               | Inr s \<Rightarrow> if H s \<noteq> d then Inl ''record digest mismatch'' else Inr d)))"

definition verify_parsed :: "(string \<Rightarrow> string) \<Rightarrow> json \<Rightarrow> nat \<Rightarrow> string option \<Rightarrow> string + string" where
  "verify_parsed H t n head =
    (if \<not> is_json_object t then Inl ''record is not a plain object''
     else if \<not> exact_audit_keys (doc_keys t) RECORD_FIELDS then Inl ''record fields are not exact''
     else if json_field t ''version'' \<noteq> Some (JsStr RUNTIME_AUDIT_VERSION) then Inl ''unsupported audit version''
     else if \<not> is_sequence (json_field t ''sequence'') n then Inl ''invalid or non-monotonic sequence''
     else if \<not> matches_head (json_field t ''previousDigest'') head
     then Inl ''previous digest does not match the verified chain head''
     else
       (case json_field t ''recordDigest'' of
          Some (JsStr d) \<Rightarrow>
            if \<not> is_sha256_hex d then Inl ''record digest is not canonical SHA-256 hex''
            else
              (case json_field t ''event'' of
                 Some (JsObj es) \<Rightarrow>
                   if \<not> exact_audit_keys (map fst es) EVENT_FIELDS then Inl ''event fields are not exact''
                   else if \<not> (case map_of es ''name'' of Some (JsStr s) \<Rightarrow> is_audit_event_name s | _ \<Rightarrow> False)
                   then Inl ''event name is not part of the current runtime event catalog''
                   else check_digest H t (JsObj es) d
               | _ \<Rightarrow> Inl ''event fields are not exact'')
        | _ \<Rightarrow> Inl ''record digest is not canonical SHA-256 hex''))"

section \<open>The verifier\<close>

record verification =
  vr_ok :: bool
  vr_count :: nat
  vr_head :: "string option"
  vr_invalid :: "nat option"
  vr_reason :: "string option"

text \<open>What a look at the path finds; a message is missing when what was thrown is no \<open>Error\<close>.\<close>

datatype ledger_file =
    Missing
  | Uninspectable "string option"
  | NotRegular
  | Unreadable "string option"
  | LedgerText string

definition newline :: char where
  "newline = CHR 0x0A"

fun split_lines :: "string \<Rightarrow> string list" where
  "split_lines [] = [[]]"
| "split_lines (c # s) =
    (if c = newline then [] # split_lines s
     else (case split_lines s of [] \<Rightarrow> [[c]] | l # ls \<Rightarrow> (c # l) # ls))"

definition verify_line :: "(string \<Rightarrow> jsnum) \<Rightarrow> (string \<Rightarrow> string) \<Rightarrow> nat \<Rightarrow> nat \<Rightarrow> string option \<Rightarrow> string \<Rightarrow> string + string" where
  "verify_line R H limit n head line =
    (if line = [] then Inl ''audit ledger contains an empty record''
     else if limit < length (line @ [newline]) then Inl (''audit record exceeds '' @ nat_str limit @ '' bytes'')
     else
       (case json_parse R line of
          None \<Rightarrow> Inl ''audit record is not valid JSON''
        | Some t \<Rightarrow>
            (case canonical_document t of
               Inl e \<Rightarrow> Inl (case audit_message e of None \<Rightarrow> ''audit record is not canonical'' | Some m \<Rightarrow> m)
             | Inr s \<Rightarrow>
                 if s \<noteq> line then Inl ''audit record is not canonical JSON'' else verify_parsed H t n head)))"

text \<open>The loop: the number of good records, the head of the chain, and what is wrong with the next line.\<close>

fun verify_lines :: "(string \<Rightarrow> jsnum) \<Rightarrow> (string \<Rightarrow> string) \<Rightarrow> nat \<Rightarrow> nat \<Rightarrow> string option \<Rightarrow> string list \<Rightarrow>
    nat \<times> string option \<times> string option" where
  "verify_lines R H limit n head [] = (n, head, None)"
| "verify_lines R H limit n head (line # ls) =
    (case verify_line R H limit (Suc n) head line of
       Inl e \<Rightarrow> (n, head, Some e)
     | Inr d \<Rightarrow> verify_lines R H limit (Suc n) (Some d) ls)"

definition valid_ledger :: "nat \<Rightarrow> string option \<Rightarrow> verification" where
  "valid_ledger n head = \<lparr>vr_ok = True, vr_count = n, vr_head = head, vr_invalid = None, vr_reason = None\<rparr>"

definition invalid_ledger :: "nat \<Rightarrow> string option \<Rightarrow> nat option \<Rightarrow> string \<Rightarrow> verification" where
  "invalid_ledger n head bad reason =
    \<lparr>vr_ok = False, vr_count = n, vr_head = head, vr_invalid = bad, vr_reason = Some reason\<rparr>"

definition verify_ledger_text :: "(string \<Rightarrow> jsnum) \<Rightarrow> (string \<Rightarrow> string) \<Rightarrow> nat \<Rightarrow> string \<Rightarrow> verification" where
  "verify_ledger_text R H limit raw =
    (if raw = [] then valid_ledger 0 None
     else
       (let ls = butlast (split_lines raw) in
        case verify_lines R H limit 0 None ls of
          (n, head, Some e) \<Rightarrow> invalid_ledger n head (Some (Suc n)) e
        | (n, head, None) \<Rightarrow>
            if last raw \<noteq> newline
            then invalid_ledger (length ls) head (Some (Suc (length ls))) ''audit ledger has a truncated final record''
            else valid_ledger (length ls) head))"

definition verify_ledger_file :: "(string \<Rightarrow> jsnum) \<Rightarrow> (string \<Rightarrow> string) \<Rightarrow> nat \<Rightarrow> ledger_file \<Rightarrow> verification" where
  "verify_ledger_file R H limit f =
    (case f of
       Missing \<Rightarrow> valid_ledger 0 None
     | NotRegular \<Rightarrow> invalid_ledger 0 None None ''audit ledger path is not an ordinary regular file''
     | Uninspectable m \<Rightarrow> invalid_ledger 0 None None (case m of None \<Rightarrow> ''unable to inspect ledger'' | Some m \<Rightarrow> m)
     | Unreadable m \<Rightarrow> invalid_ledger 0 None None (case m of None \<Rightarrow> ''unable to read ledger'' | Some m \<Rightarrow> m)
     | LedgerText raw \<Rightarrow> verify_ledger_text R H limit raw)"

definition ledger_path_error :: audit_error where
  "ledger_path_error = OtherErr (TypeErr ''audit ledger path must be a non-empty string.'')"

definition valid_path :: "jsval \<Rightarrow> bool" where
  "valid_path p = (case p of JStr s \<Rightarrow> \<not> blank s | _ \<Rightarrow> False)"

definition verify_runtime_audit_ledger ::
  "(string \<Rightarrow> jsnum) \<Rightarrow> (string \<Rightarrow> string) \<Rightarrow> jsval \<Rightarrow> jsnum option \<Rightarrow> ledger_file \<Rightarrow> verification ares" where
  "verify_runtime_audit_ledger R H path limit f =
    (if \<not> valid_path path then Inl ledger_path_error
     else then_res (resolve_max_record_bytes limit) (\<lambda>limit. Inr (verify_ledger_file R H limit f)))"

section \<open>The writer\<close>

record ledger =
  al_path :: string
  al_max :: nat
  al_open :: bool
  al_count :: nat
  al_head :: "string option"
  al_healthy :: bool
  al_reason :: "string option"
  al_closed :: bool

definition mark_unhealthy :: "audit_error \<Rightarrow> ledger \<Rightarrow> ledger" where
  "mark_unhealthy e l = l\<lparr>al_healthy := False,
    al_reason := Some (case audit_message e of None \<Rightarrow> ''Unknown audit ledger failure.'' | Some m \<Rightarrow> m)\<rparr>"

definition assert_healthy :: "ledger \<Rightarrow> unit ares" where
  "assert_healthy l =
    (if \<not> al_healthy l
     then Inl (AuditErr AUDIT_UNHEALTHY (case al_reason l of None \<Rightarrow> ''Audit ledger is unhealthy.'' | Some m \<Rightarrow> m))
     else Inr ())"

definition with_reason :: "string \<Rightarrow> string option \<Rightarrow> string" where
  "with_reason m r = m @ (case r of None \<Rightarrow> ''.'' | Some t \<Rightarrow> if t = [] then ''.'' else '': '' @ t)"

text \<open>
  What the constructor meets after the first verification: the result of creating the directories, whether
  the path holds something that is no regular file, the result of opening it, whether the descriptor is
  regular, and the file as the second verification sees it.
\<close>

record opening_env =
  op_mkdir :: "unit res"
  op_irregular :: "bool res"
  op_open :: "unit res"
  op_regular :: "bool res"
  op_after :: ledger_file

definition other_res :: "'a res \<Rightarrow> 'a ares" where
  "other_res r = (case r of Inl e \<Rightarrow> Inl (OtherErr e) | Inr x \<Rightarrow> Inr x)"

definition open_ledger ::
  "(string \<Rightarrow> jsnum) \<Rightarrow> (string \<Rightarrow> string) \<Rightarrow> string \<Rightarrow> nat \<Rightarrow> bool \<Rightarrow> ledger_file \<Rightarrow> opening_env \<Rightarrow> ledger ares" where
  "open_ledger R H path limit create f op =
    (let v = verify_ledger_file R H limit f in
     if \<not> vr_ok v
     then Inl (AuditErr AUDIT_CORRUPTED (with_reason ''Refusing to append to an invalid audit ledger'' (vr_reason v)))
     else then_res (if create then other_res (op_mkdir op) else Inr ()) (\<lambda>_.
       then_res (other_res (op_irregular op)) (\<lambda>irregular.
       if irregular
       then Inl (AuditErr AUDIT_NON_REGULAR_FILE ''Audit ledger path must be an ordinary regular file.'')
       else then_res (other_res (op_open op)) (\<lambda>_.
         then_res (other_res (op_regular op)) (\<lambda>regular.
         if \<not> regular
         then Inl (AuditErr AUDIT_NON_REGULAR_FILE ''Audit ledger descriptor is not a regular file.'')
         else
           (let a = verify_ledger_file R H limit (op_after op) in
            if \<not> vr_ok a
            then Inl (AuditErr AUDIT_CORRUPTED
              (with_reason ''Audit ledger changed or became invalid while opening'' (vr_reason a)))
            else Inr \<lparr>al_path = path, al_max = limit, al_open = True, al_count = vr_count a, al_head = vr_head a,
              al_healthy = True, al_reason = None, al_closed = False\<rparr>))))))"

text \<open>\<open>paths\<close> is \<open>activeLedgerPaths\<close>, \<open>resolve\<close> the function of \<open>node:path\<close>.\<close>

definition new_ledger ::
  "(string \<Rightarrow> string) \<Rightarrow> (string \<Rightarrow> jsnum) \<Rightarrow> (string \<Rightarrow> string) \<Rightarrow> jsval \<Rightarrow> jsnum option \<Rightarrow> bool \<Rightarrow> ledger_file \<Rightarrow>
    opening_env \<Rightarrow> string list \<Rightarrow> ledger ares \<times> string list" where
  "new_ledger resolve R H path limit create f op paths =
    (case path of
       JStr s \<Rightarrow>
         if blank s then (Inl ledger_path_error, paths)
         else
           (case resolve_max_record_bytes limit of
              Inl e \<Rightarrow> (Inl e, paths)
            | Inr limit \<Rightarrow>
                if resolve s \<in> set paths
                then (Inl (AuditErr AUDIT_ALREADY_OPEN
                  ''An audit ledger writer is already open for this path in this process.''), paths)
                else (case open_ledger R H (resolve s) limit create f op of
                    Inl e \<Rightarrow> (Inl e, paths)
                  | Inr l \<Rightarrow> (Inr l, set_add (resolve s) paths)))
     | _ \<Rightarrow> (Inl ledger_path_error, paths))"

text \<open>A write appends some bytes of the line, then throws or returns how many; then the flush.\<close>

datatype write_outcome = WriteThrows nat js_error | Wrote nat

record ledger_record =
  lr_event :: jsval
  lr_previous :: "string option"
  lr_digest :: string
  lr_sequence :: nat

definition prepare_record ::
  "(loc \<Rightarrow> string \<Rightarrow> jsval) \<Rightarrow> (string \<Rightarrow> string) \<Rightarrow> heap \<Rightarrow> jsval \<Rightarrow> ledger \<Rightarrow> (ledger_record \<times> string) ares" where
  "prepare_record G H h ev l =
    then_res (assert_event_for_audit G h ev) (\<lambda>_.
    then_res (new_object_json h (body_fields ev (al_head l) (al_count l + 1))) (\<lambda>body.
    then_res (new_object_json h (record_fields ev (al_head l) (al_count l + 1) (H body))) (\<lambda>json.
    let line = json @ [newline] in
    if al_max l < length line
    then Inl (AuditErr AUDIT_RECORD_TOO_LARGE (''Audit record exceeds '' @ nat_str (al_max l) @ '' bytes.''))
    else Inr (\<lparr>lr_event = ev, lr_previous = al_head l, lr_digest = H body, lr_sequence = al_count l + 1\<rparr>, line))))"

text \<open>\<open>append\<close> on the writer and the text of the file.\<close>

definition ledger_append ::
  "(loc \<Rightarrow> string \<Rightarrow> jsval) \<Rightarrow> (string \<Rightarrow> string) \<Rightarrow> heap \<Rightarrow> jsval \<Rightarrow> write_outcome \<Rightarrow> unit res \<Rightarrow> ledger \<times> string \<Rightarrow>
    ledger_record ares \<times> ledger \<times> string" where
  "ledger_append G H h ev wrote flushed lc =
    (case lc of
       (l, content) \<Rightarrow>
         (case assert_healthy l of
            Inl e \<Rightarrow> (Inl e, l, content)
          | Inr _ \<Rightarrow>
              if al_closed l \<or> \<not> al_open l
              then (Inl (AuditErr AUDIT_UNHEALTHY ''Audit ledger is closed.''), l, content)
              else
                (case prepare_record G H h ev l of
                   Inl e \<Rightarrow> (Inl e, mark_unhealthy e l, content)
                 | Inr (r, line) \<Rightarrow>
                     (case wrote of
                        WriteThrows k e \<Rightarrow> (Inl (OtherErr e), mark_unhealthy (OtherErr e) l, content @ take k line)
                      | Wrote k \<Rightarrow>
                          if k \<noteq> length line
                          then (let e = AuditErr AUDIT_IO_FAILED ''Audit ledger write was incomplete.'' in
                            (Inl e, mark_unhealthy e l, content @ take k line))
                          else
                            (case flushed of
                               Inl e \<Rightarrow> (Inl (OtherErr e), mark_unhealthy (OtherErr e) l, content @ take k line)
                             | Inr _ \<Rightarrow>
                                 (Inr r, l\<lparr>al_count := lr_sequence r, al_head := Some (lr_digest r)\<rparr>, content @ take k line))))))"

definition ledger_status :: "ledger \<Rightarrow> bool \<times> bool \<times> nat \<times> string option \<times> string option" where
  "ledger_status l = (al_healthy l, al_closed l, al_count l, al_head l, al_reason l)"

text \<open>\<open>close\<close>, given what the flush and the close of the descriptor answer.\<close>

definition ledger_close :: "unit res \<Rightarrow> unit res \<Rightarrow> ledger \<Rightarrow> string list \<Rightarrow> unit ares \<times> ledger \<times> string list" where
  "ledger_close flushed closed l paths =
    (if al_closed l then (Inr (), l, paths)
     else
       (let failure = (if \<not> al_open l then None
              else (case (flushed, closed) of
                  (Inl e, _) \<Rightarrow> Some e
                | (Inr _, Inl e) \<Rightarrow> Some e
                | (Inr _, Inr _) \<Rightarrow> None));
            l = l\<lparr>al_closed := True, al_open := False\<rparr>;
            paths = set_del (al_path l) paths
        in case failure of
             None \<Rightarrow> (Inr (), l, paths)
           | Some e \<Rightarrow> (Inl (OtherErr e), mark_unhealthy (OtherErr e) l, paths)))"

section \<open>Attaching to the event bus\<close>

text \<open>One listener per event name, numbered from \<open>k\<close>; when a registration throws, the earlier ones go.\<close>

fun detach_all :: "unsubscribe list \<Rightarrow> event_bus \<Rightarrow> event_bus" where
  "detach_all [] b = b"
| "detach_all (Nothing # us) b = detach_all us b"
| "detach_all (CallOff n l # us) b = detach_all us (snd (bus_off n l b))"

fun attach_names :: "event_name list \<Rightarrow> nat \<Rightarrow> unsubscribe list \<Rightarrow> event_bus \<Rightarrow> unsubscribe list res \<times> event_bus" where
  "attach_names [] k us b = (Inr us, b)"
| "attach_names (n # ns) k us b =
    (case bus_on n (Plain k) b of
       (Inl e, b) \<Rightarrow> (Inl e, detach_all us b)
     | (Inr u, b) \<Rightarrow> attach_names ns (Suc k) (us @ [u]) b)"

definition attach_ledger :: "nat \<Rightarrow> event_bus \<Rightarrow> unsubscribe list res \<times> event_bus" where
  "attach_ledger k b = attach_names RUNTIME_AUDIT_EVENT_NAMES k [] b"

text \<open>The returned function, with its flag.\<close>

definition detach_once :: "unsubscribe list \<Rightarrow> bool \<Rightarrow> event_bus \<Rightarrow> bool \<times> event_bus" where
  "detach_once us detached b = (if detached then (True, b) else (True, detach_all us b))"

section \<open>Lines\<close>

definition unlines :: "string list \<Rightarrow> string" where
  "unlines ls = concat (map (\<lambda>l. l @ [newline]) ls)"

lemma unlines_simps [simp]: "unlines [] = []" "unlines (l # ls) = l @ newline # unlines ls"
  "unlines (ls @ ls') = unlines ls @ unlines ls'"
  by (simp_all add: unlines_def)

lemma split_lines_nonempty [simp]: "split_lines s \<noteq> []"
  by (induction s) (auto split: list.split)

lemma split_lines_append:
  assumes "newline \<notin> set l"
  shows "split_lines (l @ newline # s) = l # split_lines s"
  using assms by (induction l) (auto split: list.splits)

lemma split_unlines: "\<forall>l \<in> set ls. newline \<notin> set l \<Longrightarrow> split_lines (unlines ls) = ls @ [[]]"
  by (induction ls) (auto simp: split_lines_append)

lemma split_lines_clean: "\<forall>l \<in> set (split_lines s). newline \<notin> set l"
  by (induction s) (auto split: list.splits)

lemma unlines_split: "unlines (butlast (split_lines s)) @ last (split_lines s) = s"
  by (induction s) (auto split: list.splits)

lemma split_lines_single: "split_lines s = [l] \<Longrightarrow> s = l"
  using unlines_split [of s] by simp

lemma last_split: "s \<noteq> [] \<Longrightarrow> last s = newline \<longleftrightarrow> last (split_lines s) = []"
proof (induction s)
  case (Cons c s)
  show ?case
  proof (cases "s = []")
    case False
    then have "split_lines s = l # ls \<Longrightarrow> last s = newline \<longleftrightarrow> last (l # ls) = []" for l ls using Cons.IH by simp
    then show ?thesis using False split_lines_single [of s "[]"]
      by (cases "split_lines s") (auto split: if_splits)
  qed (auto split: if_splits)
qed simp

lemma verify_lines_snoc:
  "verify_lines R H limit n head (ls @ [l]) =
    (case verify_lines R H limit n head ls of
       (m, h, Some e) \<Rightarrow> (m, h, Some e)
     | (m, h, None) \<Rightarrow>
         (case verify_line R H limit (Suc m) h l of Inl e \<Rightarrow> (m, h, Some e) | Inr d \<Rightarrow> (Suc m, Some d, None)))"
  by (induction ls arbitrary: n head) (auto split: sum.splits)

lemma verify_lines_count: "verify_lines R H limit n head ls = (m, h, None) \<Longrightarrow> m = n + length ls"
proof (induction ls arbitrary: n head)
  case (Cons l ls)
  then show ?case by (fastforce split: sum.splits)
qed simp

text \<open>A valid file is a list of complete lines that verify.\<close>

lemma valid_text:
  "verify_ledger_text R H limit raw = valid_ledger n head \<longleftrightarrow>
    (\<exists>ls. raw = unlines ls \<and> (\<forall>l \<in> set ls. newline \<notin> set l) \<and> verify_lines R H limit 0 None ls = (n, head, None))"
    (is "?valid \<longleftrightarrow> ?chain")
proof (cases "raw = []")
  case True
  have "[] = unlines ls \<longleftrightarrow> ls = []" for ls by (cases ls) auto
  then show ?thesis unfolding True by (auto simp: verify_ledger_text_def valid_ledger_def)
next
  case False
  let ?ls = "butlast (split_lines raw)"
  note parts = unlines_split [of raw] last_split [OF False]
  obtain m h e where run: "verify_lines R H limit 0 None ?ls = (m, h, e)" by (cases "verify_lines R H limit 0 None ?ls") auto
  show ?thesis
  proof
    assume ?valid
    then have "e = None" "last raw = newline" "n = length ?ls" "h = head"
      using False run by (auto simp: verify_ledger_text_def Let_def valid_ledger_def invalid_ledger_def
          split: option.splits if_splits)
    moreover have "\<forall>l \<in> set ?ls. newline \<notin> set l" using split_lines_clean [of raw] by (auto dest: in_set_butlastD)
    ultimately show ?chain using run parts verify_lines_count [of R H limit 0 None ?ls m h]
      by (intro exI [of _ ?ls]) auto
  next
    assume ?chain
    then obtain ls where ls: "raw = unlines ls" "\<forall>l \<in> set ls. newline \<notin> set l"
      "verify_lines R H limit 0 None ls = (n, head, None)" by blast
    then have s: "split_lines raw = ls @ [[]]" by (simp add: split_unlines)
    then have "last raw = newline" using parts(2) by simp
    then show ?valid using False s ls(3) verify_lines_count [OF ls(3)] by (simp add: verify_ledger_text_def Let_def)
  qed
qed

section \<open>A canonical text is one line\<close>

lemma json_escape_clean: "newline \<notin> set (json_escape c)"
proof -
  have "char_of (48 + d) \<noteq> newline" if "d < 10" for d :: nat
  proof
    assume "char_of (48 + d) = newline"
    then have "(of_char (char_of (48 + d) :: char) :: nat) = of_char newline" by simp
    then show False using that by (simp add: newline_def)
  qed
  moreover have "char_of (87 + d) \<noteq> newline" if "d < 16" for d :: nat
  proof
    assume "char_of (87 + d) = newline"
    then have "(of_char (char_of (87 + d) :: char) :: nat) = of_char newline" by simp
    then show False using that by (simp add: newline_def)
  qed
  ultimately have hex: "hex_digit d \<noteq> newline" if "d < 16" for d using that by (auto simp: hex_digit_def)
  show ?thesis
  proof (cases "(of_char c :: nat) < 32")
    case True
    then have "hex_digit (of_char c div 16) \<noteq> newline" "hex_digit (of_char c mod 16) \<noteq> newline"
      by (simp_all add: hex)
    then show ?thesis using True by (auto simp: json_escape_def Let_def newline_def)
  next
    case False
    then have "c \<noteq> newline" by (auto simp: newline_def)
    then show ?thesis using False by (auto simp: json_escape_def Let_def newline_def)
  qed
qed

lemma json_string_clean: "newline \<notin> set (json_string s)"
  using json_escape_clean by (auto simp: json_string_def newline_def)

lemma newline_other [simp]:
  "newline \<noteq> CHR ''0''" "newline \<noteq> CHR ''.''" "newline \<noteq> CHR ''e''" "newline \<noteq> CHR ''+''" "newline \<noteq> CHR ''-''"
  by (simp_all add: newline_def)

lemma digits1_clean: "digits1 ds \<Longrightarrow> newline \<notin> set ds"
  by (auto simp: digits1_def list_all_iff newline_def is_digit_def)

lemma number_text_clean: "number_text s \<Longrightarrow> newline \<notin> set s"
  unfolding number_text_def by (auto simp: digits1_clean)

lemma num_str_clean: "num_is_finite v \<Longrightarrow> newline \<notin> set (num_str v)"
  using num_str_shape [of v] number_text_clean by (auto simp: newline_def)

lemma join_clean:
  assumes "\<forall>x \<in> set xs. newline \<notin> set x"
  shows "newline \<notin> set (join '','' xs)"
  using assms by (cases xs) (auto simp: join_def newline_def)

lemma audit_text_clean: "audit_text m t = Inr s \<Longrightarrow> newline \<notin> set s"
proof (induction m arbitrary: t s)
  case (Suc m)
  from Suc.prems show ?case
  proof (cases rule: audit_text_cases)
    case (arr n ts ss)
    have "newline \<notin> set x" if x: "x \<in> set ss" for x
    proof -
      obtain i where i: "i < length ss" "x = ss ! i" using x by (auto simp: in_set_conv_nth)
      then have "audit_text n (ts ! i) = Inr x" using list_all2_nthD2 [OF arr(3) i(1)] by simp
      then show ?thesis using Suc.IH arr(1) by simp
    qed
    then show ?thesis using join_clean arr(4) by (auto simp: array_text_def newline_def)
  next
    case (obj n fs ss)
    have "newline \<notin> set x" if x: "x \<in> set ss" for x
    proof -
      obtain i where i: "i < length ss" "x = ss ! i" using x by (auto simp: in_set_conv_nth)
      obtain u y where "audit_text n u = Inr y" "x = field_text (sort_strings (map fst fs) ! i) y"
        using list_all2_nthD2 [OF obj(3) i(1)] i(2) by blast
      then show ?thesis using Suc.IH obj(1) json_string_clean by (auto simp: field_text_def newline_def)
    qed
    then show ?thesis using join_clean obj(4) by (auto simp: object_text_def newline_def)
  next
    case (num v)
    then show ?thesis by (simp add: num_str_clean)
  next
    case (str x)
    then show ?thesis by (simp add: json_string_clean)
  qed (auto simp: newline_def split: if_splits)
qed simp

section \<open>What parsing returns has distinct keys\<close>

lemma wf_update: "wf_doc (JsObj fs) \<Longrightarrow> wf_doc t \<Longrightarrow> wf_doc (JsObj (AList.update k t fs))"
  by (auto simp: distinct_update list_all_iff dest!: in_update)

lemma parse_wf:
  "parse_value R n s = Some (t, r) \<Longrightarrow> wf_doc t"
  "parse_items R n s = Some (ts, r') \<Longrightarrow> list_all wf_doc ts"
  "parse_fields R n fs s = Some (t', r'') \<Longrightarrow> wf_doc (JsObj fs) \<Longrightarrow> wf_doc t'"
proof (induction R n s and R n s and R n fs s arbitrary: t r and ts r' and t' r''
    rule: parse_value_parse_items_parse_fields.induct)
  case (2 R n s)
  obtain c cs where c: "skip_ws s = c # cs" using 2(3) by (cases "skip_ws s") auto
  have lit: "literal w v x = Some (t, r) \<Longrightarrow> t = v" for w v x by (simp add: literal_def split: if_splits)
  consider "c = CHR ''[''" | "c = CHR ''{''" | "c \<noteq> CHR ''[''" "c \<noteq> CHR ''{''" by blast
  then show ?case
  proof cases
    case 1
    then show ?thesis using 2(1,3) c by (auto split: if_splits)
  next
    case k: 2
    show ?thesis
    proof (cases "prefix ''}'' (skip_ws cs)")
      case True
      then show ?thesis using 2(3) c k by auto
    next
      case False
      then have "parse_fields R n [] cs = Some (t, r)" using 2(3) c k by simp
      then show ?thesis using 2(2) [OF c] k False by simp
    qed
  next
    case 3
    then show ?thesis using 2(3) c by (auto dest: lit split: if_splits)
  qed
next
  case (4 R n s)
  obtain u x where u: "parse_value R n s = Some (u, x)" using 4(3) by (cases "parse_value R n s") auto
  obtain c cs where c: "skip_ws x = c # cs" using 4(3) u by (cases "skip_ws x") auto
  show ?case
  proof (cases "c = CHR '']''")
    case True
    then show ?thesis using 4(1,3) u c by auto
  next
    case False
    then have k: "c = CHR '',''" using 4(3) u c by (auto split: if_splits)
    then obtain us where "parse_items R n cs = Some (us, r')" "ts = u # us" using 4(3) u c by auto
    then show ?thesis using 4(1) [OF u] 4(2) [OF u refl c False k] by simp
  qed
next
  case (6 R n fs s)
  obtain q s1 where q: "skip_ws s = q # s1" "q = CHR 0x22" using 6(3) by (auto split: list.splits if_splits)
  obtain k s2 where k: "read_string s1 = Some (k, s2)" using 6(3) q by (cases "read_string s1") auto
  obtain d s3 where d: "skip_ws s2 = d # s3" "d = CHR '':''" using 6(3) q k by (auto split: list.splits if_splits)
  obtain u s4 where u: "parse_value R n s3 = Some (u, s4)" using 6(3) q k d by (cases "parse_value R n s3") auto
  obtain c s5 where c: "skip_ws s4 = c # s5" using 6(3) q k d u by (cases "skip_ws s4") auto
  have "wf_doc u" by (rule 6(1) [OF q(1) _ k refl d(1) _ u]) (use q d in simp_all)
  then have w: "wf_doc (JsObj (AList.update k u fs))" by (rule wf_update [OF 6(4)])
  show ?case
  proof (cases "c = CHR ''}''")
    case True
    then show ?thesis using 6(3) q k d u c w by simp
  next
    case False
    then have e: "c = CHR '',''" and p: "parse_fields R n (AList.update k u fs) s5 = Some (t', r'')"
      using 6(3) q k d u c by (auto split: if_splits)
    show ?thesis by (rule 6(2) [OF q(1) _ k refl d(1) _ u refl c False e p w]) (use q d in simp_all)
  qed
qed simp_all

lemma json_parse_wf: "json_parse R s = Some t \<Longrightarrow> wf_doc t"
  by (auto simp: json_parse_def parse_wf(1) split: option.splits if_splits simp del: parse_value.simps)

section \<open>A verified line\<close>

lemma sorted_fields [simp]:
  "sort_strings RECORD_FIELDS = RECORD_FIELDS" "sort_strings EVENT_FIELDS = EVENT_FIELDS"
  "sort_strings [''event'', ''previousDigest'', ''sequence'', ''version''] =
    [''event'', ''previousDigest'', ''sequence'', ''version'']"
  by (simp_all add: sort_strings_def RECORD_FIELDS_def EVENT_FIELDS_def utf16_key_def char_rank_def)

definition head_doc :: "string option \<Rightarrow> json" where
  "head_doc head = (case head of None \<Rightarrow> JsNull | Some d \<Rightarrow> JsStr d)"

definition head_text :: "string option \<Rightarrow> string" where
  "head_text head = (case head of None \<Rightarrow> ''null'' | Some d \<Rightarrow> json_string d)"

definition body_text :: "string \<Rightarrow> string option \<Rightarrow> string \<Rightarrow> string" where
  "body_text e head q = object_text [field_text ''event'' e, field_text ''previousDigest'' (head_text head),
    field_text ''sequence'' q, field_text ''version'' (json_string RUNTIME_AUDIT_VERSION)]"

definition line_text :: "string \<Rightarrow> string option \<Rightarrow> string \<Rightarrow> string \<Rightarrow> string" where
  "line_text e head d q = object_text [field_text ''event'' e, field_text ''previousDigest'' (head_text head),
    field_text ''recordDigest'' (json_string d), field_text ''sequence'' q,
    field_text ''version'' (json_string RUNTIME_AUDIT_VERSION)]"

definition doc_text :: "string \<Rightarrow> bool" where
  "doc_text s \<longleftrightarrow> (\<exists>m t. audit_text m t = Inr s \<and> wf_doc t)"

lemma doc_text_unique: "doc_text s \<Longrightarrow> doc_text s' \<Longrightarrow> s @ CHR '','' # r = s' @ CHR '','' # r' \<Longrightarrow> s = s' \<and> r = r'"
  unfolding doc_text_def using audit_text_unique [of _ _ s _ _ s' "CHR '','' # r" "CHR '','' # r'"] by auto

lemma head_text_inj: "head_text a = head_text b \<Longrightarrow> a = b"
proof -
  assume eq: "head_text a = head_text b"
  have inj: "json_string s = json_string s' \<Longrightarrow> s = s'" for s s'
    using json_string_prefix_free [of s "[]" s' "[]"] by simp
  have "json_string s \<noteq> ''null''" for s by (simp add: json_string_def)
  with eq inj show "a = b" by (auto simp: head_text_def split: option.splits)
qed

lemma body_text_inj:
  assumes "body_text e head q = body_text e' head' q'"
    and "doc_text e" "doc_text e'" "doc_text (head_text head)" "doc_text (head_text head')" "doc_text q" "doc_text q'"
  shows "e = e' \<and> head = head' \<and> q = q'"
proof -
  let ?v = "field_text ''version'' (json_string RUNTIME_AUDIT_VERSION) @ ''}''"
  let ?s = "\<lambda>q. json_string ''sequence'' @ CHR '':'' # q @ CHR '','' # ?v"
  let ?p = "\<lambda>head q. json_string ''previousDigest'' @ CHR '':'' # head_text head @ CHR '','' # ?s q"
  have "e @ CHR '','' # ?p head q = e' @ CHR '','' # ?p head' q'"
    using assms(1) by (simp add: body_text_def object_text_def field_text_def)
  from doc_text_unique [OF assms(2,3) this] have e: "e = e'" and "?p head q = ?p head' q'" by auto
  then have "head_text head @ CHR '','' # ?s q = head_text head' @ CHR '','' # ?s q'" by simp
  from doc_text_unique [OF assms(4,5) this] have h: "head_text head = head_text head'" and "?s q = ?s q'" by auto
  then have "q @ CHR '','' # ?v = q' @ CHR '','' # ?v" by simp
  from doc_text_unique [OF assms(6,7) this] show ?thesis using e head_text_inj [OF h] by simp
qed

lemma audit_text_leaf:
  "audit_text (Suc m) (head_doc head) = Inr s \<Longrightarrow> s = head_text head"
  "audit_text (Suc m) (JsStr x) = Inr s \<Longrightarrow> s = json_string x"
  by (auto simp: head_doc_def head_text_def audit_string_Inr split: option.splits)

lemma list_all2_RECORD_FIELDS:
  "list_all2 P RECORD_FIELDS ss \<longleftrightarrow> (\<exists>a b c d e. ss = [a, b, c, d, e] \<and> P ''event'' a \<and> P ''previousDigest'' b \<and>
    P ''recordDigest'' c \<and> P ''sequence'' d \<and> P ''version'' e)"
  by (auto simp: RECORD_FIELDS_def list_all2_Cons1)

lemma list_all2_body_fields:
  "list_all2 P [''event'', ''previousDigest'', ''sequence'', ''version''] ss \<longleftrightarrow>
    (\<exists>a b d e. ss = [a, b, d, e] \<and> P ''event'' a \<and> P ''previousDigest'' b \<and> P ''sequence'' d \<and> P ''version'' e)"
  by (auto simp: list_all2_Cons1)

lemma canonical_document_obj:
  "canonical_document (JsObj fs) = Inr s \<longleftrightarrow>
    (\<exists>ss. list_all2 (\<lambda>k x. \<exists>u y. map_of fs k = Some u \<and> audit_text MAX_CANONICAL_DEPTH u = Inr y \<and> x = field_text k y)
      (sort_strings (map fst fs)) ss \<and> s = object_text ss)"
  unfolding canonical_document_def by (rule audit_text_JsObj)

lemma max_depth_Suc: "\<exists>m. MAX_CANONICAL_DEPTH = Suc m"
  by (simp add: MAX_CANONICAL_DEPTH_def)

lemma field_leaf:
  assumes "audit_text MAX_CANONICAL_DEPTH u = Inr y"
  shows "u = head_doc head \<Longrightarrow> y = head_text head" and "u = JsStr x \<Longrightarrow> y = json_string x"
  using assms audit_text_leaf max_depth_Suc by metis+

lemma verify_parsed_Inr:
  assumes "verify_parsed H t n head = Inr d"
  obtains fs es b where "t = JsObj fs" "sort_strings (map fst fs) = RECORD_FIELDS"
    "map_of fs ''version'' = Some (JsStr RUNTIME_AUDIT_VERSION)" "map_of fs ''previousDigest'' = Some (head_doc head)"
    "map_of fs ''recordDigest'' = Some (JsStr d)" "is_sha256_hex d" "map_of fs ''event'' = Some (JsObj es)"
    "is_sequence (map_of fs ''sequence'') n" "canonical_document (record_body t) = Inr b" "H b = d"
proof -
  obtain fs where t: "t = JsObj fs" using assms by (cases t) (auto simp: verify_parsed_def)
  have guards: "sort_strings (map fst fs) = RECORD_FIELDS" "map_of fs ''version'' = Some (JsStr RUNTIME_AUDIT_VERSION)"
    "is_sequence (map_of fs ''sequence'') n" "map_of fs ''previousDigest'' = Some (head_doc head)"
    using assms by (auto simp: verify_parsed_def t exact_audit_keys_def doc_keys_def matches_head_def head_doc_def
        split: if_splits)
  then obtain d' es where d': "map_of fs ''recordDigest'' = Some (JsStr d')" "is_sha256_hex d'"
    "map_of fs ''event'' = Some (JsObj es)" and c: "check_digest H t (JsObj es) d' = Inr d"
    using assms by (auto simp: verify_parsed_def t exact_audit_keys_def doc_keys_def matches_head_def head_doc_def
        split: if_splits option.splits json.splits)
  obtain b where "canonical_document (record_body t) = Inr b" "H b = d'" "d = d'"
    using c by (auto simp: check_digest_def split: option.splits sum.splits if_splits)
  then show thesis using that [OF t guards(1,2,4) _ _ d'(3) guards(3)] d' by simp
qed

lemma verified_line:
  assumes "verify_line R H limit n head line = Inr d"
  obtains t e q b where "json_parse R line = Some t" "canonical_document (record_body t) = Inr b" "H b = d"
    "line = line_text e head d q" "b = body_text e head q" "doc_text e" "doc_text (head_text head)" "doc_text q"
proof -
  obtain t where t: "json_parse R line = Some t" "canonical_document t = Inr line" "verify_parsed H t n head = Inr d"
    using assms by (auto simp: verify_line_def split: if_splits option.splits sum.splits)
  obtain fs es b where fs: "t = JsObj fs" "sort_strings (map fst fs) = RECORD_FIELDS"
    "map_of fs ''version'' = Some (JsStr RUNTIME_AUDIT_VERSION)" "map_of fs ''previousDigest'' = Some (head_doc head)"
    "map_of fs ''recordDigest'' = Some (JsStr d)" "is_sha256_hex d" "map_of fs ''event'' = Some (JsObj es)"
    "is_sequence (map_of fs ''sequence'') n" and b: "canonical_document (record_body t) = Inr b" "H b = d"
    by (rule verify_parsed_Inr [OF t(3)])
  have wf: "wf_doc t" by (rule json_parse_wf [OF t(1)])
  obtain v where q0: "map_of fs ''sequence'' = Some v" using fs(8) by (auto simp: is_sequence_def split: option.splits)
  obtain e p r q w where texts: "audit_text MAX_CANONICAL_DEPTH (JsObj es) = Inr e"
    "audit_text MAX_CANONICAL_DEPTH (head_doc head) = Inr p" "audit_text MAX_CANONICAL_DEPTH (JsStr d) = Inr r"
    "audit_text MAX_CANONICAL_DEPTH v = Inr q" "audit_text MAX_CANONICAL_DEPTH (JsStr RUNTIME_AUDIT_VERSION) = Inr w"
    and line: "line = object_text [field_text ''event'' e, field_text ''previousDigest'' p, field_text ''recordDigest'' r,
      field_text ''sequence'' q, field_text ''version'' w]"
    using t(2) unfolding fs(1) canonical_document_obj fs(2) list_all2_RECORD_FIELDS
    by (auto simp: fs(3,4,5,7) q0)
  have leaf: "p = head_text head" "r = json_string d" "w = json_string RUNTIME_AUDIT_VERSION"
    using field_leaf texts by blast+
  have "b = body_text e head q"
    using b(1) unfolding record_body_def canonical_document_obj
    by (simp add: list_all2_body_fields comp_def fs(1,3,4,7) q0 texts body_text_def leaf)
  moreover have "wf_doc (JsObj es)" "wf_doc (head_doc head)" "wf_doc v"
    using wf_doc_field [OF wf [unfolded fs(1)]] fs(4,7) q0 by blast+
  then have "doc_text e" "doc_text (head_text head)" "doc_text q"
    unfolding doc_text_def using texts leaf(1) by blast+
  ultimately show thesis using that [OF t(1) b] line by (simp add: line_text_def leaf)
qed

section \<open>Tampering shows in the head\<close>

definition hashed_bodies :: "(string \<Rightarrow> jsnum) \<Rightarrow> string \<Rightarrow> string set" where
  "hashed_bodies R raw = {b. \<exists>line \<in> set (split_lines raw). \<exists>t. json_parse R line = Some t \<and>
    canonical_document (record_body t) = Inr b}"

lemma chain_unique:
  assumes "verify_lines R H limit 0 None ls = (n, head, None)" and "verify_lines R H limit' 0 None ls' = (n', head, None)"
    and "inj_on H B"
    and "\<And>line t b. line \<in> set ls \<union> set ls' \<Longrightarrow> json_parse R line = Some t \<Longrightarrow>
      canonical_document (record_body t) = Inr b \<Longrightarrow> b \<in> B"
  shows "ls = ls'"
  using assms(1,2,4)
proof (induction ls arbitrary: ls' n n' head rule: rev_induct)
  case Nil
  then show ?case by (cases ls' rule: rev_cases) (auto simp: verify_lines_snoc split: prod.splits option.splits sum.splits)
next
  case (snoc l ls)
  obtain m h d where l: "verify_lines R H limit 0 None ls = (m, h, None)" "verify_line R H limit (Suc m) h l = Inr d"
      "head = Some d"
    using snoc.prems(1) by (auto simp: verify_lines_snoc split: prod.splits option.splits sum.splits)
  obtain l' ks where ls': "ls' = ks @ [l']"
    using snoc.prems(2) l(3) by (cases ls' rule: rev_cases) auto
  obtain m' h' d' where l': "verify_lines R H limit' 0 None ks = (m', h', None)" "verify_line R H limit' (Suc m') h' l' = Inr d'"
      "head = Some d'"
    using snoc.prems(2) by (auto simp: ls' verify_lines_snoc split: prod.splits option.splits sum.splits)
  obtain t e q b where 1: "json_parse R l = Some t" "canonical_document (record_body t) = Inr b" "H b = d"
    "l = line_text e h d q" "b = body_text e h q" "doc_text e" "doc_text (head_text h)" "doc_text q"
    by (rule verified_line [OF l(2)])
  obtain t' e' q' b' where 2: "json_parse R l' = Some t'" "canonical_document (record_body t') = Inr b'" "H b' = d'"
    "l' = line_text e' h' d' q'" "b' = body_text e' h' q'" "doc_text e'" "doc_text (head_text h')" "doc_text q'"
    by (rule verified_line [OF l'(2)])
  have "b \<in> B" "b' \<in> B" using snoc.prems(3) 1(1,2) 2(1,2) ls' by auto
  then have "b = b'" using assms(3) 1(3) 2(3) l(3) l'(3) by (auto dest: inj_onD)
  then have same: "e = e'" "h = h'" "q = q'" using body_text_inj [of e h q e' h' q'] 1 2 by auto
  have "ls = ks" by (rule snoc.IH [OF l(1) l'(1) [folded same(2)]]) (use snoc.prems(3) ls' in auto)
  then show ?case using same 1(4) 2(4) l(3) l'(3) by (simp add: ls')
qed

lemma ledger_unique:
  assumes "verify_ledger_text R H limit raw = valid_ledger n head"
    and "verify_ledger_text R H limit' raw' = valid_ledger n' head"
    and "inj_on H (hashed_bodies R raw \<union> hashed_bodies R raw')"
  shows "raw = raw'"
proof -
  obtain ls where ls: "raw = unlines ls" "\<forall>l \<in> set ls. newline \<notin> set l" "verify_lines R H limit 0 None ls = (n, head, None)"
    using assms(1) unfolding valid_text by blast
  obtain ls' where ls': "raw' = unlines ls'" "\<forall>l \<in> set ls'. newline \<notin> set l" "verify_lines R H limit' 0 None ls' = (n', head, None)"
    using assms(2) unfolding valid_text by blast
  have "ls = ls'"
  proof (rule chain_unique [OF ls(3) ls'(3) assms(3)])
    fix line t b
    assume "line \<in> set ls \<union> set ls'" and "json_parse R line = Some t" "canonical_document (record_body t) = Inr b"
    then show "b \<in> hashed_bodies R raw \<union> hashed_bodies R raw'"
      by (auto simp: hashed_bodies_def ls(1) ls'(1) split_unlines ls(2) ls'(2))
  qed
  then show ?thesis using ls(1) ls'(1) by simp
qed

end
