(* ===== verification/Audit_Chain.thy ===== *)
theory Audit_Chain
  imports Audit_Ledger
begin

text \<open>
  What the writer keeps: a record it appends is a line that the verifier accepts after the lines before it,
  and a writer whose append failed writes nothing more. Attaching it to a bus either registers a listener for
  every event name, which its detach function takes off again, or leaves the listeners as they were.
\<close>

section \<open>The document of a record\<close>

lemma audit_text_Suc: "audit_text m t = Inr s \<Longrightarrow> audit_text (Suc m) t = Inr s"
proof (induction m arbitrary: t s)
  case (Suc m)
  from Suc.prems show ?case
  proof (cases rule: audit_text_cases)
    case (arr n ts ss)
    have "list_all2 (\<lambda>u x. audit_text (Suc m) u = Inr x) ts ss"
      by (rule list_all2_mono [OF arr(3)]) (use Suc.IH arr(1) in simp)
    then show ?thesis unfolding audit_text.simps(2) [of "Suc m"] arr(2)
      by (auto simp: then_res_Inr map_res_Inr arr(4) simp del: audit_text.simps)
  next
    case (obj n fs ss)
    have "list_all2 (\<lambda>k x. \<exists>u y. map_of fs k = Some u \<and> audit_text (Suc m) u = Inr y \<and> x = field_text k y)
        (sort_strings (map fst fs)) ss"
      by (rule list_all2_mono [OF obj(3)]) (use Suc.IH obj(1) in blast)
    then show ?thesis unfolding obj(2) audit_text_JsObj obj(4) by blast
  qed (simp_all add: audit_number_Inr audit_string_Inr)
qed simp

lemma audit_text_more: "audit_text m t = Inr s \<Longrightarrow> m \<le> n \<Longrightarrow> audit_text n t = Inr s"
  by (induction n rule: nat_induct) (auto simp: le_Suc_eq simp del: audit_text.simps intro: audit_text_Suc)

lemma new_object_json_Inr:
  "new_object_json h fs = Inr s \<longleftrightarrow>
    (\<exists>ss. list_all2 (\<lambda>k x. \<exists>v y. map_of fs k = Some v \<and>
      audit_canonical MAX_CANONICAL_DEPTH h v [] = Inr y \<and> x = field_text k y) (sort_strings (map fst fs)) ss \<and>
      s = object_text ss)"
proof -
  have "then_res (audit_canonical MAX_CANONICAL_DEPTH h v []) (\<lambda>s. Inr (field_text k s)) = Inr x \<longleftrightarrow>
      (\<exists>y. audit_canonical MAX_CANONICAL_DEPTH h v [] = Inr y \<and> x = field_text k y)" for k v x
    by (auto simp: then_res_Inr)
  then have "(case map_of fs k of None \<Rightarrow> Inl depth_exceeded
      | Some v \<Rightarrow> then_res (audit_canonical MAX_CANONICAL_DEPTH h v []) (\<lambda>s. Inr (field_text k s))) = Inr x \<longleftrightarrow>
    (\<exists>v y. map_of fs k = Some v \<and> audit_canonical MAX_CANONICAL_DEPTH h v [] = Inr y \<and> x = field_text k y)" for k x
    by (auto split: option.splits)
  then show ?thesis unfolding new_object_json_def
    by (simp add: then_res_Inr [of "map_res f xs" for f xs] map_res_Inr) blast
qed

lemma new_object_field:
  assumes "new_object_json h fs = Inr s" and "map_of fs k = Some v"
  shows "\<exists>y. audit_canonical MAX_CANONICAL_DEPTH h v [] = Inr y"
proof -
  obtain ss where ss: "list_all2 (\<lambda>k x. \<exists>v y. map_of fs k = Some v \<and>
      audit_canonical MAX_CANONICAL_DEPTH h v [] = Inr y \<and> x = field_text k y) (sort_strings (map fst fs)) ss"
    using assms(1) unfolding new_object_json_Inr by blast
  have "k \<in> set (sort_strings (map fst fs))" using assms(2) by (force dest: map_of_SomeD)
  then obtain i where "i < length (sort_strings (map fst fs))" "sort_strings (map fst fs) ! i = k"
    unfolding in_set_conv_nth by blast
  then show ?thesis using list_all2_nthD [OF ss] assms(2) by fastforce
qed

lemma new_object_doc:
  assumes "new_object_json h fs = Inr s" and "distinct_keys h" and "distinct (map fst fs)"
    and "map_of ts = (\<lambda>k. Option.bind (map_of fs k) (heap_doc MAX_CANONICAL_DEPTH h))" and "map fst ts = map fst fs"
  shows "canonical_document (JsObj ts) = Inr s" and "wf_doc (JsObj ts)"
proof -
  obtain ss where ss: "list_all2 (\<lambda>k x. \<exists>v y. map_of fs k = Some v \<and>
      audit_canonical MAX_CANONICAL_DEPTH h v [] = Inr y \<and> x = field_text k y) (sort_strings (map fst fs)) ss"
    and s: "s = object_text ss"
    using assms(1) unfolding new_object_json_Inr by blast
  have "list_all2 (\<lambda>k x. \<exists>u y. map_of ts k = Some u \<and> audit_text MAX_CANONICAL_DEPTH u = Inr y \<and> x = field_text k y)
      (sort_strings (map fst ts)) ss"
    unfolding assms(5)
  proof (rule list_all2_mono [OF ss])
    fix k x assume "\<exists>v y. map_of fs k = Some v \<and> audit_canonical MAX_CANONICAL_DEPTH h v [] = Inr y \<and> x = field_text k y"
    then obtain v y where v: "map_of fs k = Some v" "audit_canonical MAX_CANONICAL_DEPTH h v [] = Inr y"
      "x = field_text k y" by blast
    then show "\<exists>u y. map_of ts k = Some u \<and> audit_text MAX_CANONICAL_DEPTH u = Inr y \<and> x = field_text k y"
      using audit_canonical_doc [OF v(2) assms(2)] assms(4) by auto
  qed
  then show "canonical_document (JsObj ts) = Inr s" unfolding canonical_document_obj s by blast
  have "wf_doc t" if kt: "(k, t) \<in> set ts" for k t
  proof -
    have t: "map_of ts k = Some t" using kt assms(3,5) by simp
    then obtain v where v: "map_of fs k = Some v" "heap_doc MAX_CANONICAL_DEPTH h v = Some t"
      using assms(4) by (auto simp: bind_eq_Some_conv)
    obtain y where "audit_canonical MAX_CANONICAL_DEPTH h v [] = Inr y" using new_object_field [OF assms(1) v(1)] by blast
    then show ?thesis using audit_canonical_doc [OF _ assms(2)] v(2) by fastforce
  qed
  then show "wf_doc (JsObj ts)" using assms(3,5) by (auto simp: list_all_iff)
qed

definition body_doc :: "json \<Rightarrow> string option \<Rightarrow> nat \<Rightarrow> (string \<times> json) list" where
  "body_doc t head n = [(''event'', t), (''previousDigest'', head_doc head), (''sequence'', JsNum (num_of_nat n)),
    (''version'', JsStr RUNTIME_AUDIT_VERSION)]"

definition record_doc :: "json \<Rightarrow> string option \<Rightarrow> nat \<Rightarrow> string \<Rightarrow> (string \<times> json) list" where
  "record_doc t head n d = body_doc t head n @ [(''recordDigest'', JsStr d)]"

lemma heap_doc_leaf:
  "heap_doc MAX_CANONICAL_DEPTH h (digest_value head) = Some (head_doc head)"
  "heap_doc MAX_CANONICAL_DEPTH h (JStr s) = Some (JsStr s)" "heap_doc MAX_CANONICAL_DEPTH h (JNum v) = Some (JsNum v)"
proof -
  obtain m where m: "MAX_CANONICAL_DEPTH = Suc m" using max_depth_Suc by blast
  show "heap_doc MAX_CANONICAL_DEPTH h (digest_value head) = Some (head_doc head)"
    "heap_doc MAX_CANONICAL_DEPTH h (JStr s) = Some (JsStr s)" "heap_doc MAX_CANONICAL_DEPTH h (JNum v) = Some (JsNum v)"
    by (simp_all add: m digest_value_def head_doc_def split: option.split)
qed

lemma body_docs:
  assumes "new_object_json h (body_fields ev head n) = Inr b" and "distinct_keys h"
    and "heap_doc MAX_CANONICAL_DEPTH h ev = Some t"
  shows "canonical_document (JsObj (body_doc t head n)) = Inr b" and "wf_doc (JsObj (body_doc t head n))"
proof -
  have "distinct (map fst (body_fields ev head n))" "map fst (body_doc t head n) = map fst (body_fields ev head n)"
    "map_of (body_doc t head n) = (\<lambda>k. Option.bind (map_of (body_fields ev head n) k) (heap_doc MAX_CANONICAL_DEPTH h))"
    by (auto simp: body_fields_def body_doc_def assms(3) heap_doc_leaf fun_eq_iff)
  then show "canonical_document (JsObj (body_doc t head n)) = Inr b" "wf_doc (JsObj (body_doc t head n))"
    using new_object_doc [OF assms(1,2)] by blast+
qed

lemma record_docs:
  assumes "new_object_json h (record_fields ev head n d) = Inr b" and "distinct_keys h"
    and "heap_doc MAX_CANONICAL_DEPTH h ev = Some t"
  shows "canonical_document (JsObj (record_doc t head n d)) = Inr b" and "wf_doc (JsObj (record_doc t head n d))"
proof -
  have "distinct (map fst (record_fields ev head n d))"
    "map fst (record_doc t head n d) = map fst (record_fields ev head n d)"
    "map_of (record_doc t head n d) =
      (\<lambda>k. Option.bind (map_of (record_fields ev head n d) k) (heap_doc MAX_CANONICAL_DEPTH h))"
    by (auto simp: record_fields_def body_fields_def record_doc_def body_doc_def assms(3) heap_doc_leaf fun_eq_iff)
  then show "canonical_document (JsObj (record_doc t head n d)) = Inr b" "wf_doc (JsObj (record_doc t head n d))"
    using new_object_doc [OF assms(1,2)] by blast+
qed

text \<open>An event that passes the check denotes an object of a catalogued name and a payload.\<close>

lemma audit_object_fields:
  assumes "audit_canonical (Suc n) h (JRef l) seen = Inr s" and "\<not> ob_array (heap_get h l)" and "k \<in> set (sorted_keys (heap_get h l))"
  shows "\<exists>w y. own_property (heap_get h l) k = Some (Data True w) \<and> audit_canonical n h w (l # seen) = Inr y"
proof -
  let ?ob = "heap_get h l"
  have "then_res (map_res (\<lambda>k. then_res (audit_property ?ob k
         (not_canonical ''Audit objects must contain only enumerable data properties.''))
       (\<lambda>w. then_res (audit_canonical n h w (l # seen)) (\<lambda>s. Inr (field_text k s)))) (sorted_keys ?ob))
     (\<lambda>fs. Inr (object_text fs)) = Inr s"
    using assms(1,2) by (simp add: Let_def split: if_splits)
  then obtain ss where ss: "list_all2 (\<lambda>k x. then_res (audit_property ?ob k
         (not_canonical ''Audit objects must contain only enumerable data properties.''))
       (\<lambda>w. then_res (audit_canonical n h w (l # seen)) (\<lambda>s. Inr (field_text k s))) = Inr x) (sorted_keys ?ob) ss"
    by (auto simp: then_res_Inr [of "map_res f xs" for f xs] map_res_Inr)
  obtain i where i: "i < length (sorted_keys ?ob)" "sorted_keys ?ob ! i = k"
    using assms(3) unfolding in_set_conv_nth by blast
  show ?thesis using list_all2_nthD [OF ss i(1)] unfolding i(2) by (auto simp: then_res_Inr audit_property_Inr)
qed

lemma string_props_in: "(k, d) \<in> set (string_props ob) \<longleftrightarrow> (KStr k, d) \<in> set (ob_props ob)"
proof -
  have "(k, d) \<in> set (List.map_filter (\<lambda>(k, d). map_option (\<lambda>s. (s, d)) (key_string k)) ps) \<longleftrightarrow> (KStr k, d) \<in> set ps"
    for ps
  proof (induction ps)
    case (Cons p ps)
    obtain x c where p: "p = (x, c)" by (cases p)
    show ?case using Cons.IH by (cases x) (simp_all add: p map_filter_simps)
  qed (simp add: map_filter_simps)
  then show ?thesis by (simp add: string_props_def)
qed

lemma heap_get_distinct: "distinct_keys h \<Longrightarrow> distinct (map fst (ob_props (heap_get h l)))"
  by (auto simp: heap_get_def distinct_keys_def plain_object_def split: option.split dest!: map_of_SomeD)

lemma all_enumerable:
  assumes "audit_canonical (Suc n) h (JRef l) seen = Inr s" and "\<not> ob_array (heap_get h l)" and "distinct_keys h"
  shows "enumerable_keys (heap_get h l) = map fst (string_props (heap_get h l))"
proof -
  let ?ob = "heap_get h l"
  have "case d of Data b _ \<Rightarrow> b | Accessor b \<Rightarrow> b" if kd: "(k, d) \<in> set (string_props ?ob)" for k d
  proof -
    have "(KStr k, d) \<in> set (ob_props ?ob)" using kd by (simp add: string_props_in)
    then have "own_property ?ob k = Some d" using heap_get_distinct [OF assms(3), of l] by (simp add: own_property_def)
    moreover have "k \<in> set (sorted_keys ?ob)" using kd by (force simp: sorted_keys_def)
    ultimately show ?thesis using audit_object_fields [OF assms(1,2)] by fastforce
  qed
  then show ?thesis by (auto simp: enumerable_keys_def intro!: arg_cong [where f = "map fst"] filter_True)
qed

lemma event_doc:
  assumes "assert_event_for_audit G h ev = Inr u" and "audit_canonical MAX_CANONICAL_DEPTH h ev [] = Inr e"
    and "distinct_keys h"
  obtains s p where "heap_doc MAX_CANONICAL_DEPTH h ev = Some (JsObj [(''name'', JsStr s), (''payload'', p)])"
    "is_audit_event_name s"
proof -
  obtain m where m: "MAX_CANONICAL_DEPTH = Suc (Suc m)" by (simp add: MAX_CANONICAL_DEPTH_def)
  obtain l where ev: "ev = JRef l" using assms(1) by (cases ev) (auto simp: assert_event_for_audit_def Let_def)
  let ?ob = "heap_get h l"
  have plain: "\<not> ob_array ?ob" "sort_strings (enumerable_keys ?ob) = EVENT_FIELDS"
    "case member_value G h l ''name'' of JStr s \<Rightarrow> is_audit_event_name s | _ \<Rightarrow> False"
    using assms(1) by (auto simp: ev assert_event_for_audit_def is_plain_audit_record_def exact_audit_keys_def
        split: if_splits)
  note enc = assms(2) [unfolded m ev]
  have keys: "sorted_keys ?ob = [''name'', ''payload'']"
    using plain(2) all_enumerable [OF enc plain(1) assms(3)] by (simp add: sorted_keys_def EVENT_FIELDS_def)
  obtain w where w: "own_property ?ob ''name'' = Some (Data True w)"
    using audit_object_fields [OF enc plain(1), of "''name''"] unfolding keys by auto
  then obtain s where s: "w = JStr s" "is_audit_event_name s"
    using plain(3) by (auto simp: member_value_def split: jsval.splits)
  have "''payload'' \<in> set (sorted_keys ?ob)" unfolding keys by simp
  from audit_object_fields [OF enc plain(1) this]
  obtain v y where v: "own_property ?ob ''payload'' = Some (Data True v)" "audit_canonical (Suc m) h v [l] = Inr y" by blast
  obtain p where p: "heap_doc (Suc m) h v = Some p" using audit_canonical_doc [OF v(2) assms(3)] by blast
  have "heap_doc (Suc m) h (JStr s) = Some (JsStr s)" by simp
  then have "heap_doc MAX_CANONICAL_DEPTH h ev = Some (JsObj [(''name'', JsStr s), (''payload'', p)])"
    unfolding m ev heap_doc.simps(2) [of "Suc m"]
    by (simp add: Let_def plain(1) keys w s(1) v(1) p option_list_def del: heap_doc.simps)
  then show thesis using that s(2) by blast
qed

section \<open>An appended line verifies\<close>

lemma parsed_leaf:
  assumes "R (num_str (num_of_nat n)) = num_of_nat n"
  shows "parsed_as R MAX_CANONICAL_DEPTH (head_doc head) = head_doc head"
    "parsed_as R MAX_CANONICAL_DEPTH (JsStr s) = JsStr s"
    "parsed_as R MAX_CANONICAL_DEPTH (JsNum (num_of_nat n)) = JsNum (num_of_nat n)"
proof -
  obtain m where m: "MAX_CANONICAL_DEPTH = Suc m" using max_depth_Suc by blast
  show "parsed_as R MAX_CANONICAL_DEPTH (head_doc head) = head_doc head"
    "parsed_as R MAX_CANONICAL_DEPTH (JsStr s) = JsStr s"
    "parsed_as R MAX_CANONICAL_DEPTH (JsNum (num_of_nat n)) = JsNum (num_of_nat n)"
    using assms by (simp_all add: m head_doc_def split: option.split)
qed

lemma parsed_obj:
  "parsed_as R (Suc k) (JsObj fs) = JsObj (map (\<lambda>f. (f, case map_of fs f of None \<Rightarrow> JsNull | Some u \<Rightarrow> parsed_as R k u))
    (sort_strings (map fst fs)))"
  by simp

lemma parsed_as_body:
  assumes "R (num_str (num_of_nat n)) = num_of_nat n"
  shows "parsed_as R (Suc MAX_CANONICAL_DEPTH) (JsObj (body_doc t head n)) =
    JsObj (body_doc (parsed_as R MAX_CANONICAL_DEPTH t) head n)"
  unfolding parsed_obj by (simp add: body_doc_def parsed_leaf [of R, OF assms] del: parsed_as.simps)

lemma parsed_as_record:
  assumes "R (num_str (num_of_nat n)) = num_of_nat n"
  shows "parsed_as R (Suc MAX_CANONICAL_DEPTH) (JsObj (record_doc t head n d)) =
    JsObj [(''event'', parsed_as R MAX_CANONICAL_DEPTH t), (''previousDigest'', head_doc head),
      (''recordDigest'', JsStr d), (''sequence'', JsNum (num_of_nat n)), (''version'', JsStr RUNTIME_AUDIT_VERSION)]"
proof -
  have keys: "sort_strings (map fst (record_doc t head n d)) = RECORD_FIELDS"
    by (simp add: record_doc_def body_doc_def RECORD_FIELDS_def sort_strings_def utf16_key_def char_rank_def)
  show ?thesis unfolding parsed_obj keys
    by (simp add: record_doc_def body_doc_def RECORD_FIELDS_def parsed_leaf [of R, OF assms] del: parsed_as.simps)
qed

lemma audit_text_field:
  assumes "audit_text (Suc n) (JsObj fs) = Inr s" and "map_of fs k = Some u"
  shows "\<exists>y. audit_text n u = Inr y"
proof -
  obtain ss where ss: "list_all2 (\<lambda>k x. \<exists>u y. map_of fs k = Some u \<and> audit_text n u = Inr y \<and> x = field_text k y)
      (sort_strings (map fst fs)) ss"
    using assms(1) unfolding audit_text_JsObj by blast
  have "k \<in> set (sort_strings (map fst fs))" using assms(2) by (force dest: map_of_SomeD)
  then obtain i where i: "i < length (sort_strings (map fst fs))" "sort_strings (map fst fs) ! i = k"
    unfolding in_set_conv_nth by blast
  show ?thesis using list_all2_nthD [OF ss i(1)] assms(2) unfolding i(2) by auto
qed

lemma record_line_verifies:
  assumes "canonical_document (JsObj (body_doc t head n)) = Inr b" and "wf_doc (JsObj (body_doc t head n))"
    and "canonical_document (JsObj (record_doc t head n (H b))) = Inr line" and "wf_doc (JsObj (record_doc t head n (H b)))"
    and "t = JsObj [(''name'', JsStr s), (''payload'', p)]" and "is_audit_event_name s"
    and "reads_numbers R t" and "R (num_str (num_of_nat n)) = num_of_nat n" and "1 \<le> n" and "n \<le> 9007199254740991"
    and "is_sha256_hex (H b)" and "length (line @ [newline]) \<le> limit"
  shows "verify_line R H limit n head line = Inr (H b)"
proof -
  let ?t = "parsed_as R MAX_CANONICAL_DEPTH t"
  let ?r = "parsed_as R (Suc MAX_CANONICAL_DEPTH) (JsObj (record_doc t head n (H b)))"
  have nums: "reads_numbers R (JsObj (body_doc t head n))" "reads_numbers R (JsObj (record_doc t head n (H b)))"
    using assms(7,8) by (auto simp: body_doc_def record_doc_def head_doc_def num_of_nat_def split: option.splits)
  have parse: "json_parse R line = Some ?r"
    using assms(3,4) unfolding canonical_document_def by (rule json_parse_text)
  have canon: "canonical_document ?r = Inr line"
    using assms(3,4) nums(2) unfolding canonical_document_def by (rule audit_text_parsed)
  have "record_body ?r = parsed_as R (Suc MAX_CANONICAL_DEPTH) (JsObj (body_doc t head n))"
    unfolding parsed_as_record [of R, OF assms(8)] parsed_as_body [of R, OF assms(8)] by (simp add: record_body_def body_doc_def)
  then have body: "canonical_document (record_body ?r) = Inr b"
    using audit_text_parsed [OF assms(1) [unfolded canonical_document_def] assms(2) nums(1)]
    by (simp add: canonical_document_def del: parsed_as.simps audit_text.simps)
  obtain m where m: "MAX_CANONICAL_DEPTH = Suc (Suc m)" by (simp add: MAX_CANONICAL_DEPTH_def)
  have t: "?t = JsObj [(''name'', JsStr s), (''payload'', parsed_as R (Suc m) p)]"
    unfolding assms(5) m parsed_obj
    by (simp add: sort_strings_def utf16_key_def char_rank_def del: parsed_as.simps(2)) simp
  have "\<exists>e. audit_text MAX_CANONICAL_DEPTH ?t = Inr e"
    using canon unfolding canonical_document_def parsed_as_record [of R, OF assms(8)]
    by (rule audit_text_field [where k = "''event''"]) simp
  then obtain e where "audit_text (Suc (Suc m)) ?t = Inr e" unfolding m by blast
  from audit_text_field [OF this [unfolded t], of "''payload''"] obtain y where "audit_text (Suc m) (parsed_as R (Suc m) p) = Inr y"
    by auto
  then have payload: "canonical_document (parsed_as R (Suc m) p) = Inr y"
    unfolding canonical_document_def by (rule audit_text_more) (simp add: m)
  have digest: "check_digest H ?r ?t (H b) = Inr (H b)"
    using body payload unfolding t check_digest_def by (simp del: parsed_as.simps)
  have guards: "is_json_object ?r" "exact_audit_keys (doc_keys ?r) RECORD_FIELDS"
    "json_field ?r ''version'' = Some (JsStr RUNTIME_AUDIT_VERSION)" "is_sequence (json_field ?r ''sequence'') n"
    "matches_head (json_field ?r ''previousDigest'') head" "json_field ?r ''recordDigest'' = Some (JsStr (H b))"
    "json_field ?r ''event'' = Some ?t"
    using assms(9,10) unfolding parsed_as_record [of R, OF assms(8)]
    by (simp_all add: exact_audit_keys_def doc_keys_def RECORD_FIELDS_def is_sequence_def num_is_safe_integer_def
        matches_head_def head_doc_def num_of_nat_def)
  have "verify_parsed H ?r n head = Inr (H b)"
    using guards digest assms(6,11) unfolding verify_parsed_def t
    by (simp add: exact_audit_keys_def EVENT_FIELDS_def del: parsed_as.simps)
  moreover have "line \<noteq> []" using audit_text_start [OF canon [unfolded canonical_document_def]] by auto
  ultimately show ?thesis using parse canon assms(12) by (simp add: verify_line_def del: parsed_as.simps)
qed

section \<open>Appending\<close>

text \<open>A number of a document that is read back as itself, and the sequence numbers.\<close>

definition reads_sequence :: "(string \<Rightarrow> jsnum) \<Rightarrow> bool" where
  "reads_sequence R \<longleftrightarrow> (\<forall>n \<le> 9007199254740991. R (num_str (num_of_nat n)) = num_of_nat n)"

definition reads_event :: "(string \<Rightarrow> jsnum) \<Rightarrow> heap \<Rightarrow> jsval \<Rightarrow> bool" where
  "reads_event R h ev \<longleftrightarrow> distinct_keys h \<and> (\<forall>t. heap_doc MAX_CANONICAL_DEPTH h ev = Some t \<longrightarrow> reads_numbers R t)"

lemma prepare_record_Inr:
  assumes "prepare_record G H h ev l = Inr (r, line)"
  obtains u b json where "assert_event_for_audit G h ev = Inr u"
    "new_object_json h (body_fields ev (al_head l) (al_count l + 1)) = Inr b"
    "new_object_json h (record_fields ev (al_head l) (al_count l + 1) (H b)) = Inr json"
    "line = json @ [newline]" "length line \<le> al_max l"
    "r = \<lparr>lr_event = ev, lr_previous = al_head l, lr_digest = H b, lr_sequence = al_count l + 1\<rparr>"
  using assms by (auto simp: prepare_record_def then_res_Inr Let_def split: if_splits)

lemma prepared_line:
  assumes "prepare_record G H h ev l = Inr (r, line)" and "reads_event R h ev" and "reads_sequence R"
    and "al_count l < 9007199254740991" and "\<And>s. is_sha256_hex (H s)"
  obtains json where "line = json @ [newline]" "newline \<notin> set json"
    "verify_line R H (al_max l) (Suc (al_count l)) (al_head l) json = Inr (lr_digest r)" "lr_sequence r = Suc (al_count l)"
proof -
  obtain u b json where r: "assert_event_for_audit G h ev = Inr u"
    "new_object_json h (body_fields ev (al_head l) (Suc (al_count l))) = Inr b"
    "new_object_json h (record_fields ev (al_head l) (Suc (al_count l)) (H b)) = Inr json"
    "line = json @ [newline]" "length line \<le> al_max l"
    "r = \<lparr>lr_event = ev, lr_previous = al_head l, lr_digest = H b, lr_sequence = al_count l + 1\<rparr>"
    using prepare_record_Inr [OF assms(1)] by auto
  have keys: "distinct_keys h" using assms(2) by (simp add: reads_event_def)
  obtain e where "audit_canonical MAX_CANONICAL_DEPTH h ev [] = Inr e"
    using new_object_field [OF r(2), of "''event''"] by (auto simp: body_fields_def)
  then obtain s p where doc: "heap_doc MAX_CANONICAL_DEPTH h ev = Some (JsObj [(''name'', JsStr s), (''payload'', p)])"
    "is_audit_event_name s"
    by (rule event_doc [OF r(1) _ keys])
  note body = body_docs [OF r(2) keys doc(1)] and rec = record_docs [OF r(3) keys doc(1)]
  have "verify_line R H (al_max l) (Suc (al_count l)) (al_head l) json = Inr (H b)"
    by (rule record_line_verifies [where H = H, OF body rec refl doc(2)])
      (use assms doc(1) r(4,5) in \<open>auto simp: reads_event_def reads_sequence_def\<close>)
  moreover have "newline \<notin> set json" using audit_text_clean rec(1) unfolding canonical_document_def by blast
  ultimately show thesis using that [OF r(4)] r(6) by simp
qed

lemma append_step:
  assumes "verify_ledger_text R H (al_max l) content = valid_ledger (al_count l) (al_head l)"
    and "ledger_append G H h ev w f (l, content) = (Inr r, l', content')"
    and "reads_event R h ev" "reads_sequence R" "al_count l < 9007199254740991" "\<And>s. is_sha256_hex (H s)"
  shows "verify_ledger_text R H (al_max l) content' = valid_ledger (al_count l') (al_head l')"
    and "al_count l' = Suc (al_count l)" and "al_max l' = al_max l"
proof -
  obtain line where p: "prepare_record G H h ev l = Inr (r, line)" "content' = content @ line"
    "l' = l\<lparr>al_count := lr_sequence r, al_head := Some (lr_digest r)\<rparr>"
    using assms(2) by (auto simp: ledger_append_def Let_def split: sum.splits if_splits write_outcome.splits prod.splits)
  obtain json where j: "line = json @ [newline]" "newline \<notin> set json"
    "verify_line R H (al_max l) (Suc (al_count l)) (al_head l) json = Inr (lr_digest r)" "lr_sequence r = Suc (al_count l)"
    by (rule prepared_line [OF p(1) assms(3-6)])
  obtain ls where ls: "content = unlines ls" "\<forall>l \<in> set ls. newline \<notin> set l"
    "verify_lines R H (al_max l) 0 None ls = (al_count l, al_head l, None)"
    using assms(1) unfolding valid_text by blast
  have "verify_lines R H (al_max l) 0 None (ls @ [json]) = (Suc (al_count l), Some (lr_digest r), None)"
    by (simp add: verify_lines_snoc ls(3) j(3))
  then show "verify_ledger_text R H (al_max l) content' = valid_ledger (al_count l') (al_head l')"
    unfolding valid_text using ls(1,2) j p(2,3) by (intro exI [of _ "ls @ [json]"]) auto
  show "al_count l' = Suc (al_count l)" "al_max l' = al_max l" using p(3) j(4) by simp_all
qed

text \<open>A run: each append with the heap, the event, and what the write and the flush do.\<close>

type_synonym append_step = "heap \<times> jsval \<times> write_outcome \<times> unit res"

fun append_all ::
  "(loc \<Rightarrow> string \<Rightarrow> jsval) \<Rightarrow> (string \<Rightarrow> string) \<Rightarrow> append_step list \<Rightarrow> ledger \<times> string \<Rightarrow>
    ledger_record ares list \<times> ledger \<times> string" where
  "append_all G H [] lc = ([], lc)"
| "append_all G H ((h, ev, w, f) # xs) lc =
    (let (r, lc) = ledger_append G H h ev w f lc; (rs, lc) = append_all G H xs lc in (r # rs, lc))"

lemma append_unhealthy:
  "\<not> al_healthy l \<Longrightarrow> ledger_append G H h ev w f (l, c) =
    (Inl (AuditErr AUDIT_UNHEALTHY (case al_reason l of None \<Rightarrow> ''Audit ledger is unhealthy.'' | Some m \<Rightarrow> m)), l, c)"
  by (simp add: ledger_append_def assert_healthy_def)

lemma append_all_unhealthy:
  "\<not> al_healthy l \<Longrightarrow> append_all G H xs (l, c) =
    (replicate (length xs) (Inl (AuditErr AUDIT_UNHEALTHY
      (case al_reason l of None \<Rightarrow> ''Audit ledger is unhealthy.'' | Some m \<Rightarrow> m))), l, c)"
  by (induction xs) (auto simp: append_unhealthy)

lemma failed_append_state:
  assumes "ledger_append G H h ev w f (l, c) = (Inl e, l', c')" and "al_healthy l" "\<not> al_closed l" "al_open l"
  shows "\<not> al_healthy l'" and "al_reason l' = Some (case audit_message e of None \<Rightarrow> ''Unknown audit ledger failure.'' | Some m \<Rightarrow> m)"
    and "al_count l' = al_count l" and "al_head l' = al_head l" and "prefix c c'"
  using assms by (auto simp: ledger_append_def assert_healthy_def mark_unhealthy_def Let_def split: sum.splits if_splits
      write_outcome.splits prod.splits)

lemma append_closed:
  assumes "ledger_append G H h ev w f (l, c) = (Inl e, l', c')" and "al_healthy l'"
  shows "l' = l \<and> c' = c"
  using assms by (auto simp: ledger_append_def assert_healthy_def mark_unhealthy_def Let_def split: sum.splits if_splits
      write_outcome.splits prod.splits)

lemma healthy_run:
  assumes "append_all G H xs (l, c) = (rs, l', c')" and "al_healthy l'"
    and "verify_ledger_text R H (al_max l) c = valid_ledger (al_count l) (al_head l)"
    and "\<forall>x \<in> set xs. reads_event R (fst x) (fst (snd x))" and "reads_sequence R"
    and "al_count l + length xs \<le> 9007199254740991" and "\<And>s. is_sha256_hex (H s)"
  shows "verify_ledger_text R H (al_max l) c' = valid_ledger (al_count l') (al_head l') \<and> al_max l' = al_max l"
  using assms(1-4,6)
proof (induction xs arbitrary: l c rs)
  case (Cons x xs)
  obtain h ev w f where x: "x = (h, ev, w, f)" by (cases x)
  obtain r l1 c1 where one: "ledger_append G H h ev w f (l, c) = (r, l1, c1)"
    by (cases "ledger_append G H h ev w f (l, c)") auto
  obtain rs' where rest: "append_all G H xs (l1, c1) = (rs', l', c')"
    using Cons.prems(1) one by (cases "append_all G H xs (l1, c1)") (auto simp: x)
  have healthy: "al_healthy l1" using rest Cons.prems(2) append_all_unhealthy [of l1 G H xs c1] by auto
  have step: "verify_ledger_text R H (al_max l1) c1 = valid_ledger (al_count l1) (al_head l1) \<and> al_max l1 = al_max l \<and>
      al_count l1 \<le> Suc (al_count l)"
  proof (cases r)
    case (Inl e)
    then show ?thesis using append_closed [OF one [unfolded Inl] healthy] Cons.prems(3) by simp
  next
    case (Inr q)
    have "reads_event R h ev" "al_count l < 9007199254740991" using Cons.prems(4,5) by (auto simp: x)
    then show ?thesis using append_step [OF Cons.prems(3) one [unfolded Inr] _ assms(5) _ assms(7)] by simp
  qed
  have "verify_ledger_text R H (al_max l1) c' = valid_ledger (al_count l') (al_head l') \<and> al_max l' = al_max l1"
    by (rule Cons.IH [OF rest Cons.prems(2)]) (use step Cons.prems(4,5) in auto)
  then show ?case using step by simp
qed simp

section \<open>Opening\<close>

definition text_of_file :: "ledger_file \<Rightarrow> string" where
  "text_of_file f = (case f of LedgerText s \<Rightarrow> s | _ \<Rightarrow> [])"

lemma verified_file:
  "vr_ok (verify_ledger_file R H limit f) \<Longrightarrow>
    verify_ledger_text R H limit (text_of_file f) = verify_ledger_file R H limit f"
  by (cases f) (auto simp: verify_ledger_file_def text_of_file_def verify_ledger_text_def invalid_ledger_def)

lemma verified_file_valid:
  "vr_ok (verify_ledger_file R H limit f) \<Longrightarrow>
    verify_ledger_file R H limit f =
      valid_ledger (vr_count (verify_ledger_file R H limit f)) (vr_head (verify_ledger_file R H limit f))"
  by (cases f) (auto simp: verify_ledger_file_def verify_ledger_text_def invalid_ledger_def valid_ledger_def Let_def
      split: prod.splits option.splits if_splits)

lemma opened_ledger:
  assumes "new_ledger resolve R H path limit create f op paths = (Inr l, paths')"
  shows "verify_ledger_text R H (al_max l) (text_of_file (op_after op)) = valid_ledger (al_count l) (al_head l)"
    and "al_healthy l" "al_open l" "\<not> al_closed l" and "al_path l \<notin> set paths" and "set paths' = insert (al_path l) (set paths)"
proof -
  obtain s m where o: "path = JStr s" "resolve s \<notin> set paths" "open_ledger R H (resolve s) m create f op = Inr l"
    "paths' = set_add (resolve s) paths"
    using assms by (auto simp: new_ledger_def split: jsval.splits if_splits sum.splits)
  have v: "vr_ok (verify_ledger_file R H m (op_after op))" and l: "l = \<lparr>al_path = resolve s, al_max = m, al_open = True,
      al_count = vr_count (verify_ledger_file R H m (op_after op)), al_head = vr_head (verify_ledger_file R H m (op_after op)),
      al_healthy = True, al_reason = None, al_closed = False\<rparr>"
    using o(3) by (auto simp: open_ledger_def then_res_Inr Let_def split: if_splits)
  show "verify_ledger_text R H (al_max l) (text_of_file (op_after op)) = valid_ledger (al_count l) (al_head l)"
    using verified_file [OF v] verified_file_valid [OF v] l by simp
  show "al_healthy l" "al_open l" "\<not> al_closed l" "al_path l \<notin> set paths" using l o(2) by simp_all
  show "set paths' = insert (al_path l) (set paths)" using l o(4) by (auto simp: set_add_def)
qed
section \<open>Attaching is all or nothing\<close>

text \<open>The listeners of a bus on which the pairs of \<open>ps\<close> were registered on top of \<open>base\<close>.\<close>

definition registered_on :: "(event_name \<Rightarrow> stored list) \<Rightarrow> (event_name \<times> nat) list \<Rightarrow> event_bus \<Rightarrow> bool" where
  "registered_on base ps b \<longleftrightarrow> distinct (map fst ps) \<and>
    (\<forall>n. listeners_of b n = base n @ (case map_of ps n of None \<Rightarrow> [] | Some i \<Rightarrow> [Plain i])) \<and>
    (\<forall>n i. (n, i) \<in> set ps \<longrightarrow> Plain i \<notin> set (base n))"

lemma bus_on_fresh:
  assumes "bus_on n l b = (r, b')" and "l \<notin> set (listeners_of b n)"
  shows "(\<exists>e. r = Inl e \<and> listeners_of b' = listeners_of b) \<or>
    (r = Inr (CallOff n l) \<and> listeners_of b' = (listeners_of b)(n := listeners_of b n @ [l]))"
  using assms by (auto simp: bus_on_def Let_def set_add_def fun_eq_iff split: if_splits)

lemma bus_off_listener: "l \<in> set (listeners_of b n) \<Longrightarrow> listeners_of (snd (bus_off n l b)) = (listeners_of b)(n := set_del l (listeners_of b n))"
  by (auto simp: bus_off_def listeners_of_def set_listeners_def update_conv' fun_eq_iff split: option.splits)

lemma registered_step:
  assumes "registered_on base ps b" and "n \<notin> set (map fst ps)" and "Plain i \<notin> set (base n)"
    and "listeners_of b' = (listeners_of b)(n := listeners_of b n @ [Plain i])"
  shows "registered_on base (ps @ [(n, i)]) b'"
  using assms by (auto simp: registered_on_def map_add_def map_of_eq_None_iff split: option.splits)

lemma detach_restores:
  "registered_on base ps b \<Longrightarrow> listeners_of (detach_all (map (\<lambda>(n, i). CallOff n (Plain i)) ps) b) = base"
proof (induction ps arbitrary: b)
  case Nil
  then show ?case by (auto simp: registered_on_def)
next
  case (Cons p ps)
  obtain n i where p: "p = (n, i)" by (cases p)
  have n: "listeners_of b n = base n @ [Plain i]" "Plain i \<notin> set (base n)" "n \<notin> set (map fst ps)"
    using Cons.prems by (auto simp: registered_on_def p)
  have "set_del (Plain i) (base n @ [Plain i]) = base n" using n(2) by (auto simp: set_del_def filter_id_conv)
  then have "listeners_of (snd (bus_off n (Plain i) b)) = (listeners_of b)(n := base n)"
    using n(1) by (simp add: bus_off_listener)
  moreover have "listeners_of b m = base m @ (case map_of ps m of None \<Rightarrow> [] | Some j \<Rightarrow> [Plain j])" if "m \<noteq> n" for m
    using Cons.prems that by (simp add: registered_on_def p)
  moreover have "map_of ps n = None" using n(3) by (simp add: map_of_eq_None_iff)
  moreover have "distinct (map fst ps)" "\<forall>m j. (m, j) \<in> set ps \<longrightarrow> Plain j \<notin> set (base m)"
    using Cons.prems by (simp_all add: registered_on_def p)
  ultimately have "registered_on base ps (snd (bus_off n (Plain i) b))" by (simp add: registered_on_def)
  then show ?case using Cons.IH by (simp add: p)
qed

lemma attach_names_result:
  assumes "attach_names ns k (map (\<lambda>(n, i). CallOff n (Plain i)) ps) b = (r, b')"
    and "registered_on base ps b" and "distinct (map fst ps @ ns)" and "\<And>n i. k \<le> i \<Longrightarrow> Plain i \<notin> set (base n)"
  shows "case r of
      Inl e \<Rightarrow> listeners_of b' = base
    | Inr us \<Rightarrow> us = map (\<lambda>(n, i). CallOff n (Plain i)) (ps @ zip ns [k..<k + length ns]) \<and>
        registered_on base (ps @ zip ns [k..<k + length ns]) b'"
  using assms
proof (induction ns arbitrary: k ps b)
  case Nil
  then show ?case by auto
next
  case (Cons n ns)
  have fresh: "n \<notin> set (map fst ps)" "Plain k \<notin> set (base n)" using Cons.prems(3,4) by auto
  then have new: "Plain k \<notin> set (listeners_of b n)"
    using Cons.prems(2) by (auto simp: registered_on_def map_of_eq_None_iff split: option.splits dest: map_of_SomeD)
  obtain u b1 where one: "bus_on n (Plain k) b = (u, b1)" by (cases "bus_on n (Plain k) b") auto
  from bus_on_fresh [OF one new] show ?case
  proof (elim disjE exE conjE)
    fix e assume e: "u = Inl e" "listeners_of b1 = listeners_of b"
    then have "registered_on base ps b1" using Cons.prems(2) by (simp add: registered_on_def)
    then show ?thesis using detach_restores Cons.prems(1) one e by auto
  next
    assume ok: "u = Inr (CallOff n (Plain k))" "listeners_of b1 = (listeners_of b)(n := listeners_of b n @ [Plain k])"
    have reg: "registered_on base (ps @ [(n, k)]) b1" by (rule registered_step [OF Cons.prems(2) fresh ok(2)])
    have rest: "attach_names ns (Suc k) (map (\<lambda>(n, i). CallOff n (Plain i)) (ps @ [(n, k)])) b1 = (r, b')"
      using Cons.prems(1) one ok(1) by simp
    have zip: "zip (n # ns) [k..<k + length (n # ns)] = (n, k) # zip ns [Suc k..<Suc k + length ns]"
      by (simp add: upt_conv_Cons del: upt_Suc)
    have "distinct (map fst (ps @ [(n, k)]) @ ns)" using Cons.prems(3) by auto
    moreover have "\<And>n i. Suc k \<le> i \<Longrightarrow> Plain i \<notin> set (base n)" using Cons.prems(4) by simp
    ultimately show ?thesis
      unfolding zip using Cons.IH [OF rest reg] by (cases r) (simp_all del: upt_Suc)
  qed
qed

text \<open>A failed attachment leaves the listeners as they were; the function of a successful one takes all of them off.\<close>

lemma attach_all_or_nothing:
  assumes "attach_ledger k b = (r, b')" and "\<And>n i. k \<le> i \<Longrightarrow> Plain i \<notin> set (listeners_of b n)"
  shows "case r of
      Inl e \<Rightarrow> listeners_of b' = listeners_of b
    | Inr us \<Rightarrow> (\<forall>n. \<exists>i. listeners_of b' n = listeners_of b n @ [Plain i]) \<and>
        listeners_of (snd (detach_once us False b')) = listeners_of b"
proof -
  have all: "distinct RUNTIME_AUDIT_EVENT_NAMES" "n \<in> set RUNTIME_AUDIT_EVENT_NAMES" for n
    by (simp_all add: RUNTIME_AUDIT_EVENT_NAMES_def) (cases n; simp)
  let ?ps = "zip RUNTIME_AUDIT_EVENT_NAMES [k..<k + length RUNTIME_AUDIT_EVENT_NAMES]"
  have "attach_names RUNTIME_AUDIT_EVENT_NAMES k (map (\<lambda>(n, i). CallOff n (Plain i)) []) b = (r, b')"
    using assms(1) by (simp add: attach_ledger_def)
  moreover have "registered_on (listeners_of b) [] b" by (simp add: registered_on_def)
  moreover have "distinct (map fst [] @ RUNTIME_AUDIT_EVENT_NAMES)" using all(1) by simp
  ultimately have res: "case r of
      Inl e \<Rightarrow> listeners_of b' = listeners_of b
    | Inr us \<Rightarrow> us = map (\<lambda>(n, i). CallOff n (Plain i)) ([] @ ?ps) \<and> registered_on (listeners_of b) ([] @ ?ps) b'"
    by (rule attach_names_result) (rule assms(2))
  show ?thesis
  proof (cases r)
    case (Inl e)
    then show ?thesis using res by simp
  next
    case (Inr us)
    then have us: "us = map (\<lambda>(n, i). CallOff n (Plain i)) ?ps" "registered_on (listeners_of b) ?ps b'" using res by simp_all
    have "\<exists>i. map_of ?ps n = Some i" for n
      using all(2) [of n] by (simp add: map_of_zip_is_Some [symmetric] del: upt_Suc)
    moreover have "listeners_of b' n = listeners_of b n @ (case map_of ?ps n of None \<Rightarrow> [] | Some i \<Rightarrow> [Plain i])" for n
      using us(2) unfolding registered_on_def by blast
    ultimately have "\<forall>n. \<exists>i. listeners_of b' n = listeners_of b n @ [Plain i]"
      by (metis (no_types, lifting) option.simps(5))
    then show ?thesis using detach_restores [OF us(2)] us(1) Inr by (simp add: detach_once_def)
  qed
qed

end
