(* ===== verification/Audit_Examples.thy ===== *)
theory Audit_Examples
  imports Audit_Chain
begin

text \<open>A first record on an empty ledger: the event of a runtime that starts, appended and read back.\<close>

section \<open>Concrete inputs\<close>

lemma nat_str_length: "n < 10 ^ k \<Longrightarrow> 0 < k \<Longrightarrow> length (nat_str n) \<le> k"
proof (induction n arbitrary: k rule: nat_str.induct)
  case (1 n)
  show ?case
  proof (cases "n < 10")
    case True
    then show ?thesis using 1(3) by (simp add: nat_str.simps [of n])
  next
    case False
    then obtain j where j: "k = Suc j" "0 < j" using 1(2,3) by (cases k; cases "k - 1") auto
    then have "n div 10 < 10 ^ j" using 1(2) by (simp add: div_less_iff_less_mult mult.commute)
    then show ?thesis using 1(1) [OF False _ j(2)] False j(1) by (simp add: nat_str.simps [of n])
  qed
qed

lemma safe_integer_str: "n \<le> 9007199254740991 \<Longrightarrow> num_str (num_of_nat n) = nat_str n"
proof -
  assume "n \<le> 9007199254740991"
  then have "length (nat_str n) \<le> 16" by (intro nat_str_length) simp_all
  moreover have "digit_char 0 = CHR ''0''" by code_simp
  ultimately show ?thesis by (cases "n = 0") (auto simp: num_of_nat_def pos_decimal_str_def Let_def nat_str.simps [of 0])
qed

text \<open>A reader of integers, a hash, and the event of a runtime that starts.\<close>

definition demo_reader :: "string \<Rightarrow> jsnum" where
  "demo_reader s = num_of_nat (digits_val s)"

definition demo_audit_hash :: "string \<Rightarrow> string" where
  "demo_audit_hash s = replicate 64 (CHR ''0'')"

definition demo_event_heap :: heap where
  "demo_event_heap =
    [(0, plain_object\<lparr>ob_props := [(KStr ''name'', Data True (JStr ''runtime.started'')), (KStr ''payload'', Data True (JRef 1))]\<rparr>),
     (1, plain_object\<lparr>ob_props := [(KStr ''runtimeId'', Data True (JStr ''r''))]\<rparr>)]"

definition demo_ledger :: ledger where
  "demo_ledger = \<lparr>al_path = ''/l'', al_max = 1000, al_open = True, al_count = 0, al_head = None,
    al_healthy = True, al_reason = None, al_closed = False\<rparr>"

lemma demo_reads_sequence: "reads_sequence demo_reader"
  by (simp add: reads_sequence_def demo_reader_def safe_integer_str nat_str_val)

lemma demo_audit_hash_hex: "is_sha256_hex (demo_audit_hash s)"
proof -
  have "is_hex_digit (CHR ''0'')" by code_simp
  then show ?thesis by (simp add: is_sha256_hex_def demo_audit_hash_def list_all_iff)
qed

lemma demo_objects:
  "heap_get demo_event_heap 0 = plain_object\<lparr>ob_props := [(KStr ''name'', Data True (JStr ''runtime.started'')),
    (KStr ''payload'', Data True (JRef 1))]\<rparr>"
  "heap_get demo_event_heap (Suc 0) = plain_object\<lparr>ob_props := [(KStr ''runtimeId'', Data True (JStr ''r''))]\<rparr>"
  by (simp_all add: heap_get_def demo_event_heap_def)

lemma demo_properties:
  "sorted_keys (heap_get demo_event_heap 0) = [''name'', ''payload'']"
  "sorted_keys (heap_get demo_event_heap (Suc 0)) = [''runtimeId'']"
  "sort_strings (enumerable_keys (heap_get demo_event_heap 0)) = [''name'', ''payload'']"
  by (simp_all add: demo_objects sorted_keys_def enumerable_keys_def string_props_def map_filter_simps plain_object_def
      sort_strings_def utf16_key_def char_rank_def)

lemma audit_plain:
  assumes "\<not> ob_array (heap_get h l)" "ob_proto (heap_get h l) = ObjectPrototype" "\<not> has_symbol_key (heap_get h l)" "l \<notin> set seen"
  shows "audit_canonical (Suc n) h (JRef l) seen =
    then_res (map_res (\<lambda>k. then_res (audit_property (heap_get h l) k
         (not_canonical ''Audit objects must contain only enumerable data properties.''))
       (\<lambda>w. then_res (audit_canonical n h w (l # seen)) (\<lambda>s. Inr (field_text k s)))) (sorted_keys (heap_get h l)))
     (\<lambda>fs. Inr (object_text fs))"
  using assms by (simp add: Let_def)

lemma audit_short_string: "length s \<le> 16384 \<Longrightarrow> audit_canonical (Suc n) h (JStr s) seen = Inr (json_string s)"
  by (simp add: audit_string_def MAX_STRING_BYTES_def)

lemma demo_plain:
  "\<not> ob_array (heap_get demo_event_heap 0)" "ob_proto (heap_get demo_event_heap 0) = ObjectPrototype"
  "\<not> has_symbol_key (heap_get demo_event_heap 0)"
  "\<not> ob_array (heap_get demo_event_heap (Suc 0))" "ob_proto (heap_get demo_event_heap (Suc 0)) = ObjectPrototype"
  "\<not> has_symbol_key (heap_get demo_event_heap (Suc 0))"
  by (simp_all add: demo_objects plain_object_def has_symbol_key_def)

lemma demo_values:
  "audit_property (heap_get demo_event_heap 0) ''name'' e = Inr (JStr ''runtime.started'')"
  "audit_property (heap_get demo_event_heap 0) ''payload'' e = Inr (JRef (Suc 0))"
  "audit_property (heap_get demo_event_heap (Suc 0)) ''runtimeId'' e = Inr (JStr ''r'')"
  by (simp_all add: demo_objects audit_property_def own_property_def)

definition demo_payload_text :: string where
  "demo_payload_text = object_text [field_text ''runtimeId'' (json_string ''r'')]"

definition demo_event_text :: string where
  "demo_event_text = object_text [field_text ''name'' (json_string ''runtime.started''), field_text ''payload'' demo_payload_text]"

lemma demo_payload: "Suc 0 \<notin> set seen \<Longrightarrow>
  audit_canonical (Suc (Suc n)) demo_event_heap (JRef (Suc 0)) seen = Inr demo_payload_text"
  by (simp add: audit_plain demo_plain demo_properties demo_values audit_short_string then_res_def demo_payload_text_def
      del: audit_canonical.simps)

lemma demo_event: "audit_canonical (Suc (Suc (Suc n))) demo_event_heap (JRef 0) [] = Inr demo_event_text"
  by (simp add: audit_plain demo_plain demo_properties demo_values audit_short_string then_res_def
      demo_payload_text_def demo_event_text_def del: audit_canonical.simps)

lemma demo_assert: "assert_event_for_audit G demo_event_heap (JRef 0) = Inr ()"
proof -
  have depth: "Suc MAX_CANONICAL_DEPTH = Suc (Suc 11)" by (simp add: MAX_CANONICAL_DEPTH_def)
  have name: "member_value G demo_event_heap 0 ''name'' = JStr ''runtime.started''"
    and payload: "member_value G demo_event_heap 0 ''payload'' = JRef (Suc 0)"
    by (simp_all add: member_value_def demo_objects own_property_def)
  have known: "is_audit_event_name ''runtime.started''"
    by (simp add: is_audit_event_name_def RUNTIME_AUDIT_EVENT_NAMES_def)
  have "canonical_audit_json demo_event_heap (JRef (Suc 0)) = Inr demo_payload_text"
    unfolding canonical_audit_json_def depth by (rule demo_payload) simp
  moreover have "exact_audit_keys (enumerable_keys (heap_get demo_event_heap 0)) EVENT_FIELDS"
    by (simp add: exact_audit_keys_def demo_properties) (simp add: EVENT_FIELDS_def)
  ultimately show ?thesis
    by (simp add: assert_event_for_audit_def Let_def is_plain_audit_record_def demo_plain name payload known then_res_def)
qed

text \<open>The record and its line.\<close>

lemma demo_fields:
  "audit_canonical MAX_CANONICAL_DEPTH demo_event_heap (JRef 0) [] = Inr demo_event_text"
  "audit_canonical MAX_CANONICAL_DEPTH demo_event_heap JNull [] = Inr ''null''"
  "length s \<le> 16384 \<Longrightarrow> audit_canonical MAX_CANONICAL_DEPTH demo_event_heap (JStr s) [] = Inr (json_string s)"
  "audit_canonical MAX_CANONICAL_DEPTH demo_event_heap (JNum (num_of_nat 1)) [] = Inr (nat_str 1)"
proof -
  have depth: "MAX_CANONICAL_DEPTH = Suc (Suc (Suc 9))" by (simp add: MAX_CANONICAL_DEPTH_def)
  show "audit_canonical MAX_CANONICAL_DEPTH demo_event_heap (JRef 0) [] = Inr demo_event_text"
    unfolding depth by (rule demo_event)
  show "audit_canonical MAX_CANONICAL_DEPTH demo_event_heap JNull [] = Inr ''null''" unfolding depth audit_canonical.simps(2) by simp
  show "length s \<le> 16384 \<Longrightarrow> audit_canonical MAX_CANONICAL_DEPTH demo_event_heap (JStr s) [] = Inr (json_string s)"
    unfolding depth by (rule audit_short_string)
  have "audit_number (num_of_nat 1) = Inr (nat_str 1)"
    using safe_integer_str [of 1] by (simp add: audit_number_def num_of_nat_def)
  then show "audit_canonical MAX_CANONICAL_DEPTH demo_event_heap (JNum (num_of_nat 1)) [] = Inr (nat_str 1)"
    unfolding depth audit_canonical.simps(2) by simp
qed

lemma demo_body: "new_object_json demo_event_heap (body_fields (JRef 0) None 1) = Inr (body_text demo_event_text None (nat_str 1))"
  by (simp add: new_object_json_def body_fields_def digest_value_def demo_fields [unfolded One_nat_def] then_res_def
      RUNTIME_AUDIT_VERSION_def body_text_def head_text_def)

definition demo_line :: string where
  "demo_line = line_text demo_event_text None (replicate 64 (CHR ''0'')) (nat_str 1)"

lemma demo_record_keys: "sort_strings [''event'', ''previousDigest'', ''sequence'', ''version'', ''recordDigest''] = RECORD_FIELDS"
  by (simp add: RECORD_FIELDS_def sort_strings_def utf16_key_def char_rank_def)

lemma demo_record: "new_object_json demo_event_heap (record_fields (JRef 0) None 1 (demo_audit_hash b)) = Inr demo_line"
  by (simp add: new_object_json_def record_fields_def body_fields_def digest_value_def demo_fields [unfolded One_nat_def]
      then_res_def demo_record_keys RUNTIME_AUDIT_VERSION_def demo_line_def line_text_def head_text_def demo_audit_hash_def)
    (simp add: RECORD_FIELDS_def demo_fields [unfolded One_nat_def] then_res_def)

lemma demo_line_length: "length demo_line < 1000"
  by code_simp

lemma demo_append:
  "ledger_append G demo_audit_hash demo_event_heap (JRef 0) (Wrote (Suc (length demo_line))) (Inr ()) (demo_ledger, []) =
    (Inr \<lparr>lr_event = JRef 0, lr_previous = None, lr_digest = demo_audit_hash [], lr_sequence = 1\<rparr>,
     demo_ledger\<lparr>al_count := 1, al_head := Some (demo_audit_hash [])\<rparr>, demo_line @ [newline])"
  using demo_line_length
  by (simp add: ledger_append_def assert_healthy_def demo_ledger_def prepare_record_def demo_assert
      demo_body [unfolded One_nat_def] demo_record [unfolded One_nat_def] then_res_def)
    (simp add: demo_audit_hash_def)
text \<open>The file after it.\<close>

lemma demo_reads_event: "reads_event demo_reader demo_event_heap (JRef 0)"
proof -
  have depth: "MAX_CANONICAL_DEPTH = Suc (Suc (Suc 9))" by (simp add: MAX_CANONICAL_DEPTH_def)
  have objects: "own_property (heap_get demo_event_heap 0) ''name'' = Some (Data True (JStr ''runtime.started''))"
    "own_property (heap_get demo_event_heap 0) ''payload'' = Some (Data True (JRef (Suc 0)))"
    "own_property (heap_get demo_event_heap (Suc 0)) ''runtimeId'' = Some (Data True (JStr ''r''))"
    by (simp_all add: demo_objects own_property_def)
  have "heap_doc MAX_CANONICAL_DEPTH demo_event_heap (JRef 0) =
    Some (JsObj [(''name'', JsStr ''runtime.started''), (''payload'', JsObj [(''runtimeId'', JsStr ''r'')])])"
    unfolding depth heap_doc.simps(2) by (simp add: Let_def demo_plain demo_properties objects option_list_def)
  moreover have "distinct_keys demo_event_heap" by (simp add: distinct_keys_def demo_event_heap_def)
  ultimately show ?thesis by (simp add: reads_event_def)
qed

lemma demo_empty: "verify_ledger_text R H (al_max demo_ledger) [] = valid_ledger (al_count demo_ledger) (al_head demo_ledger)"
  by (simp add: verify_ledger_text_def demo_ledger_def)

lemma demo_verified:
  "verify_ledger_text demo_reader demo_audit_hash 1000 (demo_line @ [newline]) = valid_ledger 1 (Some (demo_audit_hash []))"
  using append_step(1) [OF demo_empty demo_append demo_reads_event demo_reads_sequence _ demo_audit_hash_hex]
  by (simp add: demo_ledger_def)

lemma demo_bodies: "inj_on H (hashed_bodies demo_reader (demo_line @ [newline]))"
proof -
  obtain ls where ls: "demo_line @ [newline] = unlines ls" "\<forall>l \<in> set ls. newline \<notin> set l"
    "verify_lines demo_reader demo_audit_hash 1000 0 None ls = (1, Some (demo_audit_hash []), None)"
    using demo_verified unfolding valid_text by blast
  obtain line where line: "ls = [line]"
    using verify_lines_count [OF ls(3)] by (cases ls; cases "tl ls") auto
  have parts: "split_lines (demo_line @ [newline]) = [line, []]" using split_unlines [OF ls(2)] unfolding ls(1) line by simp
  have "json_parse R [] = None" for R by (simp add: json_parse_def skip_ws_def)
  then show ?thesis by (auto simp: inj_on_def hashed_bodies_def parts)
qed

definition demo_opening :: opening_env where
  "demo_opening = \<lparr>op_mkdir = Inr (), op_irregular = Inr False, op_open = Inr (), op_regular = Inr True, op_after = LedgerText []\<rparr>"

lemma demo_opened:
  "new_ledger (\<lambda>s. s) R H (JStr ''/l'') (Some (Fin 1000 0)) False Missing demo_opening [] = (Inr demo_ledger, [''/l''])"
  by (simp add: new_ledger_def blank_def js_trim_def strip_ws.simps ws_seqs_def set_add_def resolve_max_record_bytes_def open_ledger_def demo_opening_def demo_ledger_def
      verify_ledger_file_def verify_ledger_text_def valid_ledger_def then_res_def other_res_def num_is_safe_integer_def)

lemma demo_failed:
  "ledger_append G demo_audit_hash demo_event_heap (JRef 0) (WriteThrows 3 (RangeErr ''ENOSPC'')) (Inr ()) (demo_ledger, []) =
    (Inl (OtherErr (RangeErr ''ENOSPC'')), mark_unhealthy (OtherErr (RangeErr ''ENOSPC'')) demo_ledger,
     take 3 (demo_line @ [newline]))"
  using demo_line_length
  by (simp add: ledger_append_def assert_healthy_def demo_ledger_def prepare_record_def demo_assert
      demo_body [unfolded One_nat_def] demo_record [unfolded One_nat_def] then_res_def del: take_append)

end
