(* ===== verification/Runtime_Logger.thy ===== *)
theory Runtime_Logger
  imports Payload_Digest
begin

text \<open>
  The loggers of \<open>src/logger/runtime-logger.ts\<close>: which entries a level lets through, the redaction of
  metadata before it is printed or kept, and the bounded list of the in-memory logger.

  Metadata is a value in a heap; what is logged is a copy, a tree. \<open>P\<close> is what a proxy answers to
  \<open>Array.isArray\<close> and \<open>getOwnPropertyDescriptors\<close>, or that they throw. \<open>redactKeys\<close> is a predicate on
  keys. The prototype that an own key \<open>__proto__\<close> gives the copy is not tracked. A function is handed on as
  it is and has no fields here, so what a console prints of its own properties is not covered.
\<close>

section \<open>Levels\<close>

datatype log_level = LDebug | LInfo | LWarn | LError

fun level_priority :: "log_level \<Rightarrow> nat" where
  "level_priority LDebug = 0"
| "level_priority LInfo = 1"
| "level_priority LWarn = 2"
| "level_priority LError = 3"

definition level_named :: "string \<Rightarrow> log_level option" where
  "level_named s = map_of [(''debug'', LDebug), (''info'', LInfo), (''warn'', LWarn), (''error'', LError)] s"

definition resolve_log_level :: "jsval \<Rightarrow> log_level \<Rightarrow> log_level res" where
  "resolve_log_level v fallback =
    (let failure = Inl (RangeErr ''level must be one of: debug, info, warn, error.'') in
     case v of
       JUndefined \<Rightarrow> Inr fallback
     | JStr s \<Rightarrow> (case level_named s of None \<Rightarrow> failure | Some l \<Rightarrow> Inr l)
     | _ \<Rightarrow> failure)"

definition should_log :: "log_level \<Rightarrow> log_level \<Rightarrow> bool" where
  "should_log level minimum \<longleftrightarrow> level_priority minimum \<le> level_priority level"

section \<open>The default pattern\<close>

text \<open>
  \<open>/(secret|token|password|api.?key|authorization)/i\<close>. A dot is one code unit that ends no line: a
  character of at most three bytes.
\<close>

definition starts_ci :: "string \<Rightarrow> string \<Rightarrow> bool" where
  "starts_ci word s \<longleftrightarrow> prefix word (map lower_ascii s)"

definition skip_unit :: "string \<Rightarrow> string option" where
  "skip_unit s =
    (case s of
       [] \<Rightarrow> None
     | c # cs \<Rightarrow>
         let n = (of_char c :: nat) in
         if n = 10 \<or> n = 13 then None
         else if n < 0x80 then Some cs
         else if n < 0xE0 then Some (drop 1 cs)
         else if n < 0xF0 then
           (if take 3 s \<in> {[CHR 0xE2, CHR 0x80, CHR 0xA8], [CHR 0xE2, CHR 0x80, CHR 0xA9]} then None else Some (drop 2 cs))
         else None)"

definition api_key_at :: "string \<Rightarrow> bool" where
  "api_key_at s \<longleftrightarrow> starts_ci ''api'' s \<and>
    (starts_ci ''key'' (drop 3 s) \<or> (case skip_unit (drop 3 s) of None \<Rightarrow> False | Some r \<Rightarrow> starts_ci ''key'' r))"

definition secret_at :: "string \<Rightarrow> bool" where
  "secret_at s \<longleftrightarrow> starts_ci ''secret'' s \<or> starts_ci ''token'' s \<or> starts_ci ''password'' s \<or> api_key_at s \<or>
    starts_ci ''authorization'' s"

definition DEFAULT_REDACT_KEYS :: "string \<Rightarrow> bool" where
  "DEFAULT_REDACT_KEYS k \<longleftrightarrow> list_ex secret_at (suffixes k)"

section \<open>Redaction\<close>

datatype redacted =
    RLeaf jsval
  | RArr "redacted option list"
  | RObj "(string \<times> redacted) list"

definition REDACTED :: redacted where
  "REDACTED = RLeaf (JStr ''[REDACTED]'')"

definition CIRCULAR_METADATA_SENTINEL :: redacted where
  "CIRCULAR_METADATA_SENTINEL = RLeaf (JStr ''[Circular]'')"

definition ACCESSOR_METADATA_SENTINEL :: redacted where
  "ACCESSOR_METADATA_SENTINEL = RLeaf (JStr ''[Accessor]'')"

definition UNINSPECTABLE_METADATA_SENTINEL :: redacted where
  "UNINSPECTABLE_METADATA_SENTINEL = RLeaf (JStr ''[Uninspectable]'')"

definition inspect :: "(loc \<Rightarrow> js_object option) \<Rightarrow> heap \<Rightarrow> loc \<Rightarrow> js_object option" where
  "inspect P h l = (let ob = heap_get h l in if ob_proxy ob then P l else Some ob)"

fun is_enumerable :: "descriptor \<Rightarrow> bool" where
  "is_enumerable (Data b _) = b"
| "is_enumerable (Accessor b) = b"

definition enumerable_props :: "js_object \<Rightarrow> (string \<times> descriptor) list" where
  "enumerable_props ob = filter (\<lambda>kd. is_enumerable (snd kd)) (string_props ob)"

text \<open>A location with properties is one of the heap, and it joins the ancestors.\<close>

lemma inspect_absent: "inspect P h l = Some ob \<Longrightarrow> l \<notin> fst ` set h \<Longrightarrow> ob = plain_object"
  by (simp add: inspect_def heap_get_absent Let_def plain_object_def split: if_splits)

lemma fewer_left: "l \<in> fst ` set h \<Longrightarrow> l \<notin> set anc \<Longrightarrow>
  card (fst ` set h - set (l # anc)) < card (fst ` set h - set anc)"
  by (rule psubset_card_mono) auto

lemma walk_descends:
  assumes "inspect P h l = Some ob" and "l \<notin> set anc" and "ob \<noteq> plain_object"
  shows "Suc (2 * card (fst ` set h - set (l # anc))) < 2 * card (fst ` set h - set anc)"
  using fewer_left [of l h anc] inspect_absent assms by fastforce

function redact_value :: "(string \<Rightarrow> bool) \<Rightarrow> (loc \<Rightarrow> js_object option) \<Rightarrow> heap \<Rightarrow> loc list \<Rightarrow> jsval \<Rightarrow> redacted"
  and redact_descriptor ::
    "(string \<Rightarrow> bool) \<Rightarrow> (loc \<Rightarrow> js_object option) \<Rightarrow> heap \<Rightarrow> loc list \<Rightarrow> string \<Rightarrow> descriptor \<Rightarrow> redacted" where
  "redact_value hidden P h ancestors v =
    (case v of
       JRef l \<Rightarrow>
         if l \<in> set ancestors then CIRCULAR_METADATA_SENTINEL
         else
           (case inspect P h l of
              None \<Rightarrow> UNINSPECTABLE_METADATA_SENTINEL
            | Some ob \<Rightarrow>
                if ob_array ob
                then RArr (map (\<lambda>i.
                  case own_property ob (nat_str i) of
                    None \<Rightarrow> None
                  | Some d \<Rightarrow>
                      if is_enumerable d then Some (redact_descriptor hidden P h (l # ancestors) (nat_str i) d) else None)
                  [0..<ob_length ob])
                else RObj (map (\<lambda>kd. (fst kd, redact_descriptor hidden P h (l # ancestors) (fst kd) (snd kd)))
                  (enumerable_props ob)))
     | _ \<Rightarrow> RLeaf v)"
| "redact_descriptor hidden P h ancestors k d =
    (if hidden k then REDACTED
     else
       (case d of
          Accessor _ \<Rightarrow> ACCESSOR_METADATA_SENTINEL
        | Data _ v \<Rightarrow> redact_value hidden P h ancestors v))"
  by pat_completeness auto
termination
proof (relation "measure (\<lambda>x. case x of
      Inl (_, _, h, anc, _) \<Rightarrow> 2 * card (fst ` set h - set anc)
    | Inr (_, _, h, anc, _, _) \<Rightarrow> Suc (2 * card (fst ` set h - set anc)))", goal_cases)
  case 1
  then show ?case by simp
next
  case (2 hidden P h anc v l ob i d)
  then have "ob \<noteq> plain_object" by (auto simp: plain_object_def own_property_def)
  then show ?case using walk_descends [OF 2(3) 2(2)] by simp
next
  case (3 hidden P h anc v l ob kd)
  then have "ob \<noteq> plain_object"
    by (auto simp: plain_object_def enumerable_props_def string_props_def map_filter_simps)
  then show ?case using walk_descends [OF 3(3) 3(2)] by simp
next
  case 4
  then show ?case by simp
qed

declare redact_value.simps [simp del] redact_descriptor.simps [simp del]

section \<open>The console logger\<close>

text \<open>What is no plain record is wrapped; \<open>metadata\<close> is then its only field.\<close>

definition as_record :: "redacted \<Rightarrow> redacted" where
  "as_record r = (case r of RObj _ \<Rightarrow> r | _ \<Rightarrow> RObj [(''metadata'', r)])"

record console_logger =
  cl_level :: log_level
  cl_hidden :: "string \<Rightarrow> bool"

definition new_console_logger :: "jsval \<Rightarrow> (string \<Rightarrow> bool) option \<Rightarrow> console_logger res" where
  "new_console_logger level keys =
    (case resolve_log_level level LInfo of
       Inl e \<Rightarrow> Inl e
     | Inr l \<Rightarrow> Inr \<lparr>cl_level = l, cl_hidden = (case keys of None \<Rightarrow> DEFAULT_REDACT_KEYS | Some f \<Rightarrow> f)\<rparr>)"

definition prepare_metadata :: "console_logger \<Rightarrow> (loc \<Rightarrow> js_object option) \<Rightarrow> heap \<Rightarrow> jsval \<Rightarrow> redacted" where
  "prepare_metadata c P h v =
    as_record (if v = JUndefined \<or> v = JNull then RObj [] else redact_value (cl_hidden c) P h [] v)"

text \<open>The line on the console: its level, the message and the prepared metadata.\<close>

definition console_emit ::
  "console_logger \<Rightarrow> (loc \<Rightarrow> js_object option) \<Rightarrow> heap \<Rightarrow> log_level \<Rightarrow> string \<Rightarrow> jsval \<Rightarrow>
    (log_level \<times> string \<times> redacted) option" where
  "console_emit c P h level message v =
    (if \<not> should_log level (cl_level c) then None else Some (level, message, prepare_metadata c P h v))"

section \<open>The in-memory logger\<close>

record log_entry =
  le_level :: log_level
  le_message :: string
  le_metadata :: "redacted option"

record memory_logger =
  ml_entries :: "log_entry list"
  ml_max :: nat
  ml_level :: log_level
  ml_hidden :: "string \<Rightarrow> bool"

definition new_memory_logger :: "jsnum option \<Rightarrow> jsval \<Rightarrow> (string \<Rightarrow> bool) option \<Rightarrow> memory_logger res" where
  "new_memory_logger entries level keys =
    (let n = (case entries of None \<Rightarrow> num_of_nat 5000 | Some v \<Rightarrow> v) in
     if \<not> num_is_integer n \<or> num_int n < 0
     then Inl (RangeErr ''maxEntries must be a non-negative integer.'')
     else
       (case resolve_log_level level LDebug of
          Inl e \<Rightarrow> Inl e
        | Inr l \<Rightarrow> Inr \<lparr>ml_entries = [], ml_max = nat (num_int n), ml_level = l,
            ml_hidden = (case keys of None \<Rightarrow> DEFAULT_REDACT_KEYS | Some f \<Rightarrow> f)\<rparr>))"

fun truthy :: "jsval \<Rightarrow> bool" where
  "truthy JUndefined = False"
| "truthy JNull = False"
| "truthy (JBool b) = b"
| "truthy (JNum v) = (case v of NaN \<Rightarrow> False | NegZero \<Rightarrow> False | Fin m _ \<Rightarrow> m \<noteq> 0 | _ \<Rightarrow> True)"
| "truthy (JBigInt i) = (i \<noteq> 0)"
| "truthy (JStr s) = (s \<noteq> [])"
| "truthy _ = True"

definition kept_metadata :: "(string \<Rightarrow> bool) \<Rightarrow> (loc \<Rightarrow> js_object option) \<Rightarrow> heap \<Rightarrow> jsval \<Rightarrow> redacted option" where
  "kept_metadata hidden P h v = (if truthy v then Some (as_record (redact_value hidden P h [] v)) else None)"

definition append_entry ::
  "(loc \<Rightarrow> js_object option) \<Rightarrow> heap \<Rightarrow> log_level \<Rightarrow> string \<Rightarrow> jsval \<Rightarrow> memory_logger \<Rightarrow> memory_logger" where
  "append_entry P h level message v g =
    (if \<not> should_log level (ml_level g) then g
     else
       (let kept = (if 0 < ml_max g \<and> ml_max g \<le> length (ml_entries g) then tl (ml_entries g) else ml_entries g) in
        g\<lparr>ml_entries := kept @ [\<lparr>le_level = level, le_message = message,
          le_metadata = kept_metadata (ml_hidden g) P h v\<rparr>]\<rparr>))"

definition memory_log ::
  "(loc \<Rightarrow> js_object option) \<Rightarrow> heap \<Rightarrow> log_level \<Rightarrow> string \<Rightarrow> jsval \<Rightarrow> memory_logger \<Rightarrow> memory_logger" where
  "memory_log P h level message v g = (if should_log level (ml_level g) then append_entry P h level message v g else g)"

definition clear_log :: "memory_logger \<Rightarrow> memory_logger" where
  "clear_log g = g\<lparr>ml_entries := []\<rparr>"

definition log_size :: "memory_logger \<Rightarrow> nat" where
  "log_size g = length (ml_entries g)"

section \<open>What is under a redacted key is not logged\<close>

text \<open>An object as the loggers may see it: values under redacted keys and behind hidden or computed properties are blank.\<close>

definition veil :: "(string \<Rightarrow> bool) \<Rightarrow> string \<Rightarrow> descriptor \<Rightarrow> descriptor" where
  "veil hidden k d = (if hidden k \<or> \<not> is_enumerable d then Data (is_enumerable d) JUndefined else d)"

definition visible :: "(string \<Rightarrow> bool) \<Rightarrow> js_object \<Rightarrow> bool \<times> nat \<times> (string \<times> descriptor) list" where
  "visible hidden ob = (ob_array ob, ob_length ob, map (\<lambda>kd. (fst kd, veil hidden (fst kd) (snd kd))) (string_props ob))"

definition same_but_secrets ::
  "(string \<Rightarrow> bool) \<Rightarrow> (loc \<Rightarrow> js_object option) \<times> heap \<Rightarrow> (loc \<Rightarrow> js_object option) \<times> heap \<Rightarrow> bool" where
  "same_but_secrets hidden x y \<longleftrightarrow>
    (\<forall>l. map_option (visible hidden) (inspect (fst x) (snd x) l) = map_option (visible hidden) (inspect (fst y) (snd y) l))"

lemma veil_enumerable [simp]: "is_enumerable (veil hidden k d) = is_enumerable d"
  by (simp add: veil_def)

lemma own_string_property: "own_property ob k = map_of (string_props ob) k"
proof -
  have "map_of ps (KStr k) = map_of (List.map_filter (\<lambda>(k, d). map_option (\<lambda>s. (s, d)) (key_string k)) ps) k" for ps :: "(pkey \<times> descriptor) list"
  proof (induction ps)
    case (Cons p ps)
    obtain x d where "p = (x, d)" by (cases p)
    then show ?case using Cons.IH by (cases x) (simp_all add: map_filter_simps)
  qed (simp add: map_filter_simps)
  then show ?thesis by (simp add: own_property_def string_props_def)
qed

lemma visible_property:
  assumes "visible hidden ob = visible hidden ob'"
  shows "map_option (veil hidden k) (own_property ob k) = map_option (veil hidden k) (own_property ob' k)"
proof -
  have eq: "map_of (map (\<lambda>kd. (fst kd, veil hidden (fst kd) (snd kd))) ps) k = map_option (veil hidden k) (map_of ps k)" for ps
    by (induction ps) auto
  have "map (\<lambda>kd. (fst kd, veil hidden (fst kd) (snd kd))) (string_props ob) =
      map (\<lambda>kd. (fst kd, veil hidden (fst kd) (snd kd))) (string_props ob')"
    using assms unfolding visible_def by blast
  from arg_cong [OF this, of "\<lambda>ps. map_of ps k"] show ?thesis unfolding eq own_string_property .
qed

lemma masked_list:
  assumes "map (\<lambda>kd. (fst kd, veil hidden (fst kd) (snd kd))) ps = map (\<lambda>kd. (fst kd, veil hidden (fst kd) (snd kd))) qs"
  shows "list_all2 (\<lambda>p q. fst p = fst q \<and> veil hidden (fst p) (snd p) = veil hidden (fst p) (snd q))
    (filter (\<lambda>kd. is_enumerable (snd kd)) ps) (filter (\<lambda>kd. is_enumerable (snd kd)) qs)"
  using assms
proof (induction ps arbitrary: qs)
  case (Cons p ps)
  then obtain q rs where "qs = q # rs" by (cases qs) auto
  then show ?case using Cons by (auto dest: arg_cong [where f = is_enumerable])
qed simp

lemma masked_descriptor:
  assumes "veil hidden k d = veil hidden k d'" and "is_enumerable d" and "\<not> hidden k"
  shows "d = d'"
  using assms veil_enumerable [of hidden k d'] by (auto simp: veil_def split: if_splits)

lemma redaction_hides:
  "same_but_secrets hidden (P, h) (P', h') \<Longrightarrow> redact_value hidden P h anc v = redact_value hidden P' h' anc v"
  "same_but_secrets hidden (P, h) (P', h') \<Longrightarrow> is_enumerable d \<Longrightarrow> veil hidden k d = veil hidden k d' \<Longrightarrow>
    redact_descriptor hidden P h anc k d = redact_descriptor hidden P' h' anc k d'"
proof (induction hidden P h anc v and hidden P h anc k d arbitrary: and d' rule: redact_value_redact_descriptor.induct)
  case (1 hidden P h anc v)
  show ?case
  proof (cases "\<exists>l. v = JRef l \<and> l \<notin> set anc")
    case False
    then show ?thesis by (auto simp: redact_value.simps [where v = v] split: jsval.splits)
  next
    case True
    then obtain l where v: "v = JRef l" "l \<notin> set anc" by blast
    have alike: "map_option (visible hidden) (inspect P h l) = map_option (visible hidden) (inspect P' h' l)"
      using 1(3) by (simp add: same_but_secrets_def)
    show ?thesis
    proof (cases "inspect P h l")
      case None
      then show ?thesis using alike v by (simp add: redact_value.simps [where v = "JRef l"])
    next
      case (Some ob)
      then obtain ob' where ob': "inspect P' h' l = Some ob'" and vis: "visible hidden ob = visible hidden ob'"
        using alike by (cases "inspect P' h' l") auto
      have shape: "ob_array ob = ob_array ob'" "ob_length ob = ob_length ob'" using vis by (simp_all add: visible_def)
      show ?thesis
      proof (cases "ob_array ob")
        case True
        have "(case own_property ob (nat_str i) of None \<Rightarrow> None | Some d \<Rightarrow>
            if is_enumerable d then Some (redact_descriptor hidden P h (l # anc) (nat_str i) d) else None) =
          (case own_property ob' (nat_str i) of None \<Rightarrow> None | Some d \<Rightarrow>
            if is_enumerable d then Some (redact_descriptor hidden P' h' (l # anc) (nat_str i) d) else None)"
          if i: "i \<in> set [0..<ob_length ob]" for i
        proof (cases "own_property ob (nat_str i)")
          case None
          then show ?thesis using visible_property [OF vis, of "nat_str i"] by simp
        next
          case (Some d)
          then obtain d' where d': "own_property ob' (nat_str i) = Some d'" "veil hidden (nat_str i) d = veil hidden (nat_str i) d'"
            using visible_property [OF vis, of "nat_str i"] by (cases "own_property ob' (nat_str i)") auto
          have "is_enumerable d = is_enumerable d'" using arg_cong [OF d'(2), of is_enumerable] by simp
          then show ?thesis using 1(1) [OF v \<open>inspect P h l = Some ob\<close> True i Some] 1(3) Some d' by simp
        qed
        then show ?thesis using Some ob' True shape v
          by (simp add: redact_value.simps [where v = "JRef l"] cong: map_cong)
      next
        case False
        have "list_all2 (\<lambda>p q. fst p = fst q \<and> veil hidden (fst p) (snd p) = veil hidden (fst p) (snd q))
            (enumerable_props ob) (enumerable_props ob')"
          using vis unfolding visible_def enumerable_props_def by (intro masked_list) blast
        then have "map (\<lambda>kd. (fst kd, redact_descriptor hidden P h (l # anc) (fst kd) (snd kd))) (enumerable_props ob) =
            map (\<lambda>kd. (fst kd, redact_descriptor hidden P' h' (l # anc) (fst kd) (snd kd))) (enumerable_props ob')"
        proof (intro nth_equalityI)
          fix i assume all: "list_all2 (\<lambda>p q. fst p = fst q \<and> veil hidden (fst p) (snd p) = veil hidden (fst p) (snd q))
            (enumerable_props ob) (enumerable_props ob')"
            and i: "i < length (map (\<lambda>kd. (fst kd, redact_descriptor hidden P h (l # anc) (fst kd) (snd kd))) (enumerable_props ob))"
          have p: "enumerable_props ob ! i \<in> set (enumerable_props ob)" using i by simp
          then have en: "is_enumerable (snd (enumerable_props ob ! i))" by (simp add: enumerable_props_def)
          have q: "fst (enumerable_props ob ! i) = fst (enumerable_props ob' ! i)"
            "veil hidden (fst (enumerable_props ob ! i)) (snd (enumerable_props ob ! i)) =
              veil hidden (fst (enumerable_props ob ! i)) (snd (enumerable_props ob' ! i))"
            using list_all2_nthD [OF all, of i] i unfolding length_map by blast+
          show "map (\<lambda>kd. (fst kd, redact_descriptor hidden P h (l # anc) (fst kd) (snd kd))) (enumerable_props ob) ! i =
            map (\<lambda>kd. (fst kd, redact_descriptor hidden P' h' (l # anc) (fst kd) (snd kd))) (enumerable_props ob') ! i"
            using 1(2) [OF v Some False p 1(3) en q(2)] q(1) list_all2_lengthD [OF all] i by simp
        qed (auto dest: list_all2_lengthD)
        then show ?thesis using Some ob' False shape v by (simp add: redact_value.simps [where v = "JRef l"])
      qed
    qed
  qed
next
  case (2 hidden P h anc k d)
  show ?case
  proof (cases "hidden k")
    case True
    then show ?thesis by (simp add: redact_descriptor.simps)
  next
    case False
    then have "d' = d" using masked_descriptor 2 by metis
    then show ?thesis using 2 False by (auto simp: redact_descriptor.simps split: descriptor.splits)
  qed
qed

section \<open>The newest entries of the level are kept\<close>

type_synonym log_call = "(loc \<Rightarrow> js_object option) \<times> heap \<times> log_level \<times> string \<times> jsval"

fun log_all :: "log_call list \<Rightarrow> memory_logger \<Rightarrow> memory_logger" where
  "log_all [] g = g"
| "log_all ((P, h, level, message, v) # cs) g = log_all cs (memory_log P h level message v g)"

definition kept_entries :: "(string \<Rightarrow> bool) \<Rightarrow> log_level \<Rightarrow> log_call list \<Rightarrow> log_entry list" where
  "kept_entries hidden minimum cs =
    map (\<lambda>(P, h, level, message, v). \<lparr>le_level = level, le_message = message, le_metadata = kept_metadata hidden P h v\<rparr>)
      (filter (\<lambda>(P, h, level, message, v). should_log level minimum) cs)"

definition keep_newest :: "nat \<Rightarrow> 'a list \<Rightarrow> 'a list" where
  "keep_newest n xs = (if n = 0 then xs else drop (length xs - n) xs)"

lemma keep_newest_short: "length xs \<le> n \<or> n = 0 \<Longrightarrow> keep_newest n xs = xs"
  by (auto simp: keep_newest_def)

lemma keep_newest_snoc: "keep_newest n (keep_newest n xs @ ys) = keep_newest n (xs @ ys)"
  by (cases "length xs \<le> n") (auto simp: keep_newest_def add.commute)

lemma log_call_keeps:
  "ml_entries (memory_log P h level message v g) =
    (if should_log level (ml_level g)
     then keep_newest (ml_max g) (ml_entries g @ [\<lparr>le_level = level, le_message = message,
       le_metadata = kept_metadata (ml_hidden g) P h v\<rparr>]) else ml_entries g)"
  if "ml_max g = 0 \<or> length (ml_entries g) \<le> ml_max g"
  using that by (cases "ml_entries g") (auto simp: memory_log_def append_entry_def Let_def keep_newest_def)

lemma log_call_frame [simp]:
  "ml_max (memory_log P h level message v g) = ml_max g" "ml_level (memory_log P h level message v g) = ml_level g"
  "ml_hidden (memory_log P h level message v g) = ml_hidden g"
  by (simp_all add: memory_log_def append_entry_def Let_def)

lemma log_keeps_newest:
  assumes "ml_max g = 0 \<or> length (ml_entries g) \<le> ml_max g"
  shows "ml_entries (log_all cs g) = keep_newest (ml_max g) (ml_entries g @ kept_entries (ml_hidden g) (ml_level g) cs)"
  using assms
proof (induction cs arbitrary: g)
  case Nil
  then show ?case by (auto simp: kept_entries_def keep_newest_def)
next
  case (Cons c cs)
  obtain P h level message v where c: "c = (P, h, level, message, v)" by (cases c)
  let ?g = "memory_log P h level message v g"
  have "ml_max ?g = 0 \<or> length (ml_entries ?g) \<le> ml_max ?g"
    using Cons.prems log_call_keeps [OF Cons.prems] by (auto simp: keep_newest_def)
  from Cons.IH [OF this] show ?case
    by (simp add: c log_call_keeps [OF Cons.prems] kept_entries_def keep_newest_snoc)
qed

lemma log_all_frame [simp]: "ml_max (log_all cs g) = ml_max g" "ml_hidden (log_all cs g) = ml_hidden g"
  by (induction cs arbitrary: g) (auto split: prod.splits)

lemma log_bounded:
  assumes "new_memory_logger entries level keys = Inr g" and "0 < ml_max g"
  shows "log_size (log_all cs g) \<le> ml_max g"
proof -
  have "ml_entries g = []" using assms(1) by (auto simp: new_memory_logger_def Let_def split: if_splits sum.splits)
  then show ?thesis using log_keeps_newest [of g cs] assms(2) by (simp add: log_size_def keep_newest_def)
qed

end
