(* ===== verification/Hardened_Store.thy ===== *)
theory Hardened_Store
  imports Approval_Store
begin

text \<open>
  The approval store that an application sees (\<open>src/policies/hardened-json-file-tool-approval-store.ts\<close>):
  before every operation it makes the path canonical and refuses a file that is a link or has several
  names; the operation itself is that of \<open>Approval_Store\<close>.

  \<open>resolve\<close> is that of \<open>node:path\<close>, so that a resolved path is absolute; \<open>mkdir\<close>, \<open>realpath\<close> and
  \<open>lstat\<close> answer through arguments.
\<close>

section \<open>Paths\<close>

definition base_name :: "string \<Rightarrow> string" where
  "base_name p = rev (takeWhile (\<lambda>c. c \<noteq> CHR ''/'') (rev p))"

definition dir_name :: "string \<Rightarrow> string" where
  "dir_name p =
    (let d = rev (tl (dropWhile (\<lambda>c. c \<noteq> CHR ''/'') (rev p))) in if d = [] then ''/'' else d)"

definition join_path :: "string \<Rightarrow> string \<Rightarrow> string" where
  "join_path d b = (if b = [] then d else if last d = CHR ''/'' then d @ b else d @ ''/'' @ b)"

text \<open>The answer of \<open>mkdir\<close> on the parent, and of \<open>realpath\<close>.\<close>

record parent_answer =
  pa_mkdir :: "unit res"
  pa_real :: "string res"

definition canonical_authority_path :: "string \<Rightarrow> (string \<Rightarrow> parent_answer) \<Rightarrow> string res" where
  "canonical_authority_path requested ask =
    (let a = ask (dir_name requested) in
     and_then (pa_mkdir a) (\<lambda>_. and_then (pa_real a) (\<lambda>d. Inr (join_path d (base_name requested)))))"

section \<open>The check of the file\<close>

text \<open>What \<open>lstat\<close> finds under a name: a link, a regular file with its identity and its number of names, or else.\<close>

datatype dir_entry = SymbolicLink | RegularFile nat nat | OtherEntry

datatype lstat_answer = NoEntry | LstatFails js_error | LinkEntry dir_entry

definition unsafe_authority_path :: "string \<Rightarrow> string \<Rightarrow> string \<Rightarrow> js_error" where
  "unsafe_authority_path requested authority reason =
    RuntimeError STORAGE_CORRUPTED
      (''Unsafe tool approval storage path at '' @ requested @ '': '' @ reason @ ''.'')
      (Some [(''requestedPath'', JStr requested), (''authorityPath'', JStr authority)])"

definition assert_safe_authority_file :: "string \<Rightarrow> string \<Rightarrow> lstat_answer \<Rightarrow> unit res" where
  "assert_safe_authority_file requested authority found =
    (case found of
       NoEntry \<Rightarrow> Inr ()
     | LstatFails e \<Rightarrow> Inl e
     | LinkEntry SymbolicLink \<Rightarrow>
         Inl (unsafe_authority_path requested authority ''the authority file must not be a symbolic link'')
     | LinkEntry OtherEntry \<Rightarrow>
         Inl (unsafe_authority_path requested authority ''the authority path must be a regular file'')
     | LinkEntry (RegularFile i links) \<Rightarrow>
         if links \<noteq> 1
         then Inl (unsafe_authority_path requested authority ''the authority file must have exactly one filesystem link'')
         else Inr ())"

section \<open>The store\<close>

record hardened_options =
  ho_runtime :: string
  ho_timeout :: "jsnum option"
  ho_delay :: "jsnum option"

text \<open>Both promises are kept once they were made, the rejected ones too.\<close>

record hardened_store =
  hs_path :: string
  hs_resolved :: string
  hs_options :: hardened_options
  hs_authority :: "string res option"
  hs_store :: "approval_file option"

definition new_hardened_store :: "(string \<Rightarrow> string) \<Rightarrow> string \<Rightarrow> hardened_options \<Rightarrow> hardened_store res" where
  "new_hardened_store resolve path opt =
    and_then (new_approval_file path (ho_runtime opt) (ho_timeout opt) (ho_delay opt)) (\<lambda>_.
    Inr \<lparr>hs_path = path, hs_resolved = resolve path, hs_options = opt, hs_authority = None, hs_store = None\<rparr>)"

definition get_authority_path :: "(string \<Rightarrow> parent_answer) \<Rightarrow> hardened_store \<Rightarrow> string res \<times> hardened_store" where
  "get_authority_path ask hs =
    (let a = (case hs_authority hs of None \<Rightarrow> canonical_authority_path (hs_resolved hs) ask | Some a \<Rightarrow> a)
     in (a, hs\<lparr>hs_authority := Some a\<rparr>))"

definition get_store :: "string \<Rightarrow> hardened_store \<Rightarrow> approval_file res \<times> hardened_store" where
  "get_store authority hs =
    (case hs_store hs of
       Some s \<Rightarrow> (Inr s, hs)
     | None \<Rightarrow>
         (let opt = hs_options hs in
          case new_approval_file authority (ho_runtime opt) (ho_timeout opt) (ho_delay opt) of
            Inl e \<Rightarrow> (Inl e, hs)
          | Inr s \<Rightarrow> (Inr s, hs\<lparr>hs_store := Some s\<rparr>)))"

text \<open>\<open>withStore\<close> up to the call of the operation: the store it is called with, or why it is not.\<close>

definition with_store ::
  "(string \<Rightarrow> parent_answer) \<Rightarrow> (string \<Rightarrow> lstat_answer) \<Rightarrow> hardened_store \<Rightarrow> approval_file res \<times> hardened_store" where
  "with_store ask lstat hs =
    (case get_authority_path ask hs of
       (Inl e, hs) \<Rightarrow> (Inl e, hs)
     | (Inr a, hs) \<Rightarrow>
         (case assert_safe_authority_file (hs_path hs) a (lstat a) of
            Inl e \<Rightarrow> (Inl e, hs)
          | Inr _ \<Rightarrow> get_store a hs))"

definition run_with_store ::
  "(string \<Rightarrow> parent_answer) \<Rightarrow> (string \<Rightarrow> lstat_answer) \<Rightarrow> (approval_file \<Rightarrow> 'a file_op) \<Rightarrow> hardened_store \<Rightarrow>
    storage_file \<Rightarrow> ('a res \<times> json option) \<times> hardened_store" where
  "run_with_store ask lstat operation hs f =
    (case with_store ask lstat hs of
       (Inl e, hs) \<Rightarrow> ((Inl e, None), hs)
     | (Inr s, hs) \<Rightarrow> (operation s f, hs))"

definition hardened_approve ::
  "(string \<Rightarrow> string) \<Rightarrow> heap \<Rightarrow> grant_request \<Rightarrow> string \<Rightarrow> clock \<Rightarrow> (string \<Rightarrow> parent_answer) \<Rightarrow> (string \<Rightarrow> lstat_answer) \<Rightarrow>
    hardened_store \<Rightarrow> storage_file \<Rightarrow> (approval_record res \<times> json option) \<times> hardened_store" where
  "hardened_approve H h q uuid now ask lstat = run_with_store ask lstat (\<lambda>s. file_approve H h s q uuid now)"

definition hardened_revoke ::
  "string \<Rightarrow> clock \<Rightarrow> (string \<Rightarrow> parent_answer) \<Rightarrow> (string \<Rightarrow> lstat_answer) \<Rightarrow>
    hardened_store \<Rightarrow> storage_file \<Rightarrow> (bool res \<times> json option) \<times> hardened_store" where
  "hardened_revoke i now ask lstat = run_with_store ask lstat (\<lambda>s. file_revoke s i now)"

definition hardened_get ::
  "string \<Rightarrow> (string \<Rightarrow> parent_answer) \<Rightarrow> (string \<Rightarrow> lstat_answer) \<Rightarrow>
    hardened_store \<Rightarrow> storage_file \<Rightarrow> (approval_record option res \<times> json option) \<times> hardened_store" where
  "hardened_get i ask lstat = run_with_store ask lstat (\<lambda>s. file_get s i)"

definition hardened_consume ::
  "(string \<Rightarrow> string) \<Rightarrow> heap \<Rightarrow> consume_request \<Rightarrow> clock \<Rightarrow> (string \<Rightarrow> parent_answer) \<Rightarrow> (string \<Rightarrow> lstat_answer) \<Rightarrow>
    hardened_store \<Rightarrow> storage_file \<Rightarrow> (consume_decision res \<times> json option) \<times> hardened_store" where
  "hardened_consume H h q now ask lstat = run_with_store ask lstat (\<lambda>s. file_consume H h s q now)"

section \<open>One authority\<close>

text \<open>The store is the one on the authority path, and the path is a name in a canonical directory.\<close>

definition canonical_name :: "string set \<Rightarrow> string \<Rightarrow> bool" where
  "canonical_name D p \<longleftrightarrow> (\<exists>d \<in> D. \<exists>b. p = join_path d b)"

definition real_paths :: "string set \<Rightarrow> (string \<Rightarrow> parent_answer) \<Rightarrow> bool" where
  "real_paths D ask \<longleftrightarrow> (\<forall>p d. pa_real (ask p) = Inr d \<longrightarrow> d \<in> D)"

definition sound_store :: "string set \<Rightarrow> hardened_store \<Rightarrow> bool" where
  "sound_store D hs \<longleftrightarrow>
    (\<forall>a. hs_authority hs = Some (Inr a) \<longrightarrow> canonical_name D a) \<and>
    (\<forall>s. hs_store hs = Some s \<longrightarrow> hs_authority hs = Some (Inr (af_path s)))"

lemma new_file_path: "new_approval_file p r t d = Inr s \<Longrightarrow> af_path s = p"
  by (auto simp: new_approval_file_def and_then_Inr split: if_splits)

lemma fresh_sound: "new_hardened_store resolve p opt = Inr hs \<Longrightarrow> sound_store D hs"
  by (auto simp: new_hardened_store_def and_then_Inr sound_store_def)

lemma canonical_authority: "canonical_authority_path p ask = Inr a \<Longrightarrow> real_paths D ask \<Longrightarrow> canonical_name D a"
  by (auto simp: canonical_authority_path_def and_then_Inr real_paths_def canonical_name_def Let_def)

lemma authority_path_sound:
  assumes "sound_store D hs" and "real_paths D ask" and "get_authority_path ask hs = (r, hs')"
  shows "sound_store D hs'" and "hs_authority hs' = Some r"
    and "hs_authority hs = Some q \<Longrightarrow> hs_authority hs' = Some q" and "hs_path hs' = hs_path hs"
  using assms canonical_authority
  by (auto simp: get_authority_path_def sound_store_def Let_def split: option.splits)

lemma get_store_sound:
  assumes "sound_store D hs" and "hs_authority hs = Some (Inr a)" and "get_store a hs = (r, hs')"
  shows "sound_store D hs'" and "hs_authority hs' = Some (Inr a)" and "r = Inr s \<Longrightarrow> af_path s = a"
  using assms
  by (auto simp: get_store_def sound_store_def Let_def split: option.splits sum.splits dest: new_file_path new_file_path [OF sym])

lemma with_store_cases:
  assumes "with_store ask lstat hs = (r, t)" and "get_authority_path ask hs = (r1, hs1)"
  shows "(\<exists>e. r = Inl e \<and> t = hs1) \<or> (\<exists>a. r1 = Inr a \<and> assert_safe_authority_file (hs_path hs1) a (lstat a) = Inr () \<and>
    get_store a hs1 = (r, t))"
  using assms by (auto simp: with_store_def split: sum.splits)

lemma with_store_sound:
  assumes "sound_store D hs" and "real_paths D ask" and "with_store ask lstat hs = (r, t)"
  shows "sound_store D t" and "hs_authority hs = Some q \<Longrightarrow> hs_authority t = Some q"
    and "r = Inr s \<Longrightarrow> hs_authority t = Some (Inr (af_path s)) \<and> assert_safe_authority_file (hs_path hs) (af_path s) (lstat (af_path s)) = Inr ()"
proof -
  obtain r1 hs1 where one: "get_authority_path ask hs = (r1, hs1)" by (cases "get_authority_path ask hs") auto
  note path = authority_path_sound [OF assms(1,2) one]
  show "sound_store D t" "hs_authority hs = Some q \<Longrightarrow> hs_authority t = Some q"
    "r = Inr s \<Longrightarrow> hs_authority t = Some (Inr (af_path s)) \<and> assert_safe_authority_file (hs_path hs) (af_path s) (lstat (af_path s)) = Inr ()"
    using with_store_cases [OF assms(3) one]
  proof (atomize (full), elim disjE exE conjE)
    fix e assume "r = Inl e" "t = hs1"
    then show "sound_store D t \<and> (hs_authority hs = Some q \<longrightarrow> hs_authority t = Some q) \<and> (r = Inr s \<longrightarrow>
        hs_authority t = Some (Inr (af_path s)) \<and> assert_safe_authority_file (hs_path hs) (af_path s) (lstat (af_path s)) = Inr ())"
      using path(1,3) by auto
  next
    fix a assume a: "r1 = Inr a" "assert_safe_authority_file (hs_path hs1) a (lstat a) = Inr ()" "get_store a hs1 = (r, t)"
    have auth: "hs_authority hs1 = Some (Inr a)" using path(2) a(1) by simp
    note store = get_store_sound [OF path(1) auth a(3)]
    show "sound_store D t \<and> (hs_authority hs = Some q \<longrightarrow> hs_authority t = Some q) \<and> (r = Inr s \<longrightarrow>
        hs_authority t = Some (Inr (af_path s)) \<and> assert_safe_authority_file (hs_path hs) (af_path s) (lstat (af_path s)) = Inr ())"
      using store path(3,4) auth a(2) by auto
  qed
qed

text \<open>Earlier operations, with what they were answered.\<close>

fun admissions :: "((string \<Rightarrow> parent_answer) \<times> (string \<Rightarrow> lstat_answer)) list \<Rightarrow> hardened_store \<Rightarrow> hardened_store" where
  "admissions [] hs = hs"
| "admissions ((ask, lstat) # xs) hs = admissions xs (snd (with_store ask lstat hs))"

lemma admissions_sound:
  assumes "sound_store D hs" and "\<forall>x \<in> set xs. real_paths D (fst x)"
  shows "sound_store D (admissions xs hs) \<and> (hs_authority hs = Some q \<longrightarrow> hs_authority (admissions xs hs) = Some q)"
  using assms
proof (induction xs arbitrary: hs)
  case (Cons x xs)
  obtain ask lstat where x: "x = (ask, lstat)" by (cases x)
  obtain r t where w: "with_store ask lstat hs = (r, t)" by (cases "with_store ask lstat hs") auto
  have "real_paths D ask" using Cons.prems(2) x by simp
  then show ?case using Cons.IH [of t] with_store_sound [OF Cons.prems(1) _ w] Cons.prems(2) by (auto simp: x w)
qed simp

text \<open>A file under two canonical names has more than one link.\<close>

definition link_counts :: "string set \<Rightarrow> (string \<Rightarrow> lstat_answer) \<Rightarrow> bool" where
  "link_counts D lstat \<longleftrightarrow>
    (\<forall>p q i n m. canonical_name D p \<and> canonical_name D q \<and> p \<noteq> q \<and> lstat p = LinkEntry (RegularFile i n) \<and>
      lstat q = LinkEntry (RegularFile i m) \<longrightarrow> 1 < n)"

lemma admitted_store:
  assumes "new_hardened_store resolve p opt = Inr hs" and "\<forall>x \<in> set ((ask, lstat) # xs). real_paths D (fst x)"
    and "with_store ask lstat (admissions xs hs) = (Inr s, t)"
  shows "canonical_name D (af_path s)" and "lstat (af_path s) = NoEntry \<or> (\<exists>i. lstat (af_path s) = LinkEntry (RegularFile i 1))"
proof -
  have "sound_store D (admissions xs hs)" using admissions_sound [OF fresh_sound [OF assms(1)], of xs D] assms(2) by simp
  note w = with_store_sound [OF this _ assms(3)]
  have "hs_authority t = Some (Inr (af_path s))" "sound_store D t" using w assms(2) by auto
  then show "canonical_name D (af_path s)" by (simp add: sound_store_def)
  show "lstat (af_path s) = NoEntry \<or> (\<exists>i. lstat (af_path s) = LinkEntry (RegularFile i 1))"
    using w(3) assms(2) by (auto simp: assert_safe_authority_file_def split: lstat_answer.splits dir_entry.splits if_splits)
qed

text \<open>A link, or a file of several names, is not opened: the operation has not run and the file is as before.\<close>

lemma unsafe_file_refused:
  assumes "sound_store D hs" and "real_paths D ask" and "hs_authority hs = Some (Inr a)"
    and "lstat a = LinkEntry SymbolicLink \<or> lstat a = LinkEntry OtherEntry \<or> (\<exists>i n. lstat a = LinkEntry (RegularFile i n) \<and> n \<noteq> 1)"
  shows "\<exists>e hs'. run_with_store ask lstat operation hs f = ((Inl e, None), hs') \<and> error_code_of e = Some STORAGE_CORRUPTED"
proof -
  have path: "get_authority_path ask hs = (Inr a, hs)" using assms(3) by (cases hs) (simp add: get_authority_path_def Let_def)
  obtain e where e: "assert_safe_authority_file (hs_path hs) a (lstat a) = Inl e" "error_code_of e = Some STORAGE_CORRUPTED"
    using assms(4) by (auto simp: assert_safe_authority_file_def unsafe_authority_path_def)
  show ?thesis using e by (simp add: run_with_store_def with_store_def path)
qed

end
