(* ===== verification/Model_Provider.thy ===== *)
theory Model_Provider
  imports Audit_Json
begin

text \<open>
  The model providers of \<open>src/providers/\<close>: the placeholder of an unconfigured runtime, and the client of an
  OpenAI-compatible service with the checks of its options, the request it sends, the bounded reading of
  the body and the reading of the answer.

  The network and the URL standard are outside: \<open>fetch\<close> answers through an argument, \<open>url_api\<close> is
  \<open>URL\<close>, \<open>decode\<close> what \<open>TextDecoder\<close> makes of the bytes, \<open>R\<close> the number a JSON literal denotes.
\<close>

section \<open>The placeholder\<close>

text \<open>Code units of a string: a character of four bytes has two.\<close>

definition utf16_length :: "string \<Rightarrow> nat" where
  "utf16_length s = sum_list (map (\<lambda>c. let n = (of_char c :: nat) in
    if n < 0x80 then 1 else if n < 0xC0 then 0 else if n < 0xF0 then 1 else 2) s)"

record model_prompt =
  mp_instructions :: "string option"
  mp_input :: "string option"

record model_response =
  mr_text :: string
  mr_metadata :: "(string \<times> json) list"

definition unconfigured_warning :: string where
  "unconfigured_warning = ''UnconfiguredModelProvider: no model provider is configured. '' @
    ''generate() was called but will return placeholder text. '' @
    ''Configure a real ModelProvider to enable AI-powered task execution.''"

definition text_length :: "string option \<Rightarrow> json" where
  "text_length t = JsNum (num_of_nat (case t of None \<Rightarrow> 0 | Some s \<Rightarrow> utf16_length s))"

text \<open>The warning that is logged, and the answer.\<close>

definition unconfigured_generate :: "model_prompt \<Rightarrow> string \<times> model_response" where
  "unconfigured_generate p =
    (unconfigured_warning,
     \<lparr>mr_text = ''No model provider is configured. Contributors can implement one behind the ModelProvider interface.'',
      mr_metadata = [(''warning'', JsStr ''unconfigured_provider''), (''instructionsLength'', text_length (mp_instructions p)),
        (''inputLength'', text_length (mp_input p))]\<rparr>)"

section \<open>The client\<close>

definition MAX_RESPONSE_BODY_BYTES :: nat where
  "MAX_RESPONSE_BODY_BYTES = 8 * 1024 * 1024"

text \<open>No character outside ASCII has one of the letters of these names as its lower case.\<close>

definition managed_header :: "string \<Rightarrow> bool" where
  "managed_header name \<longleftrightarrow> map lower_ascii name \<in> {''authorization'', ''content-type''}"

text \<open>Assigning a string to \<open>__proto__\<close> has no effect.\<close>

definition copy_custom_headers :: "(string \<times> string) list \<Rightarrow> (string \<times> string) list" where
  "copy_custom_headers hs = filter (\<lambda>h. \<not> managed_header (fst h) \<and> fst h \<noteq> ''__proto__'') hs"

record 'u url_api =
  url_parse :: "string \<Rightarrow> js_error + 'u"
  url_protocol :: "'u \<Rightarrow> string"
  url_href :: "'u \<Rightarrow> string"
  url_pathname :: "'u \<Rightarrow> string"
  url_with_pathname :: "'u \<Rightarrow> string \<Rightarrow> 'u"

record provider_options =
  po_api_key :: jsval
  po_base_url :: jsval
  po_model :: jsval
  po_timeout :: jsval
  po_headers :: "(string \<times> string) list option"

record provider =
  pr_api_key :: string
  pr_base_url :: string
  pr_model :: string
  pr_timeout :: "jsnum option"
  pr_headers :: "(string \<times> string) list option"

definition non_blank_string :: "jsval \<Rightarrow> bool" where
  "non_blank_string v = (case v of JStr s \<Rightarrow> \<not> blank s | _ \<Rightarrow> False)"

fun str_value :: "jsval \<Rightarrow> string" where
  "str_value (JStr s) = s"
| "str_value _ = []"

definition strip_slashes :: "string \<Rightarrow> string" where
  "strip_slashes s = rev (dropWhile (\<lambda>c. c = CHR ''/'') (rev s))"

definition before_query :: "string \<Rightarrow> string" where
  "before_query s = takeWhile (\<lambda>c. c \<noteq> CHR ''?'') s"

definition from_query :: "string \<Rightarrow> string" where
  "from_query s = dropWhile (\<lambda>c. c \<noteq> CHR ''?'') s"

definition raw_base_url :: "jsval \<Rightarrow> jsval" where
  "raw_base_url v = (if v = JUndefined \<or> v = JNull then JStr ''https://api.openai.com/v1'' else v)"

definition valid_timeout :: "jsval \<Rightarrow> bool" where
  "valid_timeout v = (case v of
     JUndefined \<Rightarrow> True
   | JNum n \<Rightarrow> num_is_integer n \<and> 0 \<le> num_int n \<and> num_int n \<le> MAX_TIMER_DELAY_MS
   | _ \<Rightarrow> False)"

definition check_base_url :: "'u url_api \<Rightarrow> jsval \<Rightarrow> string res" where
  "check_base_url U v =
    (if \<not> non_blank_string v then Inl (PlainErr ''OpenAI-compatible provider requires a valid baseUrl.'')
     else
       (let base = js_trim (str_value v) in
        case url_parse U base of
          Inl _ \<Rightarrow> Inl (PlainErr
            (''Invalid baseUrl provided to OpenAICompatibleModelProvider: '' @ [CHR 0x22] @ str_value v @ [CHR 0x22] @ ''.''))
        | Inr u \<Rightarrow>
            if url_protocol U u \<noteq> ''http:'' \<and> url_protocol U u \<noteq> ''https:''
            then Inl (PlainErr ''OpenAI-compatible provider baseUrl must use http or https.'')
            else if CHR ''#'' \<in> set (url_href U u)
            then Inl (PlainErr ''OpenAI-compatible provider baseUrl must not include a fragment.'')
            else Inr base))"

definition new_provider :: "'u url_api \<Rightarrow> provider_options \<Rightarrow> provider res" where
  "new_provider U opt =
    (if \<not> non_blank_string (po_api_key opt)
     then Inl (PlainErr ''OpenAI-compatible provider requires a non-empty apiKey.'')
     else and_then (check_base_url U (raw_base_url (po_base_url opt))) (\<lambda>base.
       if po_model opt \<noteq> JUndefined \<and> \<not> non_blank_string (po_model opt)
       then Inl (PlainErr ''OpenAI-compatible provider model must be a non-empty string.'')
       else if \<not> valid_timeout (po_timeout opt)
       then Inl (PlainErr (''OpenAI-compatible provider timeoutMs must be an integer between 0 and '' @
         nat_str (nat MAX_TIMER_DELAY_MS) @ ''.''))
       else Inr \<lparr>pr_api_key = js_trim (str_value (po_api_key opt)),
         pr_base_url = strip_slashes (before_query base) @ from_query base,
         pr_model = (if po_model opt = JUndefined then ''gpt-4o-mini'' else js_trim (str_value (po_model opt))),
         pr_timeout = (case po_timeout opt of JNum n \<Rightarrow> Some n | _ \<Rightarrow> None),
         pr_headers = map_option copy_custom_headers (po_headers opt)\<rparr>))"

section \<open>The request\<close>

record request =
  rq_url :: string
  rq_headers :: "(string \<times> string) list"
  rq_body :: string
  rq_timeout :: "jsnum option"

definition message_json :: "string \<Rightarrow> string option \<Rightarrow> string" where
  "message_json role content =
    object_text (field_text ''role'' (json_string role) #
      (case content of None \<Rightarrow> [] | Some s \<Rightarrow> [field_text ''content'' (json_string s)]))"

definition provider_request :: "'u url_api \<Rightarrow> provider \<Rightarrow> model_prompt \<Rightarrow> request res" where
  "provider_request U p prompt =
    and_then (url_parse U (pr_base_url p)) (\<lambda>u.
    Inr \<lparr>rq_url = url_href U (url_with_pathname U u (strip_slashes (url_pathname U u) @ ''/chat/completions'')),
      rq_headers = (case pr_headers p of None \<Rightarrow> [] | Some hs \<Rightarrow> hs) @
        [(''Content-Type'', ''application/json''), (''Authorization'', ''Bearer '' @ pr_api_key p)],
      rq_body = object_text [field_text ''model'' (json_string (pr_model p)),
        field_text ''messages'' (array_text [message_json ''system'' (mp_instructions prompt), message_json ''user'' (mp_input prompt)])],
      rq_timeout = pr_timeout p\<rparr>)"

section \<open>The answer\<close>

datatype body_read = Chunk string | NoChunk | ReadDone | ReadFails

record response =
  rs_ok :: bool
  rs_status :: nat
  rs_body :: "body_read list option"

datatype read_failure = BodyTooLarge | BodyUnreadable

text \<open>\<open>None\<close>: the answers so far do not end the reading.\<close>

fun read_chunks :: "nat \<Rightarrow> string \<Rightarrow> body_read list \<Rightarrow> (read_failure + string) option" where
  "read_chunks n bytes [] = None"
| "read_chunks n bytes (ReadDone # rs) = Some (Inr bytes)"
| "read_chunks n bytes (ReadFails # rs) = Some (Inl BodyUnreadable)"
| "read_chunks n bytes (NoChunk # rs) = read_chunks n bytes rs"
| "read_chunks n bytes (Chunk b # rs) =
    (if MAX_RESPONSE_BODY_BYTES < n + length b then Some (Inl BodyTooLarge)
     else read_chunks (n + length b) (bytes @ b) rs)"

definition read_bounded_response_text :: "(string \<Rightarrow> string) \<Rightarrow> response \<Rightarrow> (read_failure + string) option" where
  "read_bounded_response_text decode r =
    (case rs_body r of
       None \<Rightarrow> Some (Inr [])
     | Some answers \<Rightarrow> map_option (map_sum id decode) (read_chunks 0 [] answers))"

definition http :: "nat \<Rightarrow> string" where
  "http status = ''HTTP '' @ nat_str status"

definition malformed :: "nat \<Rightarrow> string \<Rightarrow> js_error" where
  "malformed status expected = PlainErr (''OpenAI-compatible provider returned malformed response ('' @ http status @
    ''): expected '' @ expected @ ''.'')"

definition optional_field :: "string \<Rightarrow> string \<Rightarrow> json \<Rightarrow> (string \<times> json) list" where
  "optional_field name k t = (case json_field t k of None \<Rightarrow> [] | Some v \<Rightarrow> [(name, v)])"

definition response_model :: "provider \<Rightarrow> json \<Rightarrow> json" where
  "response_model p data = (case json_field data ''model'' of
     None \<Rightarrow> JsStr (pr_model p) | Some JsNull \<Rightarrow> JsStr (pr_model p) | Some v \<Rightarrow> v)"

definition first_choice :: "json \<Rightarrow> json option" where
  "first_choice data = (case json_field data ''choices'' of Some (JsArr (c # _)) \<Rightarrow> Some c | _ \<Rightarrow> None)"

definition message_content :: "json \<Rightarrow> string option" where
  "message_content choice = (case json_field choice ''message'' of
     Some m \<Rightarrow> (case json_field m ''content'' of Some (JsStr s) \<Rightarrow> Some s | _ \<Rightarrow> None)
   | None \<Rightarrow> None)"

definition parse_answer :: "(string \<Rightarrow> jsnum) \<Rightarrow> provider \<Rightarrow> nat \<Rightarrow> string \<Rightarrow> model_response res" where
  "parse_answer R p status s =
    (case json_parse R s of
       None \<Rightarrow> Inl (PlainErr (''OpenAI-compatible provider returned invalid JSON ('' @ http status @ '').''))
     | Some data \<Rightarrow>
         (case first_choice data of
            None \<Rightarrow> Inl (malformed status ''a non-empty choices array'')
          | Some choice \<Rightarrow>
              (case message_content choice of
                 None \<Rightarrow> Inl (malformed status ''choices[0].message.content to be a string'')
               | Some content \<Rightarrow>
                   Inr \<lparr>mr_text = content, mr_metadata = (''model'', response_model p data) #
                     optional_field ''finishReason'' ''finish_reason'' choice @ optional_field ''usage'' ''usage'' data\<rparr>)))"

definition read_error :: "nat \<Rightarrow> read_failure \<Rightarrow> js_error" where
  "read_error status e = PlainErr (case e of
     BodyTooLarge \<Rightarrow> ''OpenAI-compatible provider response body exceeded '' @ nat_str MAX_RESPONSE_BODY_BYTES @
       '' bytes ('' @ http status @ '').''
   | BodyUnreadable \<Rightarrow> ''OpenAI-compatible provider could not read '' @ http status @ '' response body.'')"

text \<open>\<open>generate\<close>: \<open>fetch\<close> answers the request, or fails.\<close>

definition provider_generate ::
  "'u url_api \<Rightarrow> (string \<Rightarrow> string) \<Rightarrow> (string \<Rightarrow> jsnum) \<Rightarrow> (request \<Rightarrow> response option) \<Rightarrow> provider \<Rightarrow> model_prompt \<Rightarrow>
    model_response res option" where
  "provider_generate U decode R fetch p prompt =
    (case provider_request U p prompt of
       Inl e \<Rightarrow> Some (Inl e)
     | Inr q \<Rightarrow>
         (case fetch q of
            None \<Rightarrow> Some (Inl (PlainErr ''OpenAI-compatible provider request failed.''))
          | Some r \<Rightarrow>
              if \<not> rs_ok r
              then Some (Inl (PlainErr (''OpenAI-compatible provider returned '' @ http (rs_status r) @ ''.'')))
              else
                (case read_bounded_response_text decode r of
                   None \<Rightarrow> None
                 | Some (Inl e) \<Rightarrow> Some (Inl (read_error (rs_status r) e))
                 | Some (Inr s) \<Rightarrow> Some (parse_answer R p (rs_status r) s))))"

section \<open>What crosses the boundary\<close>

lemma managed_names: "map lower_ascii ''Authorization'' = ''authorization''"
  "map lower_ascii ''Content-Type'' = ''content-type''"
  by code_simp+

lemma request_authorization:
  assumes "new_provider U opt = Inr p" and "provider_request U p prompt = Inr q"
  shows "filter (\<lambda>h. map lower_ascii (fst h) = ''authorization'') (rq_headers q) =
    [(''Authorization'', ''Bearer '' @ pr_api_key p)]"
proof -
  have "pr_headers p = map_option copy_custom_headers (po_headers opt)"
    using assms(1) by (auto simp: new_provider_def and_then_Inr split: if_splits)
  then have "\<forall>h \<in> set (case pr_headers p of None \<Rightarrow> [] | Some hs \<Rightarrow> hs). \<not> managed_header (fst h)"
    by (auto simp: copy_custom_headers_def split: option.splits)
  then have "filter (\<lambda>h. map lower_ascii (fst h) = ''authorization'') (case pr_headers p of None \<Rightarrow> [] | Some hs \<Rightarrow> hs) = []"
    by (auto simp: filter_empty_conv managed_header_def)
  moreover have "filter (\<lambda>h. map lower_ascii (fst h) = ''authorization'')
      [(''Content-Type'', x), (''Authorization'', y)] = [(''Authorization'', y)]" for x y :: string
    unfolding filter.simps fst_conv managed_names by simp
  moreover have "rq_headers q = (case pr_headers p of None \<Rightarrow> [] | Some hs \<Rightarrow> hs) @
      [(''Content-Type'', ''application/json''), (''Authorization'', ''Bearer '' @ pr_api_key p)]"
    using assms(2) by (auto simp: provider_request_def and_then_Inr)
  ultimately show ?thesis unfolding filter_append by simp
qed

text \<open>The errors of an answered request, by its status alone.\<close>

definition status_errors :: "nat \<Rightarrow> js_error set" where
  "status_errors n = {PlainErr (''OpenAI-compatible provider returned '' @ http n @ ''.''), read_error n BodyTooLarge,
    read_error n BodyUnreadable, PlainErr (''OpenAI-compatible provider returned invalid JSON ('' @ http n @ '').''),
    malformed n ''a non-empty choices array'', malformed n ''choices[0].message.content to be a string''}"

lemma parse_errors: "parse_answer R p n s = Inl e \<Longrightarrow> e \<in> status_errors n"
  by (auto simp: parse_answer_def status_errors_def split: option.splits)

lemma answered_errors:
  assumes "provider_request U p prompt = Inr q" and "fetch q = Some r" and "provider_generate U decode R fetch p prompt = Some (Inl e)"
  shows "e \<in> status_errors (rs_status r)"
proof (cases "rs_ok r")
  case False
  then show ?thesis using assms by (simp add: provider_generate_def status_errors_def)
next
  case True
  then consider x where "e = read_error (rs_status r) x" | s where "parse_answer R p (rs_status r) s = Inl e"
    using assms by (auto simp: provider_generate_def split: option.splits sum.splits)
  then show ?thesis
  proof cases
    case (1 x)
    then show ?thesis by (cases x) (simp_all add: status_errors_def)
  qed (rule parse_errors)
qed

lemma read_chunks_bounded:
  "read_chunks n bytes rs = Some (Inr b) \<Longrightarrow> n = length bytes \<Longrightarrow> n \<le> MAX_RESPONSE_BODY_BYTES \<Longrightarrow>
    length b \<le> MAX_RESPONSE_BODY_BYTES \<and> b = bytes @ concat (map (\<lambda>r. case r of Chunk c \<Rightarrow> c | _ \<Rightarrow> []) (takeWhile (\<lambda>r. r \<noteq> ReadDone) rs))"
  by (induction n bytes rs rule: read_chunks.induct) (auto split: if_splits)

lemma accepted_body:
  assumes "read_bounded_response_text decode r = Some (Inr s)"
  shows "rs_body r = None \<and> s = [] \<or> (\<exists>answers b. rs_body r = Some answers \<and> s = decode b \<and> length b \<le> MAX_RESPONSE_BODY_BYTES \<and>
    b = concat (map (\<lambda>r. case r of Chunk c \<Rightarrow> c | _ \<Rightarrow> []) (takeWhile (\<lambda>r. r \<noteq> ReadDone) answers)))"
proof (cases "rs_body r")
  case (Some answers)
  then obtain z where z: "read_chunks 0 [] answers = Some z" "map_sum id decode z = Inr s"
    using assms by (auto simp: read_bounded_response_text_def)
  then obtain b where b: "read_chunks 0 [] answers = Some (Inr b)" "s = decode b" by (cases z) auto
  then show ?thesis using read_chunks_bounded [OF b(1)] Some by auto
qed (use assms in \<open>simp add: read_bounded_response_text_def\<close>)

text \<open>The reading ends with a finite answer, and stops at the first chunk that is too much.\<close>

lemma reading_ends:
  "ReadDone \<in> set rs \<or> ReadFails \<in> set rs \<Longrightarrow> read_chunks n bytes rs \<noteq> None"
  by (induction n bytes rs rule: read_chunks.induct) auto

end
