(* ===== verification/Boundary_Examples.thy ===== *)
theory Boundary_Examples
  imports Runtime_Logger Hardened_Store Model_Provider
begin

text \<open>Concrete inputs of the components at the edge: the logger, the hardened store and the model client.\<close>

section \<open>Metadata with a key\<close>

definition demo_metadata :: "string \<Rightarrow> heap" where
  "demo_metadata key = [(0, plain_object\<lparr>ob_props := [(KStr ''apiKey'', Data True (JStr key)),
    (KStr ''self'', Data True (JRef 0))]\<rparr>)]"

lemma demo_redacted_keys: "DEFAULT_REDACT_KEYS ''apiKey''" "DEFAULT_REDACT_KEYS ''X-API_KEY''" "\<not> DEFAULT_REDACT_KEYS ''self''"
  by code_simp+

lemma demo_metadata_get:
  "heap_get (demo_metadata key) l = (if l = 0 then plain_object\<lparr>ob_props := [(KStr ''apiKey'', Data True (JStr key)),
    (KStr ''self'', Data True (JRef 0))]\<rparr> else plain_object)"
  by (simp add: heap_get_def demo_metadata_def)

lemma demo_same: "same_but_secrets DEFAULT_REDACT_KEYS (P, demo_metadata ''k1'') (P, demo_metadata ''k2'')"
  by (simp add: same_but_secrets_def inspect_def Let_def demo_metadata_get visible_def veil_def string_props_def
      map_filter_simps demo_redacted_keys plain_object_def)

definition demo_console :: console_logger where
  "demo_console = \<lparr>cl_level = LInfo, cl_hidden = DEFAULT_REDACT_KEYS\<rparr>"

lemma demo_line_logged: "console_emit demo_console P (demo_metadata key) LWarn ''m'' (JRef 0) =
  Some (LWarn, ''m'', RObj [(''apiKey'', REDACTED), (''self'', CIRCULAR_METADATA_SENTINEL)])"
proof -
  have "inspect P (demo_metadata key) 0 = Some (plain_object\<lparr>ob_props := [(KStr ''apiKey'', Data True (JStr key)),
      (KStr ''self'', Data True (JRef 0))]\<rparr>)"
    by (simp add: inspect_def Let_def demo_metadata_get plain_object_def)
  then show ?thesis
    by (simp add: console_emit_def demo_console_def should_log_def prepare_metadata_def as_record_def
        redact_value.simps [of _ _ _ "[]"] redact_value.simps [of _ _ _ "[0]"] redact_descriptor.simps demo_redacted_keys
        enumerable_props_def string_props_def map_filter_simps plain_object_def)
qed

definition demo_logger :: memory_logger where
  "demo_logger = \<lparr>ml_entries = [], ml_max = 2, ml_level = LInfo, ml_hidden = DEFAULT_REDACT_KEYS\<rparr>"

lemma demo_new_logger: "new_memory_logger (Some (Fin 2 0)) (JStr ''info'') None = Inr demo_logger"
  by (simp add: new_memory_logger_def demo_logger_def resolve_log_level_def level_named_def Let_def)

section \<open>Two names of one directory\<close>

definition demo_opt :: hardened_options where
  "demo_opt = \<lparr>ho_runtime = ''r'', ho_timeout = None, ho_delay = None\<rparr>"

definition demo_ask :: "string \<Rightarrow> parent_answer" where
  "demo_ask d = \<lparr>pa_mkdir = Inr (), pa_real = Inr ''/data''\<rparr>"

definition demo_lstat :: "string \<Rightarrow> lstat_answer" where
  "demo_lstat p = (if p = ''/data/a'' then LinkEntry (RegularFile 7 1) else NoEntry)"

definition demo_hardened :: "string \<Rightarrow> hardened_store" where
  "demo_hardened p = \<lparr>hs_path = p, hs_resolved = p, hs_options = demo_opt, hs_authority = None, hs_store = None\<rparr>"

lemma demo_names: "\<not> blank ''/data/a''" "\<not> blank ''/link/a''" "\<not> blank ''r''"
  by (simp_all add: blank_def js_trim_def strip_ws.simps ws_seqs_def)

lemma demo_new_file: "\<not> blank p \<Longrightarrow> new_approval_file p ''r'' None None = Inr \<lparr>af_path = p, af_runtime = ''r''\<rparr>"
proof -
  have "integer_within 0 MAX_TIMER_DELAY_MS (Fin 5 3)" "integer_within 1 MAX_TIMER_DELAY_MS (Fin 1 1)" by code_simp+
  then show "\<not> blank p \<Longrightarrow> ?thesis"
    by (simp add: new_approval_file_def require_non_empty_def timer_option_def demo_names)
qed

lemma demo_new_hardened: "\<not> blank p \<Longrightarrow> new_hardened_store (\<lambda>p. p) p demo_opt = Inr (demo_hardened p)"
  by (simp add: new_hardened_store_def demo_opt_def demo_new_file demo_hardened_def)

lemma demo_paths: "canonical_authority_path ''/data/a'' demo_ask = Inr ''/data/a''"
  "canonical_authority_path ''/link/a'' demo_ask = Inr ''/data/a''"
  by (simp_all add: canonical_authority_path_def demo_ask_def join_path_def base_name_def)

lemma demo_admitted:
  "fst (with_store demo_ask demo_lstat (demo_hardened ''/data/a'')) = Inr \<lparr>af_path = ''/data/a'', af_runtime = ''r''\<rparr>"
  "fst (with_store demo_ask demo_lstat (demo_hardened ''/link/a'')) = Inr \<lparr>af_path = ''/data/a'', af_runtime = ''r''\<rparr>"
  using demo_new_file [OF demo_names(1)]
  by (simp_all add: with_store_def get_authority_path_def demo_hardened_def demo_paths Let_def demo_lstat_def
      assert_safe_authority_file_def get_store_def demo_opt_def)

lemma demo_links: "link_counts {''/data''} demo_lstat"
  by (simp add: link_counts_def demo_lstat_def)

lemma demo_real: "real_paths {''/data''} demo_ask"
  by (simp add: real_paths_def demo_ask_def)

section \<open>A service that answers nonsense\<close>

definition demo_url :: "string url_api" where
  "demo_url = \<lparr>url_parse = Inr, url_protocol = (\<lambda>_. ''https:''), url_href = (\<lambda>u. u), url_pathname = (\<lambda>_. ''/v1''),
    url_with_pathname = (\<lambda>u p. ''https://h'' @ p)\<rparr>"

definition demo_provider_options :: provider_options where
  "demo_provider_options = \<lparr>po_api_key = JStr ''k'', po_base_url = JStr ''https://h/v1/'', po_model = JUndefined,
    po_timeout = JUndefined, po_headers = Some [(''AUTHORIZATION'', ''x''), (''X-A'', ''y'')]\<rparr>"

definition demo_provider :: provider where
  "demo_provider = \<lparr>pr_api_key = ''k'', pr_base_url = ''https://h/v1'', pr_model = ''gpt-4o-mini'', pr_timeout = None,
    pr_headers = Some [(''X-A'', ''y'')]\<rparr>"

lemma demo_new_provider: "new_provider demo_url demo_provider_options = Inr demo_provider"
proof -
  have names: "managed_header ''AUTHORIZATION''" "\<not> managed_header ''X-A''" by code_simp+
  have trim: "js_trim ''k'' = ''k''" "js_trim ''https://h/v1/'' = ''https://h/v1/''"
    by (simp_all add: js_trim_def strip_ws.simps ws_seqs_def)
  show ?thesis
    by (simp add: new_provider_def demo_provider_options_def demo_provider_def demo_url_def non_blank_string_def blank_def trim
        check_base_url_def raw_base_url_def valid_timeout_def copy_custom_headers_def names strip_slashes_def before_query_def
        from_query_def)
qed

definition demo_http_request :: request where
  "demo_http_request = \<lparr>rq_url = ''https://h/v1/chat/completions'',
    rq_headers = [(''X-A'', ''y''), (''Content-Type'', ''application/json''), (''Authorization'', ''Bearer k'')],
    rq_body = object_text [field_text ''model'' (json_string ''gpt-4o-mini''),
      field_text ''messages'' (array_text [message_json ''system'' None, message_json ''user'' (Some ''hi'')])],
    rq_timeout = None\<rparr>"

definition demo_prompt :: model_prompt where
  "demo_prompt = \<lparr>mp_instructions = None, mp_input = Some ''hi''\<rparr>"

lemma demo_request_made: "provider_request demo_url demo_provider demo_prompt = Inr demo_http_request"
  by (simp add: provider_request_def demo_url_def demo_provider_def demo_http_request_def demo_prompt_def strip_slashes_def)

definition demo_response :: response where
  "demo_response = \<lparr>rs_ok = True, rs_status = 200, rs_body = Some [Chunk ''{'', NoChunk, Chunk ''k'', ReadDone]\<rparr>"

lemma demo_generated:
  "provider_generate demo_url (\<lambda>b. b) R (\<lambda>_. Some demo_response) demo_provider demo_prompt =
    Some (Inl (PlainErr (''OpenAI-compatible provider returned invalid JSON ('' @ http 200 @ '').'')))"
proof -
  have "json_parse R ''{k'' = None" by (simp add: json_parse_def skip_ws_def json_ws_def eval_nat_numeral)
  moreover have "2 \<le> MAX_RESPONSE_BODY_BYTES" by (simp add: MAX_RESPONSE_BODY_BYTES_def)
  ultimately show ?thesis
    by (simp add: provider_generate_def demo_request_made demo_response_def read_bounded_response_text_def parse_answer_def)
qed

end
