(* ===== verification/Bootstrap.thy ===== *)
theory Bootstrap
  imports Agent_Runtime Memory_File Claim_Store Event_Bus Runtime_Logger
begin

text \<open>
  The wiring of a runtime (\<open>src/runtime/bootstrap.ts\<close>): which component each option selects, in the order
  in which the options are checked. A component that the application supplies is opaque.
\<close>

section \<open>Options\<close>

datatype given = Omitted | Supplied

record runtime_options =
  rt_id :: jsval
  rt_max_agents :: "jsnum option"
  rt_max_calls :: "jsnum option"
  rt_max_tracked :: "jsnum option"
  rt_max_duration :: "jsnum option"
  rt_memory :: given
  rt_memory_path :: jsval
  rt_claims :: given
  rt_claims_path :: jsval
  rt_provider :: given
  rt_logger :: given
  rt_state :: given
  rt_bus :: given
  rt_tools :: "tool_def list option"

datatype 'o memory_choice = SuppliedMemory | FileMemory file_memory_config | HeapMemory "'o memory_store"

text \<open>A file-backed claim store has its path, and its time-out and delay.\<close>

datatype claims_choice = SuppliedClaims | FileClaims string nat nat | HeapClaims

datatype logger_choice = SuppliedLogger | ConsoleLogger console_logger

datatype 'v state_choice = SuppliedState | HeapState "'v state_store"

datatype bus_choice = SuppliedBus | OwnBus event_bus

datatype provider_choice = SuppliedProvider | UnconfiguredProvider

record ('o, 'v) dependencies =
  de_executor :: executor
  de_agents :: agent_manager
  de_bus :: bus_choice
  de_logger :: logger_choice
  de_memory :: "'o memory_choice"
  de_provider :: provider_choice
  de_state :: "'v state_choice"
  de_claims :: claims_choice
  de_runner :: runner
  de_tools :: tool_registry

section \<open>Wiring\<close>

definition text_value :: "jsval \<Rightarrow> string option" where
  "text_value v = (case v of JStr s \<Rightarrow> if blank s then None else Some s | _ \<Rightarrow> None)"

text \<open>A path is checked only when no store is supplied.\<close>

definition check_path :: "given \<Rightarrow> jsval \<Rightarrow> string \<Rightarrow> unit res" where
  "check_path supplied v name =
    (if supplied = Omitted \<and> v \<noteq> JUndefined \<and> text_value v = None
     then Inl (TypeErr (name @ '' must be a non-empty string.'')) else Inr ())"

fun register_all :: "tool_registry \<Rightarrow> tool_def list \<Rightarrow> tool_registry res" where
  "register_all reg [] = Inr reg"
| "register_all reg (t # ts) = and_then (register reg t) (\<lambda>reg. register_all reg ts)"

definition choose_memory :: "runtime_options \<Rightarrow> 'o memory_choice res" where
  "choose_memory o' =
    (if rt_memory o' = Supplied then Inr SuppliedMemory
     else
       (case text_value (rt_memory_path o') of
          Some p \<Rightarrow> and_then (new_file_memory p None None None None) (\<lambda>m. Inr (FileMemory m))
        | None \<Rightarrow> and_then (new_memory_store None None) (\<lambda>m. Inr (HeapMemory m))))"

definition file_claims_at :: "string \<Rightarrow> claims_choice res" where
  "file_claims_at p = and_then (new_file_claims p None None) (\<lambda>(timeout, retry). Inr (FileClaims p timeout retry))"

definition choose_claims :: "runtime_options \<Rightarrow> claims_choice res" where
  "choose_claims o' =
    (if rt_claims o' = Supplied then Inr SuppliedClaims
     else
       (case text_value (rt_claims_path o') of
          Some p \<Rightarrow> file_claims_at p
        | None \<Rightarrow>
            if rt_memory o' = Omitted
            then (case text_value (rt_memory_path o') of
                Some p \<Rightarrow> file_claims_at (p @ ''.task-claims.json'')
              | None \<Rightarrow> Inr HeapClaims)
            else Inr HeapClaims))"

definition choose_logger :: "runtime_options \<Rightarrow> logger_choice res" where
  "choose_logger o' =
    (if rt_logger o' = Supplied then Inr SuppliedLogger
     else and_then (new_console_logger JUndefined None) (\<lambda>c. Inr (ConsoleLogger c)))"

definition choose_state :: "runtime_options \<Rightarrow> 'v state_choice res" where
  "choose_state o' =
    (if rt_state o' = Supplied then Inr SuppliedState
     else and_then (new_state_store None) (\<lambda>s. Inr (HeapState s)))"

definition choose_bus :: "runtime_options \<Rightarrow> bus_choice res" where
  "choose_bus o' =
    (if rt_bus o' = Supplied then Inr SuppliedBus else and_then (new_event_bus NoOptions) (\<lambda>b. Inr (OwnBus b)))"

definition make_executor :: "runtime_options \<Rightarrow> executor res" where
  "make_executor o' =
    new_executor (case rt_max_calls o' of None \<Rightarrow> AAbsent | Some n \<Rightarrow> ANumber n) ALogger (rt_max_tracked o')"

definition create_runtime_dependencies :: "runtime_options \<Rightarrow> ('o, 'v) dependencies res" where
  "create_runtime_dependencies o' =
    (if text_value (rt_id o') = None then Inl (TypeErr ''runtimeId must be a non-empty string.'')
     else
       and_then (check_path (rt_memory o') (rt_memory_path o') ''memoryStoragePath'') (\<lambda>_.
       and_then (check_path (rt_claims o') (rt_claims_path o') ''taskClaimStoragePath'') (\<lambda>_.
       and_then (register_all [] (case rt_tools o' of None \<Rightarrow> [] | Some ts \<Rightarrow> ts)) (\<lambda>tools.
       and_then (choose_memory o') (\<lambda>memory.
       and_then (choose_claims o') (\<lambda>claims.
       and_then (choose_logger o') (\<lambda>logger.
       and_then (choose_state o') (\<lambda>state.
       and_then (choose_bus o') (\<lambda>bus.
       and_then (new_agent_manager (rt_max_agents o')) (\<lambda>agents.
       and_then (make_executor o') (\<lambda>ex.
       and_then (new_runner (rt_max_duration o')) (\<lambda>runner.
       Inr \<lparr>de_executor = ex, de_agents = agents, de_bus = bus, de_logger = logger, de_memory = memory,
         de_provider = (if rt_provider o' = Supplied then SuppliedProvider else UnconfiguredProvider),
         de_state = state, de_claims = claims, de_runner = runner, de_tools = tools\<rparr>))))))))))))"

text \<open>The constructor of \<open>AgentRuntime\<close>.\<close>

definition construct_runtime :: "runtime_options \<Rightarrow> (('o, 'v) dependencies \<times> agent_runtime) res" where
  "construct_runtime o' =
    and_then (create_runtime_dependencies o') (\<lambda>d.
    Inr (d, new_agent_runtime (case rt_id o' of JStr s \<Rightarrow> s | _ \<Rightarrow> []) (de_agents d) (de_executor d)))"
section \<open>What the wiring promises\<close>

lemma create_parts:
  assumes "create_runtime_dependencies o' = Inr d"
  shows "text_value (rt_id o') \<noteq> None" "check_path (rt_memory o') (rt_memory_path o') ''memoryStoragePath'' = Inr ()"
    "check_path (rt_claims o') (rt_claims_path o') ''taskClaimStoragePath'' = Inr ()"
    "register_all [] (case rt_tools o' of None \<Rightarrow> [] | Some ts \<Rightarrow> ts) = Inr (de_tools d)"
    "choose_memory o' = Inr (de_memory d)" "choose_claims o' = Inr (de_claims d)"
    "new_agent_manager (rt_max_agents o') = Inr (de_agents d)" "make_executor o' = Inr (de_executor d)"
    "new_runner (rt_max_duration o') = Inr (de_runner d)"
  using assms by (auto simp: create_runtime_dependencies_def and_then_Inr split: if_splits)

lemma file_claims_path: "file_claims_at p = Inr c \<Longrightarrow> \<exists>t r. c = FileClaims p t r"
  by (auto simp: file_claims_at_def and_then_Inr split: prod.splits)

lemma new_file_memory_path: "new_file_memory p a b c e = Inr m \<Longrightarrow> fm_path m = p"
  by (auto simp: new_file_memory_def and_then_Inr Let_def split: if_splits)

text \<open>Task claims last as long as the memory: a file-backed memory comes with file-backed claims.\<close>

lemma claims_as_durable_as_memory:
  fixes d :: "('o, 'v) dependencies"
  assumes "create_runtime_dependencies o' = Inr d" and "de_memory d = FileMemory m" and "rt_claims o' = Omitted"
  shows "\<exists>p t r. de_claims d = FileClaims p t r \<and>
    p = (case text_value (rt_claims_path o') of Some q \<Rightarrow> q | None \<Rightarrow> fm_path m @ ''.task-claims.json'')"
proof -
  have mem: "choose_memory o' = Inr (FileMemory m :: 'o memory_choice)" using create_parts(5) [OF assms(1)] assms(2) by simp
  then have omitted: "rt_memory o' = Omitted" by (cases "rt_memory o'") (simp_all add: choose_memory_def)
  obtain q where q: "text_value (rt_memory_path o') = Some q" "fm_path m = q"
    using mem omitted by (auto simp: choose_memory_def and_then_Inr split: option.splits dest: new_file_memory_path)
  show ?thesis
    using create_parts(6) [OF assms(1)] assms(3) omitted q
    by (auto simp: choose_claims_def split: option.splits dest: file_claims_path)
qed

lemma register_all_wf: "wf_registry reg \<Longrightarrow> register_all reg ts = Inr reg' \<Longrightarrow> wf_registry reg'"
  by (induction ts arbitrary: reg) (auto simp: and_then_Inr dest: wf_registry_register)

lemma created_registry: "create_runtime_dependencies o' = Inr d \<Longrightarrow> wf_registry (de_tools d)"
  using create_parts(4) register_all_wf [OF wf_registry_Nil] by blast

lemma constructed_idle:
  "construct_runtime o' = Inr (d, r) \<Longrightarrow> \<not> ag_started r \<and> \<not> ag_stopped r \<and> ag_tasks r = [] \<and> ag_executor r = de_executor d"
  by (auto simp: construct_runtime_def new_agent_runtime_def and_then_Inr)

text \<open>Every option is checked before a component is made of it: the errors, in the order of the checks.\<close>

lemma refused_options:
  assumes "text_value (rt_id o') \<noteq> None" and "rt_claims o' = Omitted" "rt_claims_path o' \<noteq> JUndefined" "text_value (rt_claims_path o') = None"
    and "check_path (rt_memory o') (rt_memory_path o') ''memoryStoragePath'' = Inr ()"
  shows "create_runtime_dependencies o' = Inl (TypeErr ''taskClaimStoragePath must be a non-empty string.'')"
  using assms by (auto simp: create_runtime_dependencies_def check_path_def)

end
