(* ===== verification/Spec2Isabelle.thy ===== *)
theory Spec2Isabelle
  imports Keyed_Stores Memory_Store Memory_File Task_Safety Payment_Examples Event_Bus Agent_Runtime Audit_Examples Boundary_Examples Bootstrap
begin

text \<open>
  AgentLily runtime: verification development.

  The runtime executes tools on behalf of tasks. A task names a tool, an agent and a payload; the
  runtime claims the task so that it runs once, asks a policy whether the tool may run with that
  payload, runs the tool under a timeout, and records the outcome. This development models those parts
  of \<open>src/src/\<close> and proves what they promise to each other.

  Parts and how they interact

  \<^item> \<open>TaskRunner\<close> (\<open>tasks/task-runner.ts\<close>) claims the task in a claim store, runs the executor, appends
    the result to the memory store and releases the claim. \<open>Task_Runner\<close> cuts \<open>run\<close> at its awaits, one
    definition per piece; \<open>Task_Safety\<close> is the step relation of any number of calls, runners and
    processes over one claim store, with its invariant.
  \<^item> \<open>ActionExecutor\<close> (\<open>actions/action-executor.ts\<close>, theory \<open>Action_Executor\<close>) looks up the tool, asks
    the policy, counts the call and runs the tool. The call context is writable, so it is a part of the
    world and each piece reads it anew.
  \<^item> The policies (\<open>policies/tool-policy.ts\<close>, \<open>tool-approval-policy.ts\<close>,
    \<open>hardened-tool-approval-policy.ts\<close>; theory \<open>Tool_Policies\<close>) answer the executor. A human approval
    is a record in a store, in memory or in a file (theory \<open>Approval_Store\<close>), bound to the digest of
    the payload (theory \<open>Payload_Digest\<close>).
  \<^item> Payments: the preparation tool (\<open>actions/payment-prep-action.ts\<close>, theory \<open>Payment_Prep\<close>; facts on
    its amounts in \<open>Stellar_Amount\<close>, on account identities in \<open>Stellar_Account\<close>, double arithmetic in
    \<open>Js_Double\<close>) and the policy that judges and binds a payment payload
    (\<open>policies/payment-intent-policy.ts\<close>, theory \<open>Payment_Policy\<close>; concrete inputs in
    \<open>Payment_Examples\<close>).
  \<^item> The stores: claims (\<open>tasks/task-claim-store.ts\<close>, theory \<open>Claim_Store\<close>), memory entries
    (\<open>memory/memory-store.ts\<close>, theories \<open>Memory_Store\<close> and \<open>Memory_File\<close>), agents, state and tools
    (\<open>agents/\<close>, \<open>state/\<close>, \<open>tools/\<close>, theory \<open>Keyed_Stores\<close>). What every file-backed store does around
    its operation is \<open>Json_File\<close> (reading a document) and \<open>File_Lock\<close> (the lock directory beside the
    file, the processes that compete for it, crashes).
  \<^item> \<open>Js_Values\<close>, \<open>Js_Heap\<close> and \<open>Instant\<close> are the language and its standard library as far as the code
    uses them: strings, numbers and their printing, objects with property descriptors, ISO instants.
    \<open>Runtime_Guards\<close> is \<open>guards/runtime-guards.ts\<close>, \<open>Runtime_Prelude\<close> the shared vocabulary, and
    \<open>Capped_Map\<close> the contract of the maps that evict their oldest key.

  Correspondence

  A class is a record of its fields, a method a function from the arguments and the record to a result
  and the record after it; a thrown error or rejected promise is \<open>Inl\<close>. A method with awaits is a
  function of the answers that arrive: either the awaited operation is a function argument that may
  change the whole world it is given, or the method is cut into the pieces between its awaits. A map is
  an association list in insertion order. A payload is a value in a heap of objects, and code that runs
  during an await may change everything in the heap but the data of frozen objects (\<open>later\<close>).

  What the groups of lemmas show

  \<^item> Tasks: one unresolved execution per task, the claim is held until the outcome is known, receipts
    need complete proof, and (a finding) a refused duplicate keeps an ordinary retry from running.
  \<^item> Approvals: bound to one runtime, task, agent, tool and payload digest, consumed at most once in
    memory and in a shared file, never more often than granted for what the caller asked; the digest is injective up to the hash.
  \<^item> Execution: the tool runs only when the policy allowed it and the quota admits it.
  \<^item> Payments: what the policy allowed is what the tool prepares, within the configured wallet entry; the
    stub id names the intent; a number is prepared within one stroop of its exact value, and below \<open>2 ^ 29\<close>
    as the only amount that reads as it; the account checksum detects every mistyped character; (findings)
    the policy as base of the hardened approval policy denies what both allow, and above \<open>2 ^ 29\<close> two
    amounts a stroop apart are one number that passes the guard against rounding
    (\<open>numeric_amount_one_stroop_off\<close>).
  \<^item> Stores: a shared file is serializable under its lock, each wait for a lock ends, a stranded lock
    fails closed, claims are exclusive, capacities hold, the newest entries are kept, and the
    file-backed memory store refines the in-memory one.

  \<^item> The runtime (\<open>runtime/agent-runtime.ts\<close>, theory \<open>Agent_Runtime\<close>): the id of a task stays reserved
    while its tool runs, the events follow the life cycle, a full drain strands nothing. The runtime stands
    on the task system of \<open>Task_Safety\<close>; a call of \<open>executeTask\<close> and its call of \<open>run\<close> share a number.
  \<^item> The event bus (\<open>events/runtime-events.ts\<close>, theory \<open>Event_Bus\<close>): an emission gives each listener of
    its snapshot one turn and calls those still registered, a once listener runs once, failure handling is never re-entered, and dispatch ends. The
    stack of active calls is explicit, and user code on top of it may call the bus.

  \<^item> The audit ledger (\<open>audit/\<close>): \<open>Audit_Json\<close> is the canonical encoding and \<open>JSON.parse\<close>, with the round
    trip between them; \<open>Audit_Ledger\<close> the records, the verifier, the writer and its listeners on the bus;
    \<open>Audit_Chain\<close> what the writer keeps and that attaching it is all or nothing, \<open>Audit_Examples\<close> a first record. Two files with one head are one
    file up to the hash, a healthy writer stands over a file that verifies, a failed append stops it.

  \<^item> The edge. \<open>Runtime_Logger\<close> (\<open>logger/runtime-logger.ts\<close>): redaction is noninterference, and the in-memory
    logger keeps the newest entries of its level. \<open>Hardened_Store\<close>
    (\<open>policies/hardened-json-file-tool-approval-store.ts\<close>): one path, and so one lock, for one file.
    \<open>Model_Provider\<close> (\<open>providers/\<close>): what a request carries and what an error may show. Concrete inputs of
    the three are in \<open>Boundary_Examples\<close>.
  \<^item> \<open>Bootstrap\<close> (\<open>runtime/bootstrap.ts\<close>): the options select components through their constructors; a
    file-backed memory comes with file-backed claims (\<open>claims_as_durable_as_memory\<close>).

  The interfaces are locales: \<open>capped_map\<close> (agents, states, call counters), \<open>claim_authority\<close> and
  \<open>approval_authority\<close> (the in-memory and the file-backed store each), \<open>entry_log\<close> (both memory stores).

  Bounds and fuel

  The walks over a payload carry the frames left on the call stack, and end with the engine's
  \<open>RangeError\<close> when there is none. \<open>payload_depth\<close>, one more than the number of objects of the heap, always
  suffices, because a walk stops at an object it has visited; a smaller stack gives the same answer or
  that error (C35). The stores and policies take the walk with
  \<open>payload_depth\<close> frames: on an engine whose stack a deep payload exhausts, they deny or throw where the
  model goes on (the walk that freezes a payload comes after its approval is consumed). The loops that wait
  for a lock terminate by the time left before the deadline (\<open>acquire_lock\<close>).

  What is assumed

  \<^item> SHA-256 is a parameter; a theorem that needs it to be collision free or to print 64 hexadecimal
    digits says so. Identities from \<open>randomUUID\<close> are arguments, distinct where a theorem says so.
  \<^item> \<open>mkdir\<close> of the lock directory is atomic, and a rename replaces the file as a whole.
  \<^item> The timer of a task fires only while no answer waits for it. The reconciliation authority is
    trusted with what it asserts.
  \<^item> The text of a JSON file is not kept, but for the audit ledger: elsewhere a document is its parsed
    value, or not JSON at all. Numbers are the shortest decimals that identify them; which number a
    literal of a ledger line denotes is a parameter.

  \<^item> \<open>fetch\<close>, \<open>URL\<close>, \<open>TextDecoder\<close>, \<open>realpath\<close> and \<open>lstat\<close> answer through arguments. A proxy answers the logger
    through an argument, and the canonical form of the digest as an ordinary object; the hardened policy
    rejects it before.
  \<^item> The ledger file is its decoded text. \<open>readFileSync\<close> replaces bytes that are not UTF-8, so files that
    differ only in such bytes are one text here, as they are to the verifier.
  \<^item> A function in log metadata is handed on as it is, as in the code, and has no fields here: what a
    console prints of a function's own properties is outside the redaction.

  Not modelled

  \<open>index.ts\<close> re-exports. Type declarations carry no behaviour. The logs that the runtime writes leave no
  trace in the models of the code that writes them, and \<open>toJSON\<close> and stack traces of errors are left out. A logger that
  calls the runtime back inside \<open>start\<close>, after the flag is set and before the first event, is not modelled.
  The reconciliation step of the runtime emits any receipt once the runtime was started, which allows more
  than the code does.
\<close>

section \<open>Tasks\<close>

text \<open>
  C1: However many runners and processes run, crash and share one claim store, two invocations of the
  tool of one task whose outcomes are both still unknown are the same invocation.
\<close>

theorem one_unresolved_execution_per_task:
  assumes "system_steps (fresh_system ts) s"
    and "sy_calls s x = Some c" "sy_calls s y = Some d" "task_id c = task_id d"
    and "ca_invoked c" "sy_resolved s x = None" "ca_invoked d" "sy_resolved s y = None"
  shows "x = y"
  by (rule safe_unique_invocation [OF reachable_safe [OF assms(1)] assms(2-8)])

theorem one_unresolved_execution_per_task_witness:
  "\<exists>s c. system_steps (fresh_system (\<lambda>_. None)) s \<and> sy_calls s 0 = Some c \<and> ca_live c \<and> ca_invoked c \<and>
    sy_resolved s 0 = None \<and> (0::nat) = 0"
  using one_unresolved_execution_per_task [OF demo_running, of 0 "demo_call AwaitExecution None True True" 0
    "demo_call AwaitExecution None True True"] demo_running
  by (intro exI [of _ "demo_state [0 \<mapsto> demo_call AwaitExecution None True True] (Some 0) [] [(''t1'', 0)]"]
    exI [of _ "demo_call AwaitExecution None True True"]) (auto simp: demo_state_def demo_call_def)

text \<open>
  C2: From its invocation on, a call owns the durable claim of its task until its outcome is known: the
  tool failed, its result is recorded in the memory store, or the reconciliation authority confirmed
  it; and while the tool still runs the claim is not given up.
\<close>

theorem claim_held_until_outcome_known:
  assumes "system_steps (fresh_system ts) s" and "sy_calls s x = Some c" and "ca_invoked c"
  shows "sy_claims s (task_id c) = Some x \<and> sy_resolved s x = None \<or>
    (\<exists>why. sy_resolved s x = Some why \<and> \<not> ca_live c \<and> (why = ResultRecorded \<longrightarrow> x \<in> set (sy_recorded s)))"
proof (cases "sy_resolved s x")
  case None
  then show ?thesis using safe_invoked_owner [OF reachable_safe [OF assms(1)] assms(2,3)] by simp
next
  case (Some why)
  then show ?thesis
    using safe_live [OF reachable_safe [OF assms(1)] assms(2)]
      safe_resolved_recorded [OF reachable_safe [OF assms(1)] assms(2)] by auto
qed

theorem claim_held_until_outcome_known_witness:
  "sy_claims (demo_state [0 \<mapsto> demo_call AwaitExecution None True True] (Some 0) [] [(''t1'', 0)]) ''t1'' = Some 0"
  using claim_held_until_outcome_known [OF demo_running, of 0 "demo_call AwaitExecution None True True"]
  by (simp add: demo_state_simps demo_call_simps)

text \<open>
  C30: A duplicate of a running task that is refused makes the runner treat the task as ambiguous: the
  tool of the first call then throws, no timer ever fired, and still its claim is not released, so
  the task stays blocked until it is reconciled.
\<close>

theorem refused_duplicate_blocks_ordinary_retry:
  "\<exists>s c d. system_steps (fresh_system (\<lambda>_. None)) s \<and>
    sy_calls s 0 = Some c \<and> ca_wait c = Finished (Inl (PlainErr ''boom'')) \<and> \<not> ca_live c \<and>
    sy_calls s 1 = Some d \<and> task_id d = task_id c \<and> \<not> ca_invoked d \<and>
    sy_claims s (task_id c) = Some 0 \<and> sy_resolved s 0 = None \<and>
    run_begin (ca_task c) ''t1'' (Some ''a'') (sy_runners s 0) = AwaitHas"
proof -
  have "run_begin demo_task ''t1'' (Some ''a'') \<lparr>ru_timeout = None, ru_unknown = [''t1''], ru_active = []\<rparr> = AwaitHas"
    by (simp add: run_begin_def demo_task_def assert_task_fields_def assert_task_context_def
      assert_non_empty_value_def blank_def js_trim_def Let_def strip_ws.simps ws_seqs_def)
  moreover have "sy_resolved (demo_state c w u a) 0 = None" for c w u a by (simp add: demo_state_def)
  ultimately show ?thesis
    by - (rule exI, rule exI [of _ "demo_call (Finished (Inl (PlainErr ''boom''))) None True False"],
      rule exI [of _ "demo_call (Finished (Inl (unknown_outcome_error ''t1''))) None False False"],
      rule conjI, rule demo_duplicate, simp add: demo_state_simps demo_call_simps)
qed

text \<open>
  C12: A reconciliation receipt is issued only after the authority gave complete proof for the very
  generation that was inspected, the task had no active execution before and after the authority was
  asked, and the conditional release of that generation succeeded.
\<close>

theorem reconciliation_needs_proof:
  assumes "reconcile env t s = (Inr r, s')"
  shows "\<exists>verify inspect release_if claim raw get reference s0 s1 s2.
    rv_authority env = Some verify \<and> rv_inspect env = Some inspect \<and> rv_release_if env = Some release_if \<and>
    \<not> rv_active env t s \<and> inspect t s = (Inr (Some claim), s0) \<and> verify claim s0 = (Inr raw, s1) \<and>
    raw = RawObject get \<and> get ''confirmedNotApplied'' = JBool True \<and> get ''confirmedQuiescent'' = JBool True \<and>
    get ''authorityReference'' = JStr reference \<and> \<not> blank reference \<and> rc_reference r = js_trim reference \<and>
    get ''evidenceSha256'' = JStr (rc_evidence r) \<and> is_sha256_hex (rc_evidence r) \<and>
    \<not> rv_active env t s1 \<and> release_if claim s1 = (Inr True, s2) \<and> s' = rv_forget env t s2 \<and>
    rc_task r = t \<and> rc_claim r = sn_id claim"
proof (rule reconcile_receipt [OF assms])
  fix verify inspect release_if claim raw s0 s1 s2
  assume *: "rv_authority env = Some verify" "rv_inspect env = Some inspect" "rv_release_if env = Some release_if"
    "\<not> rv_active env t s" "inspect t s = (Inr (Some claim), s0)" "verify claim s0 = (Inr raw, s1)"
    "\<not> rv_active env t s1" "release_if claim s1 = (Inr True, s2)" "s' = rv_forget env t s2" "rc_task r = t"
    "rc_claim r = sn_id claim"
  assume "parse_decision raw = Some (rc_reference r, rc_evidence r)"
  from parse_decision_Some [OF this] obtain get reference where "raw = RawObject get"
    "get ''confirmedNotApplied'' = JBool True" "get ''confirmedQuiescent'' = JBool True"
    "get ''authorityReference'' = JStr reference" "\<not> blank reference" "rc_reference r = js_trim reference"
    "get ''evidenceSha256'' = JStr (rc_evidence r)" "is_sha256_hex (rc_evidence r)" by blast
  with * show ?thesis by (intro exI conjI)
qed

theorem reconciliation_needs_proof_witness:
  "\<exists>env r s'. reconcile env ''t'' () = (Inr r, s') \<and> is_sha256_hex (rc_evidence r)"
proof -
  let ?claim = "\<lparr>sn_task = ''t'', sn_at = ''now'', sn_id = ''g''\<rparr>"
  let ?get = "\<lambda>k. if k = ''authorityReference'' then JStr ''ref'' else
    if k = ''evidenceSha256'' then JStr (replicate 64 (CHR ''a'')) else JBool True"
  let ?env = "\<lparr>rv_authority = Some (\<lambda>_ _. (Inr (RawObject ?get), ())), rv_inspect = Some (\<lambda>_ _. (Inr (Some ?claim), ())),
    rv_release_if = Some (\<lambda>_ _. (Inr True, ())), rv_has = (\<lambda>_ _. (Inr True, ())), rv_active = (\<lambda>_ _. False),
    rv_forget = (\<lambda>_ s. s), rv_now = (\<lambda>_. ''later'')\<rparr> :: unit reconcile_env"
  have b: "\<not> blank ''t''" "\<not> blank ''ref''" "js_trim ''ref'' = ''ref''"
    by (simp_all add: blank_def js_trim_def strip_ws.simps ws_seqs_def)
  have "is_sha256_hex (replicate 64 (CHR ''a''))"
    by (simp add: is_sha256_hex_def is_hex_digit_def list_all_iff)
  then have run: "reconcile ?env ''t'' () = (Inr \<lparr>rc_task = ''t'', rc_claim = ''g'', rc_claimed_at = ''now'',
      rc_reconciled_at = ''later'', rc_reference = ''ref'', rc_evidence = replicate 64 (CHR ''a'')\<rparr>, ())"
    by (simp add: reconcile_def reconcile_claim_def parse_decision_def safe_reference_def b
      assert_non_empty_value_def Let_def)
  from reconciliation_needs_proof [OF run] have "is_sha256_hex (rc_evidence \<lparr>rc_task = ''t'', rc_claim = ''g'',
      rc_claimed_at = ''now'', rc_reconciled_at = ''later'', rc_reference = ''ref'',
      rc_evidence = replicate 64 (CHR ''a'')\<rparr>)" by blast
  with run show ?thesis by blast
qed

section \<open>Approvals\<close>

text \<open>
  C3: When the hardened policy permits a protected call, the authority was asked for exactly this
  runtime, task, agent, tool and payload and approved; the payload was digested before; and whatever
  code runs afterwards, the payload it is executed with still has that digest.
\<close>

theorem protected_call_bound_to_approval:
  assumes "evaluate_hardened H p q w = (r, w')" and "permits r" and "rq_tool q \<in> set (po_protected p)"
  shows "\<exists>w1 d w2 digest. po_consume p (consume_request_of q (resolve_agent_id q)) w1 = (Inr d, w2) \<and>
    cd_approved d \<and> digest_payload H (pw_heap w1) (rq_payload q) = Inr digest \<and>
    (case cd_approval d of None \<Rightarrow> True | Some a \<Rightarrow> ap_digest a = digest) \<and>
    (\<forall>h. later (pw_heap w') h \<longrightarrow> digest_legacy H h (rq_payload q) = Inr digest)"
  by (rule hardened_handoff [OF assms])

definition demo_request :: "jsval \<Rightarrow> policy_request" where
  "demo_request v = \<lparr>rq_tool = ''pay'', rq_payload = v, rq_runtime = ''r'', rq_task = ''t'', rq_agent_id = Some ''a'',
    rq_legacy_id = None\<rparr>"

definition demo_heap :: "bool \<Rightarrow> heap" where
  "demo_heap b = [(0, plain_object\<lparr>ob_props := [(KStr ''n'', Data True (JBool True))], ob_frozen := b\<rparr>)]"

lemma demo_digest:
  "digest_payload id (demo_heap b) (JRef 0) = Inr (approval_preimage ''o:{\"n\":b:1}'')"
  by code_simp

theorem protected_call_bound_to_approval_witness:
  "\<exists>(p :: unit approval_policy) w r w' digest. evaluate_hardened id p (demo_request (JRef 0)) w = (r, w') \<and>
    permits r \<and> pw_heap w' = demo_heap True \<and> digest_legacy id (pw_heap w') (JRef 0) = Inr digest"
proof -
  let ?p = "\<lparr>po_consume = (\<lambda>_ w. (Inr \<lparr>cd_approved = True, cd_reason = None, cd_approval = None\<rparr>, w)),
    po_protected = [''pay''], po_base = None\<rparr> :: unit approval_policy"
  let ?w = "\<lambda>b. \<lparr>pw_heap = demo_heap b, pw_rest = ()\<rparr>"
  have freeze: "freeze_approved_payload (demo_heap False) (JRef 0) = (Inr (), demo_heap True)" by code_simp
  have run: "evaluate_hardened id ?p (demo_request (JRef 0)) (?w False) = (Inr allow, ?w True)"
    by (simp add: evaluate_hardened_def demo_request_def ask_base_def resolve_agent_id_def demo_digest seal_def freeze)
  have "\<exists>digest. digest_legacy id (demo_heap True) (JRef 0) = Inr digest"
    using protected_call_bound_to_approval [OF run] by (auto simp: demo_request_def later_def)
  then show ?thesis using run by (intro exI [of _ ?p] exI [of _ "?w False"] exI [of _ "Inr allow"] exI [of _ "?w True"]) simp
qed

text \<open>
  C11: In any run of the in-memory approval store, of any operations in any order, one approval is
  consumed at most once.
\<close>

theorem memory_approval_consumed_once:
  assumes "new_approval_store runtime = Inr st" and "mem_approvals.events H ops st = (evs, st')"
  shows "length (filter (consumes i) evs) \<le> 1"
proof -
  have "wf_approvals st" using assms(1) by (auto simp: new_approval_store_def and_then_Inr wf_approvals_def wf_table_def)
  then show ?thesis using mem_approvals.consumed_once [OF _ _ assms(2)] by (simp add: list_all_iff)
qed

definition demo_grant :: grant_request where
  "demo_grant = \<lparr>gr_id = Some ''g'', gr_task = ''t'', gr_agent = ''a'', gr_tool = ''pay'', gr_payload = JNull, gr_expires = None\<rparr>"

definition demo_consume :: consume_request where
  "demo_consume = \<lparr>cr_runtime = Some ''r'', cr_task = ''t'', cr_agent = ''a'', cr_tool = ''pay'', cr_payload = JNull\<rparr>"

definition demo_hash :: "string \<Rightarrow> string" where
  "demo_hash s = replicate 64 (CHR ''0'')"

definition demo_ops :: "approval_op list" where
  "demo_ops = [OpApprove [] demo_grant ''u'' (Some 0), OpConsume [] demo_consume (Some 5), OpConsume [] demo_consume (Some 7)]"

theorem memory_approval_consumed_once_witness:
  "length (filter (consumes ''g'') (fst (mem_approvals.events demo_hash demo_ops \<lparr>st_runtime = ''r'', st_approvals = []\<rparr>))) \<le> 1"
proof -
  have "new_approval_store ''r'' = Inr \<lparr>st_runtime = ''r'', st_approvals = []\<rparr>" by code_simp
  then show ?thesis using memory_approval_consumed_once [of "''r''"] by (metis prod.collapse)
qed

text \<open>
  C4: Any number of processes share one approval file, each running any approval operations under the
  lock, and may crash, time out or fail to write at any point. Whatever their operations are, one
  approval is consumed at most once in the whole history, and whatever a caller was told is in it.
\<close>

theorem file_approval_consumed_once:
  assumes "file_approvals_ok cfg f" and "lock_steps (initial_system f) s"
    and "ops_of (history s) = map (approval_file_op H cfg) ops" and "list_all (good_op H) ops"
  shows "length (filter (consumes i) (ledger_events H ops (results_of (history s)))) \<le> 1 \<and>
    (\<forall>p op v. (p, op, Inr v) \<in> set (results s) \<longrightarrow> (p, op, Inr v) \<in> set (history s))"
proof -
  note inv = lock_steps_invariants [OF assms(2)]
  then have "file_approvals.events H cfg ops f = (ledger_events H ops (results_of (history s)), disk s)"
    by (simp add: outcomes_events sequential_def assms(3))
  from file_approvals.consumed_once [OF assms(1,4) this] inv show ?thesis
    by (auto simp: reported_def)
qed

theorem file_approval_consumed_once_witness:
  "\<exists>s :: approval_result lock_system. ops_of (history s) = map (approval_file_op demo_hash \<lparr>af_path = ''p'', af_runtime = ''r''\<rparr>) demo_ops \<and>
    length (filter (consumes ''g'') (ledger_events demo_hash demo_ops (results_of (history s)))) \<le> 1"
proof -
  let ?cfg = "\<lparr>af_path = ''p'', af_runtime = ''r''\<rparr>"
  have ok: "file_approvals_ok ?cfg NoFile" by code_simp
  have good: "list_all (good_op demo_hash) demo_ops" by code_simp
  obtain s where s: "lock_steps (initial_system NoFile) s" "rested (map (approval_file_op demo_hash ?cfg) demo_ops) s"
    using solo_run by blast
  then have ops: "ops_of (history s) = map (approval_file_op demo_hash ?cfg) demo_ops" by (simp add: rested_def)
  note once = file_approval_consumed_once [OF ok s(1) ops good, of "''g''"]
  show ?thesis by (rule exI [of _ s], rule conjI [OF ops], rule conjunct1 [OF once])
qed

text \<open>
  C9: The same history never lets more requests through for one runtime, task, agent, tool and payload
  digest than grants were made for exactly them, counting those live in the file at the start. A
  consumption counts for what its caller asked for, with the digest of the payload the caller gave, and a
  grant for what was approved; which record the store matched with the request does not enter.
\<close>

theorem file_approvals_within_grants:
  assumes "file_approvals_ok cfg f" and "lock_steps (initial_system f) s"
    and "ops_of (history s) = map (approval_file_op H cfg) ops" and "list_all (good_op H) ops"
  shows "spends_for b (ledger_events H ops (results_of (history s))) + live_for b (file_recs cfg (disk s)) \<le>
    live_for b (file_recs cfg f) + grants_for b (ledger_events H ops (results_of (history s)))"
proof -
  have "file_approvals.events H cfg ops f = (ledger_events H ops (results_of (history s)), disk s)"
    using lock_steps_invariants [OF assms(2)] by (simp add: outcomes_events sequential_def assms(3))
  from file_approvals.quota [OF assms(1,4) this] show ?thesis .
qed

theorem file_approvals_within_grants_witness:
  "\<exists>s. lock_steps (initial_system NoFile) s \<and> length (history s) = 3 \<and>
    (\<forall>b :: binding. spends_for b (ledger_events demo_hash demo_ops (results_of (history s))) \<le>
      grants_for b (ledger_events demo_hash demo_ops (results_of (history s))))"
proof -
  let ?cfg = "\<lparr>af_path = ''p'', af_runtime = ''r''\<rparr>"
  have ok: "file_approvals_ok ?cfg NoFile" by code_simp
  have good: "list_all (good_op demo_hash) demo_ops" by code_simp
  have none: "live_for b (file_recs ?cfg NoFile) = 0" for b by (simp add: live_for_def file_recs_def load_state_def)
  obtain s where s: "lock_steps (initial_system NoFile) s" "rested (map (approval_file_op demo_hash ?cfg) demo_ops) s"
    using solo_run by blast
  then have ops: "ops_of (history s) = map (approval_file_op demo_hash ?cfg) demo_ops" by (simp add: rested_def)
  then have "length (ops_of (history s)) = 3" by (simp add: demo_ops_def)
  moreover have "spends_for b (ledger_events demo_hash demo_ops (results_of (history s))) \<le>
      grants_for b (ledger_events demo_hash demo_ops (results_of (history s)))" for b
    using file_approvals_within_grants [OF ok s(1) ops good, of b] none [of b] by simp
  ultimately show ?thesis using s(1) by (intro exI [of _ s]) (simp add: ops_of_def)
qed

text \<open>
  C14: If two payloads, each in its own heap, have the same approval digest, and the hash does not send the
  texts hashed for the two payloads to one value, they denote the same structure: the same keys, the same
  order of array elements, the same leaves.
\<close>

theorem equal_digests_same_payload:
  assumes "inj_on H (hashed_payload h v \<union> hashed_payload h' v')"
    and "digest_legacy H h v = Inr d" and "digest_legacy H h' v' = Inr d"
  shows "\<exists>t. denotes h v t \<and> denotes h' v' t"
proof -
  obtain s s' where s: "canonicalize_payload h v = Inr s" "d = H (approval_preimage s)"
    and s': "canonicalize_payload h' v' = Inr s'" "d = H (approval_preimage s')"
    using assms(2,3) by (auto simp: digest_legacy_Inr)
  then have "approval_preimage s = approval_preimage s'"
    using inj_onD [OF assms(1), of "approval_preimage s" "approval_preimage s'"] by (auto simp: hashed_payload_def)
  then have "s = s'" by (simp add: approval_preimage_def)
  then show ?thesis using s(1) s'(1) equal_encodings_same_structure by blast
qed

theorem equal_digests_same_payload_witness:
  "\<exists>d t. length d = 64 \<and> digest_legacy demo_hash (demo_heap False) (JRef 0) = Inr d \<and>
    digest_legacy demo_hash (demo_heap True) (JRef 0) = Inr d \<and>
    denotes (demo_heap False) (JRef 0) t \<and> denotes (demo_heap True) (JRef 0) t"
proof -
  have c: "canonicalize_payload (demo_heap b) (JRef 0) = Inr ''o:{\"n\":b:1}''" for b
  proof -
    obtain s where "canonicalize_payload (demo_heap b) (JRef 0) = Inr s" "approval_preimage ''o:{\"n\":b:1}'' = id (approval_preimage s)"
      using digest_payload_legacy [OF demo_digest, of b] unfolding digest_legacy_Inr by blast
    then show ?thesis by (simp add: approval_preimage_def)
  qed
  then have d: "digest_legacy demo_hash (demo_heap b) (JRef 0) = Inr (replicate 64 (CHR ''0''))" for b
    by (simp add: digest_legacy_Inr demo_hash_def)
  have "inj_on demo_hash (hashed_payload (demo_heap False) (JRef 0) \<union> hashed_payload (demo_heap True) (JRef 0))"
    by (simp add: hashed_payload_def c)
  from equal_digests_same_payload [OF this d d] show ?thesis using d by (metis length_replicate)
qed

text \<open>
  C35: On any stack the digest ends, whatever cycles the heap has. What it gives is the digest that an
  unbounded stack gives; or one of the code's own type errors, again the one an unbounded stack gives; or
  the engine's stack overflow, and that only when fewer frames are left than \<open>payload_depth\<close>, one more than
  the heap has objects. A deep payload on a small stack is refused; it never gets another digest.
\<close>

theorem digest_depends_on_stack_only_by_overflow:
  "case digest_within n H h v of
     Inr d \<Rightarrow> digest_legacy H h v = Inr d \<and> (\<exists>s. canonicalize_payload h v = Inr s \<and> d = H (approval_preimage s))
   | Inl e \<Rightarrow> e = stack_overflow \<and> n < payload_depth h \<or> type_error e \<and> digest_legacy H h v = Inl e"
proof (cases "digest_within n H h v = digest_legacy H h v")
  case True
  then show ?thesis using digest_within_enough [OF order_refl, of h H v]
    by (cases "digest_legacy H h v") (simp_all add: digest_legacy_Inr)
qed (use digest_within_cases [of n H h v] in auto)

text \<open>
  C31: The approvals a store writes are the approvals it reads back, and every state it accepts holds
  only valid records of its own runtime with distinct identities.
\<close>

theorem approval_state_round_trip:
  assumes "load_state cfg f = Inr rs"
  shows "load_state cfg (Document (json_of_state cfg rs)) = Inr rs \<and> distinct (map ap_id rs) \<and>
    list_all (valid_record (af_runtime cfg)) rs"
  using load_state_valid [OF assms] load_state_written by blast

theorem approval_state_round_trip_witness:
  "\<exists>rs. length rs = 1 \<and>
    load_state \<lparr>af_path = ''p'', af_runtime = ''r''\<rparr> (Document (json_of_state \<lparr>af_path = ''p'', af_runtime = ''r''\<rparr> rs)) = Inr rs"
proof -
  let ?cfg = "\<lparr>af_path = ''p'', af_runtime = ''r''\<rparr>"
  let ?r = "\<lparr>ap_id = ''g'', ap_runtime = ''r'', ap_task = ''t'', ap_agent = ''a'', ap_tool = ''pay'',
    ap_digest = replicate 64 (CHR ''0''), ap_granted = ''1970-01-01T00:00:00.000Z'', ap_expires = None,
    ap_consumed = Some ''1970-01-01T00:00:00.005Z'', ap_revoked = None\<rparr>"
  have "load_state ?cfg (Document (json_of_state ?cfg [?r])) = Inr [?r]" by code_simp
  from approval_state_round_trip [OF this] show ?thesis by (intro exI [of _ "[?r]"]) simp
qed

text \<open>
  C32: Printing a time the clock can show and parsing it as a canonical instant gives the time back, and
  nothing but the printed form of a valid time parses.
\<close>

theorem canonical_instant_round_trip:
  "(parse_canonical_instant label s = Inr ms) \<longleftrightarrow> (valid_time ms \<and> iso_of_millis ms = s)"
  by (rule parse_canonical_Inr)

text \<open>
  A conjunction of policies permits a call exactly if every one of them was asked, in order, and
  permitted it; and the hardened policy composed with a base policy that denies never asks the
  approval authority.
\<close>

lemma conjunction_permits_iff_all_permit:
  "(permits (fst (all_of_policy ps q w)) \<longleftrightarrow> list_all permits (asked ps q w)) \<and>
   (case ask_base (po_base p) q w of
      (Some r, w') \<Rightarrow> evaluate_hardened H p q w = (r, w') \<and> evaluate_approval p q w = (r, w') \<and> \<not> permits r
    | (None, _) \<Rightarrow> True)"
  using all_of_permits [of ps q w] base_denial_first [of p q w]
  by (auto split: prod.splits option.splits)

section \<open>Tool calls\<close>

text \<open>
  C27: As long as a task is not released, its calls that the executor admits are at most its quota,
  however its calls are interleaved with those of other tasks and with other releases.
\<close>

theorem tool_calls_within_quota:
  assumes "new_executor (ANumber v) a b = Inr ex" and "run_calls ops ex = (bs, ex')" and "\<not> list_ex (releases t) ops"
  shows "admitted t ops bs \<le> nat (num_int v) \<and> tool_call_count ex' t = admitted t ops bs"
proof -
  have "ex_quota ex = Some (nat (num_int v))" "tool_call_count ex t = 0"
    using assms(1) by (auto simp: new_executor_def and_then_Inr Let_def tool_call_count_def split: if_splits)
  with quota_holds [OF new_executor_wf [OF assms(1)] _ assms(2,3)] show ?thesis by simp
qed

theorem tool_calls_within_quota_witness:
  "admitted ''t'' [Admit ''t'', Admit ''u'', Admit ''t''] [True, True, False] \<le> 1"
proof -
  let ?ex = "\<lparr>ex_counts = [], ex_quota = Some 1, ex_cap = 1000\<rparr>"
  have new: "new_executor (ANumber (Fin 1 0)) AAbsent None = Inr ?ex" by code_simp
  have run: "run_calls [Admit ''t'', Admit ''u'', Admit ''t''] ?ex =
      ([True, True, False], \<lparr>ex_counts = [(''t'', 1), (''u'', 1)], ex_quota = Some 1, ex_cap = 1000\<rparr>)"
    by code_simp
  have "nat (num_int (Fin 1 0)) = 1" by code_simp
  with tool_calls_within_quota [OF new run, of "''t''"] show ?thesis by (simp add: releases_def)
qed

text \<open>
  C5: The tool runs at most once per call, and only if it is registered under the name, the policy
  permitted the request and the call was admitted; every other call is an error and runs no tool. The
  call context is writable: each piece reads what the world holds of it then, so the request carries the
  task and agent before the policy was asked, the call is counted for the task after it, and the tool is
  given the context the listeners of \<open>runtime.tool.invoked\<close> left.
\<close>

theorem tool_runs_only_when_allowed:
  assumes "execute su policy reg name payload w = (r, w')"
  shows "(\<exists>e. get_tool reg name = Inl e \<and> r = Inl e \<and> w' = w) \<or>
    (\<exists>p reason. policy = Some p \<and> \<not> permits (fst (p (request_of name payload (su_context su w)) w)) \<and>
      (r, w') = deny_tool su name reason (snd (p (request_of name payload (su_context su w)) w))) \<or>
    (\<exists>e wp. assert_tool_allowed su policy name payload w = (Inr (), wp) \<and>
      admit (cx_task (su_context su wp)) (cs_executor (pw_rest wp)) = (Inl e, cs_executor (pw_rest w')) \<and> r = Inl e) \<or>
    (\<exists>tool wp wa we. get_tool reg name = Inr tool \<and>
      (case policy of None \<Rightarrow> wp = w | Some p \<Rightarrow> permits (fst (p (request_of name payload (su_context su w)) w)) \<and>
        wp = snd (p (request_of name payload (su_context su w)) w)) \<and>
      admit_world (cx_task (su_context su wp)) wp = (Inr (), wa) \<and> we = su_emit su (invoked_event su name wa) wa \<and>
      (r, w') = su_tool su (tool_run tool) payload (su_context su we) we)"
  using assms
proof (cases rule: execute_cases)
  case (exhausted tool wp e)
  then show ?thesis by (intro disjI2 disjI1 exI conjI)
next
  case (ran tool wp wa we)
  then show ?thesis by (intro disjI2 exI conjI)
qed blast+

definition demo_surroundings :: "call_context surroundings" where
  "demo_surroundings = \<lparr>su_emit = (\<lambda>_ w. w), su_now = (\<lambda>_. ''now''),
    su_tool = (\<lambda>k _ cx w. (Inr (JStr (cx_task cx)), w)), su_context = (\<lambda>w. cs_rest (pw_rest w))\<rparr>"

definition demo_calling :: "string \<Rightarrow> (string, nat) table \<Rightarrow> call_context world" where
  "demo_calling t counts = \<lparr>pw_heap = [], pw_rest = \<lparr>cs_executor = \<lparr>ex_counts = counts, ex_quota = Some 1, ex_cap = 10\<rparr>,
    cs_rest = \<lparr>cx_runtime = ''r'', cx_task = t, cx_agent_id = Some ''a'', cx_legacy_id = None\<rparr>\<rparr>\<rparr>"

text \<open>A policy that lets the call through and renames its task while it is asked.\<close>

definition demo_renaming :: "call_context call_state policy" where
  "demo_renaming q w = (Inr (ABool True), w\<lparr>pw_rest := (pw_rest w)\<lparr>cs_rest := (cs_rest (pw_rest w))\<lparr>cx_task := ''u''\<rparr>\<rparr>\<rparr>)"

definition demo_tools :: tool_registry where
  "demo_tools = [(''pay'', \<lparr>tool_name = JStr ''pay'', tool_description = [], tool_run = 3\<rparr>)]"

theorem tool_runs_only_when_allowed_witness:
  "execute demo_surroundings (Some demo_renaming) demo_tools ''pay'' JNull (demo_calling ''t'' []) =
      (Inr (JStr ''u''), demo_calling ''u'' [(''u'', 1)]) \<and>
    (\<exists>wa. admit_world ''u'' (demo_calling ''u'' []) = (Inr (), wa)) \<and>
    (\<exists>reason. (Inl (RuntimeError TOOL_POLICY_DENIED reason (Some [(''toolName'', JStr ''pay''), (''taskId'', JStr ''t''),
      (''reason'', JStr reason)])), demo_calling ''t'' []) =
      execute demo_surroundings (Some (\<lambda>_ w. (Inr (ABool False), w))) demo_tools ''pay'' JNull (demo_calling ''t'' []))"
proof -
  have run: "execute demo_surroundings (Some demo_renaming) demo_tools ''pay'' JNull (demo_calling ''t'' []) =
      (Inr (JStr ''u''), demo_calling ''u'' [(''u'', 1)])" by code_simp
  have "get_tool demo_tools ''pay'' = Inr \<lparr>tool_name = JStr ''pay'', tool_description = [], tool_run = 3\<rparr>" by code_simp
  with tool_runs_only_when_allowed [OF run]
  have "\<exists>wa. admit_world ''u'' (demo_calling ''u'' []) = (Inr (), wa)"
    by (auto simp: deny_tool_def Let_def demo_renaming_def demo_calling_def demo_surroundings_def)
  moreover obtain r w' where run': "execute demo_surroundings (Some (\<lambda>_ w. (Inr (ABool False), w))) demo_tools ''pay'' JNull
      (demo_calling ''t'' []) = (r, w')" by force
  moreover have "\<exists>reason. (r, w') = deny_tool demo_surroundings ''pay'' reason (demo_calling ''t'' [])"
    using tool_runs_only_when_allowed [OF run'] run'
    by (auto simp: get_tool_def demo_tools_def permits_def decision_allows_def and_then_def assert_tool_allowed_def verdict_def deny_tool_def Let_def)
  ultimately show ?thesis using run
    by (auto simp: deny_tool_def Let_def demo_surroundings_def demo_calling_def)
qed

section \<open>Claims and locks\<close>

text \<open>
  C24: Processes that share one claim file, whatever they run and however they fail: between two
  successful claims of one task in the history some operation of the history freed the task.
\<close>

theorem file_claims_exclusive:
  assumes "file_claims_ok path f" and "lock_steps (initial_system f) s" and "ops_of (history s) = map (claim_file_op path) cs"
    and "list_all claim_authority.well_formed_op cs" and "i < j" "j < length cs"
    and "cs ! i = OpClaim t n g" "results_of (history s) ! i = Inr (RFlag True)"
    and "cs ! j = OpClaim t n' g'" "results_of (history s) ! j = Inr (RFlag True)"
  shows "\<exists>k. i < k \<and> k < j \<and> claim_authority.frees t (cs ! k)"
proof -
  have "results_of (history s) = fst (file_claims.exec_all path cs f)"
    using lock_steps_invariants [OF assms(2)] by (simp add: sequential_def assms(3) outcomes_exec_all)
  then have "file_claims.exec_all path cs f = (results_of (history s), snd (file_claims.exec_all path cs f))" by simp
  from file_claims.claim_exclusive [OF assms(1,4) this assms(5-10)] show ?thesis .
qed

theorem file_claims_exclusive_witness:
  "\<exists>k. 0 < k \<and> k < (2::nat) \<and> claim_authority.frees ''t'' ([OpClaim ''t'' ''n'' ''g'', OpRelease ''t'', OpClaim ''t'' ''n'' ''h''] ! k)"
proof -
  let ?cs = "[OpClaim ''t'' ''n'' ''g'', OpRelease ''t'', OpClaim ''t'' ''n'' ''h'']"
  obtain s where s: "lock_steps (initial_system NoFile) s" "rested (map (claim_file_op ''p'') ?cs) s" using solo_run by blast
  then have ops: "ops_of (history s) = map (claim_file_op ''p'') ?cs" by (simp add: rested_def)
  have ok: "file_claims_ok ''p'' NoFile" by (simp add: file_claims_ok_def load_claims_def load_array_def wf_table_def)
  have wf: "list_all claim_authority.well_formed_op ?cs" by (simp add: file_claims.well_formed_op_def)
  have "results_of (history s) = outcomes NoFile (map (claim_file_op ''p'') ?cs)"
    using lock_steps_invariants [OF s(1)] by (simp add: sequential_def ops)
  moreover have "outcomes NoFile (map (claim_file_op ''p'') ?cs) = [Inr (RFlag True), Inr RDone, Inr (RFlag True)]" by code_simp
  ultimately show ?thesis
    using file_claims_exclusive [OF ok s(1) ops wf, of 0 2 "''t''" "''n''" "''g''" "''n''" "''h''"] by simp
qed

text \<open>
  C36: A conditional release that carries an older generation than the one in the file reports failure
  and changes nothing, so an old reconciliation cannot remove a newer claim.
\<close>

theorem stale_generation_cannot_release:
  assumes "file_claims_ok path f" and "file_gens path f (sn_task sn) = Some (Some g)" and "g \<noteq> sn_id sn"
    and "run_op (file_release_if_matches path sn) f = (r, f')"
  shows "r = Inr False \<and> file_gens path f' = file_gens path f"
  by (rule file_claims.stale_snapshot [OF assms])

theorem stale_generation_cannot_release_witness:
  "fst (run_op (file_release_if_matches ''p'' \<lparr>sn_task = ''t'', sn_at = ''n'', sn_id = ''old''\<rparr>)
    (Document (JsArr [json_of_claim \<lparr>sn_task = ''t'', sn_at = ''n'', sn_id = ''new''\<rparr>]))) = Inr False"
proof -
  let ?f = "Document (JsArr [json_of_claim \<lparr>sn_task = ''t'', sn_at = ''n'', sn_id = ''new''\<rparr>])"
  let ?sn = "\<lparr>sn_task = ''t'', sn_at = ''n'', sn_id = ''old''\<rparr>"
  have "file_claims_ok ''p'' ?f" "file_gens ''p'' ?f ''t'' = Some (Some ''new'')" by code_simp+
  then show ?thesis
    using stale_generation_cannot_release [of "''p''" ?f ?sn "''new''" "fst (run_op (file_release_if_matches ''p'' ?sn) ?f)"
      "snd (run_op (file_release_if_matches ''p'' ?sn) ?f)"] by simp
qed

text \<open>
  C28: The cross-process lock is held by at most one process, the shared file is always the result of
  running the recorded operations one after another from the initial file, with the recorded results,
  and every success a caller was told of is recorded.
\<close>

theorem shared_file_is_serializable:
  assumes "lock_steps (initial_system f) s"
  shows "(critical (phase s p) \<longrightarrow> lock_dir s) \<and> (critical (phase s p) \<and> critical (phase s q) \<longrightarrow> p = q) \<and>
    disk s = replay f (ops_of (history s)) \<and> results_of (history s) = outcomes f (ops_of (history s)) \<and>
    ((p, op, Inr v) \<in> set (results s) \<longrightarrow> (p, op, Inr v) \<in> set (history s))"
  using lock_steps_invariants [OF assms] by (auto simp: exclusive_def sequential_def reported_def)

theorem shared_file_is_serializable_witness:
  "\<exists>s :: bool lock_system. length (history s) = 1 \<and> disk s = replay NoFile [file_claim ''p'' ''t'' ''n'' ''g'']"
proof -
  obtain s where s: "lock_steps (initial_system NoFile) s" "rested [file_claim ''p'' ''t'' ''n'' ''g''] s"
    using solo_run by blast
  then have ops: "ops_of (history s) = [file_claim ''p'' ''t'' ''n'' ''g'']" by (simp add: rested_def)
  have "length (history s) = 1" using arg_cong [OF ops, of length] by (simp add: ops_of_def)
  moreover have "disk s = replay NoFile [file_claim ''p'' ''t'' ''n'' ''g'']"
    using shared_file_is_serializable [OF s(1)] unfolding ops by blast
  ultimately show ?thesis by blast
qed

text \<open>
  C37: A lock directory that nobody holds, as a crash or a failed removal leaves it, stays, and no
  operation of any process ever changes the file again: the stores fail closed.
\<close>

theorem stranded_lock_fails_closed:
  assumes "stranded s" and "lock_steps s t"
  shows "stranded t \<and> disk t = disk s \<and> history t = history s"
  by (rule stranded_steps [OF assms(2,1)])

theorem stranded_lock_fails_closed_witness:
  "\<exists>t. lock_steps ((initial_system NoFile :: bool lock_system)\<lparr>lock_dir := True\<rparr>) t \<and> waiting_ops t 0 \<noteq> [] \<and>
    disk t = NoFile"
proof -
  let ?s = "(initial_system NoFile :: bool lock_system)\<lparr>lock_dir := True\<rparr>"
  let ?t = "?s\<lparr>waiting_ops := (waiting_ops ?s)(0 := waiting_ops ?s 0 @ [file_has ''p'' ''t''])\<rparr>"
  have step: "lock_steps ?s ?t"
    by (rule r_into_rtranclp, rule lock_step.enqueue) (simp add: initial_system_def)
  have "stranded ?s" by (simp add: stranded_def initial_system_def)
  from stranded_lock_fails_closed [OF this step] have "disk ?t = disk ?s" by blast
  with step show ?thesis by (intro exI [of _ ?t] conjI step) (simp_all add: initial_system_def)
qed

text \<open>
  C38: With a positive retry delay each of the three waits for a lock (claims, approvals, memory) ends:
  at once or after a sleep that the loop entered before its time-out, no later than one retry delay and
  the delay of the timer after it; and there with the lock, whose directory was created at that very time,
  with the error of \<open>mkdir\<close> at that time, or, the time-out over and the directory still there, with the
  \<open>STORAGE_LOCKED\<close> error that names the store.
\<close>

theorem lock_wait_ends:
  assumes "0 < retry"
  shows "lock_wait_ok \<lparr>lt_what = ''Task claim'', lt_path = path, lt_lock = lock\<rparr> made late timeout retry 0
      (acquire_claim_lock path lock made late timeout retry) \<and>
    lock_wait_ok \<lparr>lt_what = ''Tool approval'', lt_path = path, lt_lock = lock\<rparr> made late timeout retry 0
      (acquire_approval_lock path lock made late timeout retry) \<and>
    lock_wait_ok \<lparr>lt_what = ''Memory'', lt_path = path, lt_lock = lock\<rparr> made late timeout retry 0
      (acquire_memory_lock path lock made late timeout retry) \<and>
    error_code_of (storage_locked \<lparr>lt_what = what, lt_path = path, lt_lock = lock\<rparr> timeout) = Some STORAGE_LOCKED"
  unfolding acquire_claim_lock_def acquire_approval_lock_def acquire_memory_lock_def lock_attempts_agree
  by (intro conjI acquire_lock_result [OF assms]) (simp add: storage_locked_def)

theorem lock_wait_ends_witness:
  "acquire_memory_lock ''p'' ''p.lock'' (\<lambda>t. if t < 15 then LockExists else LockCreated) (\<lambda>_. 0) 5000 10 = Inr 20 \<and>
    (\<exists>e. acquire_memory_lock ''p'' ''p.lock'' (\<lambda>_. LockExists) (\<lambda>_. 0) 15 10 = Inl e \<and> error_code_of e = Some STORAGE_LOCKED)"
proof -
  define made where "made = (\<lambda>t :: nat. if t < 15 then LockExists else LockCreated)"
  have run: "acquire_memory_lock ''p'' ''p.lock'' made (\<lambda>_. 0) 5000 10 = Inr 20"
    by (simp add: acquire_memory_lock_def acquire_lock.simps memory_lock_attempt_def made_def)
  have "\<exists>e. acquire_memory_lock ''p'' ''p.lock'' (\<lambda>_. LockExists) (\<lambda>_. 0) 15 10 = Inl e \<and> error_code_of e = Some STORAGE_LOCKED"
    using lock_wait_ends [where retry = 10 and path = "''p''" and lock = "''p.lock''" and made = "\<lambda>_. LockExists" and
      late = "\<lambda>_. 0" and timeout = 15 and what = "''Memory''"]
    by (cases "acquire_memory_lock ''p'' ''p.lock'' (\<lambda>_. LockExists) (\<lambda>_. 0) 15 10") (auto simp: lock_wait_ok_def)
  with run show ?thesis by (simp add: made_def)
qed

section \<open>Memory and keyed stores\<close>

text \<open>
  C39: After any appends to a new in-memory store, the entries and the entries of each agent are within
  the configured bounds, the per-agent counters are exact, and the entries are appended ones in their
  order, the newest last.
\<close>

theorem memory_store_bounded:
  assumes "new_memory_store m a = Inr st"
  shows "length (mem_entries (fold store_entry es st)) \<le> mem_max st \<and>
    (mem_max_agent st = 0 \<or> count_by_agent (fold store_entry es st) ag \<le> mem_max_agent st) \<and>
    count_by_agent (fold store_entry es st) ag = occurrences ag (mem_entries (fold store_entry es st)) \<and>
    subseq (mem_entries (fold store_entry es st)) es"
proof -
  have wf: "wf_memory st" and empty: "mem_entries st = []"
    using assms by (auto simp: new_memory_store_def Let_def wf_memory_def counts_exact_def wf_table_def
      within_bounds_def integer_from_def split: if_splits option.splits)
  note all = memory.add_all_def [symmetric]
  have "wf_memory (memory.add_all es st)" by (rule memory.ok_add_all [OF wf])
  then have count: "count_by_agent (memory.add_all es st) ag = occurrences ag (mem_entries (memory.add_all es st))"
    by (simp add: wf_memory_def count_exact)
  show ?thesis
    using memory.add_all_bounds [OF wf, of es ag] memory.add_all_order [OF wf, of es] count empty
    unfolding all by (simp add: occurrences_def)
qed

definition demo_entry :: "string \<Rightarrow> json option memory_entry" where
  "demo_entry t = \<lparr>me_agent = ''a'', me_task = t, me_input = ''i'', me_output = None, me_recorded = ''n''\<rparr>"

theorem memory_store_bounded_witness:
  "length (mem_entries (fold store_entry [demo_entry ''1'', demo_entry ''2'', demo_entry ''3'']
    \<lparr>mem_entries = [], mem_counts = [], mem_max = 2, mem_max_agent = 0\<rparr>)) \<le> 2"
proof -
  have "new_memory_store (Some (Fin 2 0)) (Some (Fin 0 0)) =
      Inr (\<lparr>mem_entries = [], mem_counts = [], mem_max = 2, mem_max_agent = 0\<rparr> :: json option memory_store)" by code_simp
  from memory_store_bounded [OF this, of "[demo_entry ''1'', demo_entry ''2'', demo_entry ''3'']"] show ?thesis by simp
qed

text \<open>
  Without a bound per agent the in-memory store holds exactly the newest entries, as many as fit.
\<close>

lemma memory_store_keeps_newest:
  assumes "new_memory_store m a = Inr st" and "mem_max_agent st = 0"
  shows "mem_entries (fold store_entry es st) = drop (length es - mem_max st) es"
proof -
  have wf: "wf_memory st" and empty: "mem_entries st = []"
    using assms by (auto simp: new_memory_store_def Let_def wf_memory_def counts_exact_def wf_table_def
      within_bounds_def integer_from_def split: if_splits option.splits)
  from memory.add_all_newest [OF wf assms(2), of es] empty show ?thesis
    by (simp add: memory.add_all_def)
qed

text \<open>
  C40: The file store and the in-memory store with the same bounds hold the same entries after the same
  appends, for entries whose output is a JSON value or left out. And an append to any readable file, with
  however many entries, as one written under larger bounds, leaves at most as many entries as the total
  bound and, if there is a bound per agent, of the appending agent at most so many (other agents are not
  trimmed); it only drops entries, keeps the order of the rest and puts the new one last.
\<close>

theorem file_memory_refines_memory:
  assumes "file_memory_ok s" and "wf_memory st" and "mem_entries st = file_contents s"
    and "mem_max st = fm_max (fms_config s)" and "mem_max_agent st = fm_max_agent (fms_config s)"
  shows "file_contents (fold file_add es s) = mem_entries (fold store_entry es st) \<and>
    (\<forall>f e. is_ok (load_entries (fms_config s) f) \<longrightarrow>
      (let old = file_contents (s\<lparr>fms_file := f\<rparr>); new = file_contents (file_add e (s\<lparr>fms_file := f\<rparr>)) in
       length new \<le> mem_max st \<and>
       (0 < mem_max_agent st \<longrightarrow> length (filter (\<lambda>x. me_agent x = me_agent e) new) \<le> mem_max_agent st) \<and>
       subseq new (old @ [e]) \<and> last new = e))"
proof (intro conjI allI impI)
  show "file_contents (fold file_add es s) = mem_entries (fold store_entry es st)"
    using file_store.contents_add_all [OF assms(1), of es] memory.contents_add_all [OF assms(2), of es] assms(3-5)
    by (simp add: file_store.add_all_def memory.add_all_def)
next
  fix f e
  assume "is_ok (load_entries (fms_config s) f)"
  then have "is_ok (load_entries (fms_config (s\<lparr>fms_file := f\<rparr>)) (fms_file (s\<lparr>fms_file := f\<rparr>)))" by simp
  moreover have "0 < fm_max (fms_config (s\<lparr>fms_file := f\<rparr>))" using assms(1) by (simp add: file_memory_ok_def)
  ultimately show "let old = file_contents (s\<lparr>fms_file := f\<rparr>); new = file_contents (file_add e (s\<lparr>fms_file := f\<rparr>)) in
       length new \<le> mem_max st \<and>
       (0 < mem_max_agent st \<longrightarrow> length (filter (\<lambda>x. me_agent x = me_agent e) new) \<le> mem_max_agent st) \<and>
       subseq new (old @ [e]) \<and> last new = e"
    using file_add_restores [of "s\<lparr>fms_file := f\<rparr>" e] by (simp add: Let_def assms(4,5))
qed

definition demo_file_memory :: "nat \<Rightarrow> nat \<Rightarrow> file_memory" where
  "demo_file_memory m a =
    \<lparr>fms_config = \<lparr>fm_path = ''p'', fm_max = m, fm_max_agent = a, fm_lock_timeout = 5000, fm_lock_retry = 10\<rparr>, fms_file = NoFile\<rparr>"

text \<open>A file with three entries, and the store with room for two that opens it.\<close>

definition demo_full_file :: storage_file where
  "demo_full_file = fms_file (fold file_add [demo_entry ''1'', demo_entry ''2'', demo_entry ''3''] (demo_file_memory 5 0))"

theorem file_memory_refines_memory_witness:
  "file_contents (fold file_add [demo_entry ''1'', demo_entry ''2'', demo_entry ''3''] (demo_file_memory 2 1)) = [demo_entry ''3''] \<and>
    length (file_contents ((demo_file_memory 2 1)\<lparr>fms_file := demo_full_file\<rparr>)) = 3 \<and>
    length (file_contents (file_add (demo_entry ''4'') ((demo_file_memory 2 1)\<lparr>fms_file := demo_full_file\<rparr>))) \<le> 2"
proof -
  let ?st = "\<lparr>mem_entries = [], mem_counts = [], mem_max = 2, mem_max_agent = 1\<rparr> :: json option memory_store"
  let ?s = "demo_file_memory 2 1"
  have ok: "file_memory_ok ?s" and c: "mem_entries ?st = file_contents ?s"
    by (simp_all add: demo_file_memory_def file_memory_ok_def file_contents_def load_entries_def load_array_def within_bounds_def)
  have wf: "wf_memory ?st"
    by (simp add: wf_memory_def counts_exact_def wf_table_def within_bounds_def)
  have bounds: "mem_max ?st = fm_max (fms_config ?s)" "mem_max_agent ?st = fm_max_agent (fms_config ?s)"
    by (simp_all add: demo_file_memory_def)
  note both = file_memory_refines_memory [OF ok wf c bounds]
  have full: "is_ok (load_entries (fms_config ?s) demo_full_file)"
    "length (file_contents (?s\<lparr>fms_file := demo_full_file\<rparr>)) = 3" by code_simp+
  have "fold store_entry [demo_entry ''1'', demo_entry ''2'', demo_entry ''3''] ?st =
      \<lparr>mem_entries = [demo_entry ''3''], mem_counts = [(''a'', 1)], mem_max = 2, mem_max_agent = 1\<rparr>" by code_simp
  then show ?thesis
    using both [of "[demo_entry ''1'', demo_entry ''2'', demo_entry ''3'']"] full by (simp add: Let_def)
qed

text \<open>
  A page of an agent's history is the slice the options ask for of that agent's entries, in order.
\<close>

lemma list_by_agent_is_a_page:
  assumes "assert_list_options opt = Inr ()" and "\<And>v. clone_output pf v = Inr (copy v)"
  shows "list_by_agent pf st ag opt = Inr (map (\<lambda>e. e\<lparr>me_output := copy (me_output e)\<rparr>)
    (page (case lo_offset opt of None \<Rightarrow> 0 | Some v \<Rightarrow> nat (num_int v)) (map_option (\<lambda>v. nat (num_int v)) (lo_limit opt))
      (filter (\<lambda>e. me_agent e = ag) (mem_entries st))))"
proof -
  let ?limit = "map_option (\<lambda>v. nat (num_int v)) (lo_limit opt)"
  have clone: "clone_entry pf e = Inr (e\<lparr>me_output := copy (me_output e)\<rparr>)" for e
    by (simp add: clone_entry_def assms(2))
  show ?thesis
  proof (cases "?limit = Some 0")
    case True
    then show ?thesis by (auto simp: list_by_agent_def assms(1) select_entries_def page_def split: option.splits)
  next
    case False
    then have "case ?limit of None \<Rightarrow> True | Some l \<Rightarrow> length ([] :: 'a memory_entry list) < l"
      by (auto split: option.splits)
    from select_loop_page [OF clone this] False show ?thesis
      by (auto simp: list_by_agent_def assms(1) select_entries_def Let_def map_option.identity)
  qed
qed

text \<open>
  A registered tool is found under its exact name and no other lookup changes; the registry holds
  every tool under its own trimmed, non-blank name.
\<close>

lemma registered_tool_is_found:
  assumes "wf_registry reg" and "register reg tool = Inr reg'"
  shows "wf_registry reg' \<and> get_tool reg' m = (if tool_name tool = JStr m then Inr tool else get_tool reg m)"
  using wf_registry_register [OF assms] get_tool_register [OF assms(2)] by simp

text \<open>
  However many agents are created, a positive limit bounds the instances kept, and an agent created
  fewer than that many creations ago is still there.
\<close>

lemma agent_instances_bounded_and_recent:
  assumes "new_agent_manager opt = Inr mgr" and "0 < max_instances mgr" and "\<not> blank a"
    and "length later_ones < max_instances mgr" and "a \<notin> set (table_keys (instances (agents.ins_all earlier mgr)))"
  shows "a \<in> set (table_keys (instances (agents.ins_all later_ones (after_get_or_create a now (agents.ins_all earlier mgr))))) \<and>
    length (instances (agents.ins_all earlier mgr)) \<le> max_instances mgr"
proof -
  have "agents.bounded mgr" using assms(1) by (auto simp: new_agent_manager_def agents.bounded_def Let_def split: if_splits)
  then have b: "agents.bounded (agents.ins_all earlier mgr)" by (rule agents.bounded_ins_all)
  have cap: "max_instances (agents.ins_all earlier mgr) = max_instances mgr" by (rule agents.cap_ins_all)
  show ?thesis
    using agents.recent_survives [OF b assms(3,5), of later_ones now] assms(2,4) b cap
    by (simp add: agents.bounded_def)
qed

text \<open>
  The state store returns what was put, keeps every other key it still has unchanged, and never
  holds more than its limit.
\<close>

lemma state_store_get_put:
  assumes "state_store.bounded st"
  shows "state_get (state_put k v st) k = Some v \<and> state_store.bounded (state_put k v st) \<and>
    (j = k \<or> state_get (state_put k v st) j = None \<or> state_get (state_put k v st) j = state_get st j)"
  using state_get_put_same [of k v st] state_get_put_other [OF assms, of j k v] state_store.bounded_ins [OF assms, of k v]
  by (cases "state_get (state_put k v st) j") auto

section \<open>Payments\<close>

text \<open>
  C8: A payment that the payment policy allowed keeps to one wallet entry of the configuration when the
  tool prepares it, whatever code runs in between and whatever getters or a polluted prototype answer:
  limit, recipients, assets, and the required recipient and memo.
\<close>

theorem allowed_payment_honours_configuration:
  assumes "new_payment_policy (Entry es) = Inr rules"
    and "evaluate_payment H now gap rules q w = (r, w')" and "permits r" and "rq_tool q = PAYMENT_PREP_TOOL_NAME"
  shows "\<exists>l e. rq_payload q = JRef l \<and> Entry e \<in> set es \<and>
    (\<forall>h elsewhere H' task now'. later (pw_heap w') h \<longrightarrow>
      (\<exists>r'. prepare_payment H' task now' (payload_read elsewhere h l) = Inr r' \<and> honours e r'))"
  by (rule allowed_payment_honours [OF assms])

theorem allowed_payment_honours_configuration_witness:
  "\<exists>r'. prepare_payment id ''t2'' ''then'' (payload_read (\<lambda>_. JStr ''polluted'') demo_bound_heap 0) = Inr r' \<and>
    honours demo_wallet r'"
proof -
  let ?w = "\<lparr>pw_heap = demo_pay_heap, pw_rest = ()\<rparr>" and ?w' = "\<lparr>pw_heap = demo_bound_heap, pw_rest = ()\<rparr>"
  from allowed_payment_honours_configuration [OF demo_config demo_payment_allowed]
  obtain l e where "JRef 0 = JRef l" "Entry e \<in> set [Entry demo_wallet]"
    and all: "\<forall>h elsewhere H' task now'. later (pw_heap ?w') h \<longrightarrow>
      (\<exists>r'. prepare_payment H' task now' (payload_read elsewhere h l) = Inr r' \<and> honours e r')"
    by (auto simp: demo_pay_request_def)
  moreover have "later (pw_heap ?w') demo_bound_heap" by (simp add: later_def)
  ultimately show ?thesis by (metis empty_iff empty_set entry.inject(1) jsval.inject(7) set_ConsD)
qed

text \<open>
  C13: The documented composition of the payment policy with the hardened approval policy, as its base,
  denies every payment whose object leaves out any of the seven fields, whatever was approved.
\<close>

theorem payment_base_denies_approved_payment:
  assumes "po_base p = Some (evaluate_payment H' now gap rules)"
    and "rq_tool q = PAYMENT_PREP_TOOL_NAME" and "PAYMENT_PREP_TOOL_NAME \<in> set (po_protected p)"
    and "rq_payload q = JRef l" and "k \<in> set payment_fields" and "own_property (heap_get (pw_heap (gap w)) l) k = None"
  shows "\<not> permits (fst (evaluate_hardened H p q w))"
  by (rule payment_base_starves_approval [OF assms])

theorem payment_base_denies_approved_payment_witness:
  "permits (fst (evaluate_payment id ''now'' (\<lambda>w. w) demo_rules demo_pay_request demo_world)) \<and>
    permits (fst (evaluate_hardened id (demo_approving None) demo_pay_request demo_world)) \<and>
    \<not> permits (fst (evaluate_hardened id
      (demo_approving (Some (evaluate_payment id ''now'' (\<lambda>w. w) demo_rules))) demo_pay_request demo_world))"
proof -
  have "own_property (heap_get demo_pay_heap 0) ''memo'' = None" by code_simp
  then have "\<not> permits (fst (evaluate_hardened id
      (demo_approving (Some (evaluate_payment id ''now'' (\<lambda>w. w) demo_rules))) demo_pay_request demo_world))"
    by (intro payment_base_denies_approved_payment [where k = "''memo''" and l = 0 and gap = "\<lambda>w. w"])
      (simp_all add: demo_approving_def demo_pay_request_def demo_world_def payment_fields_def)
  then show ?thesis using demo_payment_allowed demo_approval_alone by (simp add: demo_world_def)
qed

text \<open>
  C26: Two prepared payments have the same stub id exactly when they are one intent: the same task,
  wallet, recipient, asset, issuer, memo and amount in stroops, however the amount was spelled.
\<close>

theorem stub_id_identifies_intent:
  assumes "prepare_payment H task now p = Inr r" and "prepare_payment H task' now' p' = Inr r'"
    and "\<And>s. length (H s) = 64"
    and "inj_on H {intent_of task r, intent_of task' r'}"
  shows "pr_stub r = pr_stub r' \<longleftrightarrow> task = task' \<and> pr_wallet r = pr_wallet r' \<and> pr_recipient r = pr_recipient r' \<and>
    pr_asset r = pr_asset r' \<and> pr_issuer r = pr_issuer r' \<and> pr_memo r = pr_memo r' \<and>
    stroops_of (pr_amount r) = stroops_of (pr_amount r')"
proof -
  note injD = inj_onD [OF assms(4) _ insertI1 insertI2 [OF singletonI], unfolded intent_of_def]
  show ?thesis (is "_ \<longleftrightarrow> ?same")
    unfolding prepared_stub [OF assms(1)] prepared_stub [OF assms(2)]
  proof
    assume ids: "transaction_stub_id H task (pr_wallet r) (pr_recipient r) (pr_asset r) (pr_issuer r)
        (stroops_of (pr_amount r)) (pr_memo r) =
      transaction_stub_id H task' (pr_wallet r') (pr_recipient r') (pr_asset r') (pr_issuer r')
        (stroops_of (pr_amount r')) (pr_memo r')"
    show ?same by (insert stub_id_inj [where H = H, OF assms(3) _ ids]) (use injD in blast)
  qed simp
qed

theorem stub_id_identifies_intent_witness:
  "\<exists>r r'. prepare_payment demo_hash ''t'' ''now'' demo_payload = Inr r \<and>
    prepare_payment demo_hash ''t'' ''later'' (demo_payload\<lparr>pp_amount := JStr ''1.50''\<rparr>) = Inr r' \<and>
    pr_amount r \<noteq> pr_amount r' \<and> pr_stub r = pr_stub r'"
proof -
  have len: "length (demo_hash s) = 64" for s by (simp add: demo_hash_def)
  obtain r r' where run: "prepare_payment demo_hash ''t'' ''now'' demo_payload = Inr r"
      "prepare_payment demo_hash ''t'' ''later'' (demo_payload\<lparr>pp_amount := JStr ''1.50''\<rparr>) = Inr r'"
    and eq: "pr_amount r \<noteq> pr_amount r'" "intent_of ''t'' r = intent_of ''t'' r'" "pr_wallet r = pr_wallet r'"
      "pr_recipient r = pr_recipient r'" "pr_asset r = pr_asset r'" "pr_issuer r = pr_issuer r'" "pr_memo r = pr_memo r'"
      "stroops_of (pr_amount r) = stroops_of (pr_amount r')"
    by (rule that [OF demo_prepared demo_prepared_spelled]) (simp_all add: intent_of_def demo_amounts demo_spelled_amount)
  have "pr_stub r = pr_stub r'"
    using stub_id_identifies_intent [OF run len] eq by simp
  then show ?thesis using run eq(1) by blast
qed

text \<open>
  C25: Two strings that \<open>isValidStellarAccountId\<close> accepts never differ in one character only.
\<close>

theorem mistyped_account_id_rejected:
  assumes "is_valid_stellar_account_id (pre @ c # post)" and "is_valid_stellar_account_id (pre @ d # post)"
  shows "c = d"
  by (rule one_character_detected [OF assms])

theorem mistyped_account_id_rejected_witness:
  "is_valid_stellar_account_id zero_account \<and>
    \<not> is_valid_stellar_account_id (''G'' @ CHR ''B'' # replicate 51 (CHR ''A'') @ ''WHF'')"
proof -
  have "zero_account = ''G'' @ CHR ''A'' # replicate 51 (CHR ''A'') @ ''WHF''"
    by (simp add: zero_account_def numeral_eq_Suc)
  then show ?thesis
    using mistyped_account_id_rejected [of "''G''" "CHR ''A''" "replicate 51 (CHR ''A'') @ ''WHF''" "CHR ''B''"]
      zero_account_valid by auto
qed

text \<open>
  \<open>decodeBase32\<close> computes positional notation: the bytes are the digits to base 256 of the number the
  characters denote to base 32, after the unfinished last byte, whose bits must be zero, is cut off.
\<close>

lemma decode_base32_is_positional:
  "decode_base32 s = Some bytes \<longleftrightarrow>
    (\<exists>ds. base32_digits s = Some ds \<and> base_val 32 ds = base_val 256 bytes * 2 ^ (5 * length s mod 8) \<and>
      length bytes = 5 * length s div 8 \<and> list_all (\<lambda>b. b < 256) bytes)"
  by (rule decode_base32_reference)

text \<open>
  C33: A numeric amount that is accepted is prepared as the decimal the language prints for the number, in
  stroops, or as one that reads back as the same double; the stroops are less than one stroop from the
  exact value of the double; and below \<open>2 ^ 29\<close> they are the only number of stroops that reads as that
  double. (Above, two amounts a stroop apart can be one double: \<open>numeric_amount_one_stroop_off\<close>.)
\<close>

theorem numeric_amount_is_faithful:
  assumes "normalize_stellar_amount (JNum v) = Inr (s, n)"
  shows "\<exists>m e x. shortest v = Fin m e \<and> 0 < m \<and> x = decimal_double (nat m) e \<and>
    (0 \<le> e + 7 \<and> n = nat m * 10 ^ nat (e + 7) \<or> same_double (nearest_double n (10 ^ 7)) x) \<and>
    \<bar>real n / 10 ^ 7 - double_value x\<bar> < 1 / 10 ^ 7 \<and>
    (double_value x < 2 ^ 29 \<longrightarrow> (\<forall>n'. same_double (nearest_double n' (10 ^ 7)) x \<longrightarrow> n' = n))"
  by (rule numeric_amount_faithful [OF assms])

theorem numeric_amount_is_faithful_witness:
  "normalize_stellar_amount (JNum (Fin 25 (- 1))) = Inr (''2.5'', 25000000) \<and>
    \<bar>real 25000000 / 10 ^ 7 - double_value (decimal_double 25 (- 1))\<bar> < 1 / 10 ^ 7 \<and>
    {n'. same_double (nearest_double n' (10 ^ 7)) (decimal_double 25 (- 1))} \<subseteq> {25000000}"
proof -
  have run: "normalize_stellar_amount (JNum (Fin 25 (- 1))) = Inr (''2.5'', 25000000)" by (rule demo_number)
  have "double_value (decimal_double 25 (- 1)) < 2 ^ 29"
    by (simp add: demo_double double_value_def powi_neg)
  with numeric_amount_is_faithful [OF run] run show ?thesis unfolding demo_shortest by auto
qed

text \<open>
  C29: Preparing a payment fails with INVALID_TASK or yields a valid payment: a wallet, an asset with
  exactly the issuer it needs, a memo of at most 28 bytes, an amount between one stroop and the 64-bit
  maximum.
\<close>

theorem prepared_payment_is_valid:
  "case prepare_payment H task now p of
    Inl e \<Rightarrow> error_code_of e = Some INVALID_TASK
  | Inr r \<Rightarrow> valid_payment r \<and> pr_at r = now \<and> pr_metadata r = pp_metadata p"
  by (cases "prepare_payment H task now p") (simp_all add: prepare_payment_error prepared_is_valid prepared_rest)

section \<open>The event bus\<close>

text \<open>
  C20: An emission takes the listeners registered under its name when it begins, each once and in order of
  registration, whatever listeners, observers and other emissions do to the bus meanwhile: along any run
  to its end, each has one turn, and it is called in its turn exactly if it is still registered then. A
  listener taken off before its turn is passed over, and one added after the beginning waits for the next
  emission. (\<open>turns\<close> are read off the states of the run, \<open>calls\<close> off the steps that enter a listener.)
\<close>

theorem emission_serves_its_snapshot:
  assumes "new_event_bus o' = Inr b" and "bus_steps (idle_machine b) s"
    and "map_of (eb_listeners (bm_bus s)) (name_of ev) = Some ls"
    and "bus_run (begin_emit ev s # run)"
    and "\<And>e rest. Dispatch (bm_next s) e rest \<notin> set (bm_stack (last (begin_emit ev s # run)))"
  shows "map fst (turns (bm_next s) (begin_emit ev s # run)) = ls \<and> distinct ls \<and>
    calls (bm_next s) (begin_emit ev s # run) = map fst (filter snd (turns (bm_next s) (begin_emit ev s # run)))"
  using emission_served [OF bus_reachable_ok [OF assms(2,1)] assms(3-5)] by blast

theorem emission_serves_its_snapshot_witness:
  "map fst (turns 0 (begin_emit demo_event demo_pair # demo_rest)) = [Plain 1, Plain 2] \<and>
    calls 0 (begin_emit demo_event demo_pair # demo_rest) = [Plain 1]"
proof -
  have "turns 0 (begin_emit demo_event demo_pair # demo_rest) = [(Plain 1, True), (Plain 2, False)]"
    unfolding demo_pair_begun demo_rest_def
    by (simp add: turns_def turn_of_def demo_at_def listeners_of_def demo_event_def)
  moreover have "map_of (eb_listeners (bm_bus demo_pair)) (name_of demo_event) = Some [Plain 1, Plain 2]"
    by (simp add: demo_pair_def demo_at_def demo_event_def)
  moreover have "bm_next demo_pair = 0" by (simp add: demo_pair_def demo_at_def)
  moreover have "bm_stack (last (begin_emit demo_event demo_pair # demo_rest)) = []" by (simp add: demo_rest_def demo_at_def)
  ultimately show ?thesis
    using emission_serves_its_snapshot [OF demo_bus_new demo_pair_reached _ demo_pair_run, of "[Plain 1, Plain 2]"] by simp
qed

text \<open>
  C23: A listener registered with \<open>once\<close> is called at most once over all emissions, and when it has been
  called it is registered under no name.
\<close>

theorem once_listener_called_once:
  assumes "new_event_bus o' = Inr b" and "bus_steps (idle_machine b) s"
  shows "invocations (Once w k) s = 0 \<or>
    invocations (Once w k) s = 1 \<and> (\<forall>n. Once w k \<notin> set (listeners_of (bm_bus s) n))"
  using bus_reachable_ok [OF assms(2,1)] unfolding bus_ok_def once_ok_def by blast

theorem once_listener_called_once_witness:
  "invocations (Once 0 7) demo_done = 1 \<and> (\<forall>n. Once 0 7 \<notin> set (listeners_of (bm_bus demo_done) n))"
proof -
  have "invocations (Once 0 7) demo_done \<noteq> 0"
    by (simp add: invocations_def demo_done_def demo_failing_def)
  then show ?thesis using once_listener_called_once [OF demo_bus_new demo_done_reached, of 0 7] by simp
qed

text \<open>
  The internal error event is never emitted inside its own emission and the error observer is never
  entered while it runs; both flags say exactly that, and no listener set outgrows the limit.
\<close>

lemma failure_handling_not_reentered:
  assumes "new_event_bus o' = Inr b" and "bus_steps (idle_machine b) s"
  shows "reports (bm_stack s) = of_bool (eb_internal (bm_bus s)) \<and>
    observers (bm_stack s) = of_bool (eb_notifying (bm_bus s)) \<and>
    length (listeners_of (bm_bus s) n) \<le> eb_max (bm_bus s)"
  using bus_reachable_ok [OF assms(2,1)] by (auto simp: bus_ok_def flags_ok_def sets_ok_def)

text \<open>
  C21: Dispatch ends. From every state of the bus, as long as listeners and observers end and do not call
  the bus themselves, at most \<open>bus_weight\<close> steps remain whatever throws or rejects; and when no step is
  left, every call has returned and every rejection has been handled.
\<close>

theorem bus_dispatch_ends:
  assumes "new_event_bus o' = Inr b" and "bus_steps (idle_machine b) s" and "(quiet_step ^^ n) s s'"
  shows "n \<le> bus_weight s \<and>
    ((\<exists>t. quiet_step s' t) \<or> bm_stack s' = [] \<and> bm_rejections s' = [] \<and>
      \<not> eb_internal (bm_bus s') \<and> \<not> eb_notifying (bm_bus s'))"
proof -
  note run = quiet_run_bounded [OF assms(3) bus_reachable_ok [OF assms(2,1)]]
  show ?thesis
  proof (cases "bm_stack s' = [] \<and> bm_rejections s' = []")
    case True
    then show ?thesis using run by (auto simp: bus_ok_def flags_ok_def of_bool_def split: if_splits)
  next
    case False
    then show ?thesis using run quiet_progress [of s'] by auto
  qed
qed

theorem bus_dispatch_ends_witness:
  "3 \<le> bus_weight demo_failing"
  using bus_dispatch_ends [OF demo_bus_new demo_failing_reached demo_finishes] by simp

section \<open>The runtime\<close>

text \<open>
  C6: While the tool of an accepted task runs, even after the caller was told of a time-out, the task is
  not released: until the runtime has stopped its id is reserved by no other execution, and as long as the
  runtime accepts tasks a second one with that id is refused without any effect.
\<close>

theorem running_task_id_reserved:
  assumes "world_steps (fresh_world ts p i agents ex) w" and "wo_execs w x = Some e"
    and "sy_calls (wo_system w) x = Some c" and "ca_live c"
  shows "\<not> released (xc_phase e) \<and>
    (\<forall>y f. ag_stop (wo_runtime w) \<noteq> StopDone \<and> wo_execs w y = Some f \<and> \<not> released (xc_phase f) \<and>
      ta_task (xc_task f) = ta_task (xc_task e) \<longrightarrow> y = x) \<and>
    (\<forall>y t now. ag_started (wo_runtime w) \<and> ta_task t = ta_task (xc_task e) \<longrightarrow>
      (\<exists>err. execute_begin y t now (wo_runtime w) = (Inl err, wo_runtime w, [])))"
proof -
  note ok = world_reachable_ok [OF assms(1)]
  note live = live_reserved [OF ok assms(2-4)]
  show ?thesis
    using live reservation_unique [OF ok _ _ _ assms(2) live] reserved_refused [OF ok _ assms(2) live] by blast
qed

theorem running_task_id_reserved_witness:
  "\<exists>err. execute_begin 1 demo_task ''later'' (wo_runtime demo_live_world) = (Inl err, wo_runtime demo_live_world, [])"
proof -
  have live: "sy_calls (wo_system demo_live_world) 0 = Some (demo_call AwaitExecution None True True)"
    "ca_live (demo_call AwaitExecution None True True)"
    "wo_execs demo_live_world 0 = Some \<lparr>xc_task = demo_task, xc_phase = InRun\<rparr>"
    "ag_started (wo_runtime demo_live_world)"
    by (simp_all add: demo_live_world_def demo_state_simps demo_call_simps demo_runtime_def)
  show ?thesis
    using running_task_id_reserved [OF demo_live_reached [unfolded demo_fresh_world_def] live(3,1,2)] live(4) by simp
qed

text \<open>
  C15: The emitted events follow the life cycle: one start, then receipts of tasks, at most one stop, no
  receipt after it; and every accepted task has one receipt and, once its run has settled, exactly one
  outcome event, which is the outcome its caller gets. Listeners of the events may call the runtime again;
  loggers are taken not to.
\<close>

theorem events_follow_life_cycle:
  assumes "world_steps (fresh_world ts p i agents ex) w"
  shows "life_run Idle (map snd (wo_events w)) = Some (life_of (wo_runtime w)) \<and>
    (\<forall>x. events_of x w = (case wo_execs w x of None \<Rightarrow> []
      | Some e \<Rightarrow> phase_events (ag_id (wo_runtime w)) (xc_task e) (xc_phase e)))"
  using world_reachable_trace [OF assms] by (simp add: trace_ok_def)

theorem events_follow_life_cycle_witness:
  "life_run Idle (map snd (wo_events demo_drained_world)) = Some Up \<and>
    events_of 0 demo_drained_world = [TaskReceived ''r'' ''t1'' ''a'', TaskFailed ''r'' ''t1'' ''a'' ''io'']"
  using events_follow_life_cycle [OF demo_drained_reached [unfolded demo_fresh_world_def]]
  by (simp add: demo_drained_world_def life_of_def demo_runtime_def demo_task_def announcement_def
      failure_reason_def events_of_def demo_rt_world_def)

text \<open>
  C19: A drain that was not cut short by its timer strands nothing: every accepted task has been released
  and no id is reserved when the stop finishes.
\<close>

theorem full_drain_strands_nothing:
  assumes "world_steps (fresh_world ts p i agents ex) w" and "drain_over False (wo_runtime w) = Some r"
  shows "(\<forall>x e. wo_execs w x = Some e \<longrightarrow> released (xc_phase e)) \<and>
    (\<exists>clear r'. finish_stop now elapsed r = Some (Stopped (ag_id r) now None (Some elapsed), clear, r'))"
proof -
  have "ag_stop r = Finishing" using assms(2) by (auto simp: drain_over_def split: stop_phase.splits if_splits)
  then show ?thesis
    using full_drain [OF world_reachable_ok [OF assms(1)] assms(2)]
    by (auto simp: finish_stop_def stranded_tasks_def split: option.split)
qed

theorem full_drain_strands_nothing_witness:
  "\<exists>r clear r'. drain_over False (wo_runtime demo_drained_world) = Some r \<and>
    finish_stop ''end'' 3 r = Some (Stopped (ag_id r) ''end'' None (Some 3), clear, r')"
proof -
  have "drain_over False (wo_runtime demo_drained_world) = Some (demo_runtime False True Finishing [] [] [0])"
    by (simp add: demo_drained_world_def drain_over_def demo_runtime_def)
  then show ?thesis
    using full_drain_strands_nothing [OF demo_drained_reached [unfolded demo_fresh_world_def]] by blast
qed
section \<open>The audit ledger\<close>

text \<open>
  C16: Two ledger files that both verify and end in the same chain head are the same file, unless SHA-256
  collides on the records they hold: a record rewritten, removed, inserted or moved shows in the head.
\<close>

theorem ledger_tampering_shows:
  assumes "verify_ledger_text R H limit raw = valid_ledger n head"
    and "verify_ledger_text R H limit' raw' = valid_ledger n' head"
    and "inj_on H (hashed_bodies R raw \<union> hashed_bodies R raw')"
  shows "raw = raw'"
  by (rule ledger_unique [OF assms])

theorem ledger_tampering_shows_witness:
  "\<exists>raw. raw \<noteq> [] \<and> verify_ledger_text demo_reader demo_audit_hash 1000 raw = valid_ledger 1 (Some (demo_audit_hash [])) \<and>
    inj_on demo_audit_hash (hashed_bodies demo_reader raw) \<and> raw = demo_line @ [newline]"
  using ledger_tampering_shows [OF demo_verified demo_verified] demo_bodies demo_verified
  by (intro exI [of _ "demo_line @ [newline]"]) simp

text \<open>
  C17: A ledger was opened and events were appended to it, whatever the writes and flushes did. If the
  writer then still says it is healthy, the file verifies, with the count and the head digest of the writer.
  The sequence numbers and the numbers of the events are taken to be read back as they were printed.
\<close>

theorem healthy_ledger_verifies:
  assumes "new_ledger resolve R H path limit create f op paths = (Inr l, paths')"
    and "append_all G H xs (l, text_of_file (op_after op)) = (rs, l', content)" and "al_healthy l'"
    and "\<forall>x \<in> set xs. reads_event R (fst x) (fst (snd x))" and "reads_sequence R"
    and "al_count l + length xs \<le> 9007199254740991" and "\<And>s. is_sha256_hex (H s)"
  shows "verify_ledger_text R H (al_max l) content = valid_ledger (al_count l') (al_head l')"
  using healthy_run [where H = H, OF assms(2,3) opened_ledger(1) [OF assms(1)] assms(4-7)] by simp

theorem healthy_ledger_verifies_witness:
  "verify_ledger_text demo_reader demo_audit_hash 1000 (demo_line @ [newline]) = valid_ledger 1 (Some (demo_audit_hash []))"
proof -
  let ?l = "demo_ledger\<lparr>al_count := 1, al_head := Some (demo_audit_hash [])\<rparr>"
  let ?x = "(demo_event_heap, JRef 0, Wrote (Suc (length demo_line)), Inr ()) :: append_step"
  have run: "append_all (\<lambda>_ _. JNull) demo_audit_hash [?x] (demo_ledger, text_of_file (op_after demo_opening)) =
      ([Inr \<lparr>lr_event = JRef 0, lr_previous = None, lr_digest = demo_audit_hash [], lr_sequence = 1\<rparr>], ?l, demo_line @ [newline])"
    by (simp add: demo_append demo_opening_def text_of_file_def)
  have "al_max demo_ledger = 1000" by (simp add: demo_ledger_def)
  then show ?thesis
    using healthy_ledger_verifies [where H = demo_audit_hash and R = demo_reader, OF demo_opened run]
      demo_reads_event demo_reads_sequence demo_audit_hash_hex by (simp add: demo_ledger_def)
qed

text \<open>
  C22: An append that fails on an open, healthy writer marks it unhealthy and leaves its count and head.
  Whatever was written is behind the old content, and every later append is refused and writes nothing.
\<close>

theorem failed_append_stops_the_ledger:
  assumes "ledger_append G H h ev w f (l, content) = (Inl e, l', content')" and "al_healthy l" "\<not> al_closed l" "al_open l"
  shows "\<not> al_healthy l' \<and> al_count l' = al_count l \<and> al_head l' = al_head l \<and> prefix content content' \<and>
    (\<exists>m. append_all G H xs (l', content') = (replicate (length xs) (Inl (AuditErr AUDIT_UNHEALTHY m)), l', content'))"
  using failed_append_state [OF assms] append_all_unhealthy [of l' G H xs content'] by blast

theorem failed_append_stops_the_ledger_witness:
  "\<exists>m l. append_all (\<lambda>_ _. JNull) demo_audit_hash [(demo_event_heap, JRef 0, Wrote (Suc (length demo_line)), Inr ())]
      (l, take 3 (demo_line @ [newline])) =
    ([Inl (AuditErr AUDIT_UNHEALTHY m)], l, take 3 (demo_line @ [newline])) \<and> \<not> al_healthy l"
proof -
  have "al_healthy demo_ledger" "\<not> al_closed demo_ledger" "al_open demo_ledger" by (simp_all add: demo_ledger_def)
  from failed_append_stops_the_ledger [OF demo_failed this,
      where xs = "[(demo_event_heap, JRef 0, Wrote (Suc (length demo_line)), Inr ())]"]
  show ?thesis by fastforce
qed
section \<open>Logging\<close>

text \<open>
  C7: What stands under a redacted key is not logged: two states of the world that look alike but for the
  values under redacted keys, behind accessors and in properties that are not enumerable give the same
  line on the console and the same entry in memory, at any depth and for cyclic metadata too.
\<close>

theorem logging_hides_secrets:
  assumes "same_but_secrets hidden (P, h) (P', h')"
  shows "console_emit (c\<lparr>cl_hidden := hidden\<rparr>) P h level message v = console_emit (c\<lparr>cl_hidden := hidden\<rparr>) P' h' level message v \<and>
    memory_log P h level message v (g\<lparr>ml_hidden := hidden\<rparr>) = memory_log P' h' level message v (g\<lparr>ml_hidden := hidden\<rparr>)"
  using redaction_hides(1) [OF assms]
  by (simp add: console_emit_def prepare_metadata_def memory_log_def append_entry_def kept_metadata_def)

theorem logging_hides_secrets_witness:
  "console_emit demo_console (\<lambda>_. None) (demo_metadata ''k1'') LWarn ''m'' (JRef 0) =
      console_emit demo_console (\<lambda>_. None) (demo_metadata ''k2'') LWarn ''m'' (JRef 0) \<and>
    console_emit demo_console (\<lambda>_. None) (demo_metadata ''k1'') LWarn ''m'' (JRef 0) =
      Some (LWarn, ''m'', RObj [(''apiKey'', REDACTED), (''self'', CIRCULAR_METADATA_SENTINEL)])"
proof -
  have "demo_console\<lparr>cl_hidden := DEFAULT_REDACT_KEYS\<rparr> = demo_console" by (simp add: demo_console_def)
  then show ?thesis
    using logging_hides_secrets [OF demo_same, where c = demo_console and level = LWarn and message = "''m''" and v = "JRef 0"]
      demo_line_logged by simp
qed

text \<open>
  C34: The in-memory logger holds the newest entries of its level, oldest first, as many as its limit, or
  all of them when the limit is 0; it never holds more.
\<close>

theorem logger_keeps_newest:
  assumes "new_memory_logger entries level keys = Inr g"
  shows "ml_entries (log_all cs g) = keep_newest (ml_max g) (kept_entries (ml_hidden g) (ml_level g) cs) \<and>
    (ml_max g = 0 \<or> log_size (log_all cs g) \<le> ml_max g)"
proof -
  have "ml_entries g = []" using assms by (auto simp: new_memory_logger_def Let_def split: if_splits sum.splits)
  then show ?thesis using log_keeps_newest [of g cs] log_bounded [OF assms, of cs] by auto
qed

theorem logger_keeps_newest_witness:
  "ml_entries (log_all [(\<lambda>_. None, [], LDebug, ''a'', JUndefined), (\<lambda>_. None, [], LInfo, ''b'', JUndefined), (\<lambda>_. None, [], LWarn, ''c'', JUndefined),
      (\<lambda>_. None, [], LError, ''d'', JUndefined)] demo_logger) =
    [\<lparr>le_level = LWarn, le_message = ''c'', le_metadata = None\<rparr>, \<lparr>le_level = LError, le_message = ''d'', le_metadata = None\<rparr>]"
  using logger_keeps_newest [OF demo_new_logger, of "[(\<lambda>_. None, [], LDebug, ''a'', JUndefined), (\<lambda>_. None, [], LInfo, ''b'', JUndefined),
    (\<lambda>_. None, [], LWarn, ''c'', JUndefined), (\<lambda>_. None, [], LError, ''d'', JUndefined)]"]
  by (simp add: demo_logger_def kept_entries_def should_log_def keep_newest_def kept_metadata_def)

section \<open>The hardened approval store\<close>

text \<open>
  C10: Two hardened stores, whatever paths they were given and whatever they were asked before, that are
  both let to one and the same file (one identity) work on it under the same path: they share its queue and
  its lock directory, so one grant has one authority. The parent directories are canonical, and a file
  with two canonical names counts its links.
\<close>

theorem one_authority_per_file:
  assumes "new_hardened_store resolve p opt = Inr hs" and "\<forall>x \<in> set ((ask, lstat) # xs). real_paths D (fst x)"
    and "with_store ask lstat (admissions xs hs) = (Inr s, t)"
    and "new_hardened_store resolve' p' opt' = Inr hs'" and "\<forall>x \<in> set ((ask', lstat) # ys). real_paths D (fst x)"
    and "with_store ask' lstat (admissions ys hs') = (Inr s', t')"
    and "lstat (af_path s) = LinkEntry (RegularFile i n)" "lstat (af_path s') = LinkEntry (RegularFile i m)" and "link_counts D lstat"
  shows "af_path s = af_path s'"
proof (rule ccontr)
  assume "af_path s \<noteq> af_path s'"
  then have "1 < n"
    using admitted_store(1) [OF assms(1-3)] admitted_store(1) [OF assms(4-6)] assms(7-9) unfolding link_counts_def by blast
  then show False using admitted_store(2) [OF assms(1-3)] assms(7) by auto
qed

theorem one_authority_per_file_witness:
  "\<exists>s s' t t'. with_store demo_ask demo_lstat (demo_hardened ''/data/a'') = (Inr s, t) \<and>
    with_store demo_ask demo_lstat (demo_hardened ''/link/a'') = (Inr s', t') \<and> af_path s = af_path s'"
proof -
  obtain s t where s: "with_store demo_ask demo_lstat (admissions [] (demo_hardened ''/data/a'')) = (Inr s, t)" "af_path s = ''/data/a''"
    using demo_admitted(1) by (cases "with_store demo_ask demo_lstat (demo_hardened ''/data/a'')") auto
  obtain s' t' where s': "with_store demo_ask demo_lstat (admissions [] (demo_hardened ''/link/a'')) = (Inr s', t')" "af_path s' = ''/data/a''"
    using demo_admitted(2) by (cases "with_store demo_ask demo_lstat (demo_hardened ''/link/a'')") auto
  have real: "\<forall>x \<in> set [(demo_ask, demo_lstat)]. real_paths {''/data''} (fst x)" using demo_real by simp
  have found: "demo_lstat (af_path s) = LinkEntry (RegularFile 7 1)" "demo_lstat (af_path s') = LinkEntry (RegularFile 7 1)"
    using s(2) s'(2) by (simp_all add: demo_lstat_def)
  have "af_path s = af_path s'"
    by (rule one_authority_per_file [OF demo_new_hardened [OF demo_names(1)] real s(1) demo_new_hardened [OF demo_names(2)] real s'(1)
        found demo_links])
  then show ?thesis using s(1) s'(1) by auto
qed

section \<open>The model provider\<close>

text \<open>
  C18: At the boundary to the model service the request carries the configured key as its only
  authorization header, whatever headers were configured; an answer either yields a response that was
  parsed from at most 8 MiB of received bytes, or an error that depends on nothing but the HTTP status:
  neither the body nor the key shows in it.
\<close>

theorem provider_boundary:
  assumes "new_provider U opt = Inr p" and "provider_request U p prompt = Inr q" and "fetch q = Some r"
    and "provider_generate U decode R fetch p prompt = Some out"
  shows "filter (\<lambda>h. map lower_ascii (fst h) = ''authorization'') (rq_headers q) =
      [(''Authorization'', ''Bearer '' @ pr_api_key p)] \<and>
    (case out of
       Inl e \<Rightarrow> e \<in> status_errors (rs_status r)
     | Inr a \<Rightarrow> \<exists>b. length b \<le> MAX_RESPONSE_BODY_BYTES \<and> parse_answer R p (rs_status r) (decode b) = Inr a)"
proof (cases out)
  case (Inl e)
  then show ?thesis using request_authorization [OF assms(1,2)] answered_errors [OF assms(2)] assms(3,4) by simp
next
  case (Inr a)
  obtain s where s: "read_bounded_response_text decode r = Some (Inr s)" "parse_answer R p (rs_status r) s = Inr a"
    using assms(2-4) Inr by (auto simp: provider_generate_def split: if_splits option.splits sum.splits)
  have "parse_answer R p (rs_status r) [] \<noteq> Inr a" by (simp add: parse_answer_def json_parse_def skip_ws_def)
  then show ?thesis using request_authorization [OF assms(1,2)] accepted_body [OF s(1)] s(2) Inr by auto
qed

theorem provider_boundary_witness:
  "filter (\<lambda>h. map lower_ascii (fst h) = ''authorization'') (rq_headers demo_http_request) = [(''Authorization'', ''Bearer '' @ ''k'')] \<and>
    PlainErr (''OpenAI-compatible provider returned invalid JSON ('' @ http 200 @ '').'') \<in> status_errors 200"
  using provider_boundary [where fetch = "\<lambda>_. Some demo_response", OF demo_new_provider demo_request_made refl demo_generated]
  by (simp add: demo_provider_def demo_response_def)

end
